(* ===== verification/Prelude.thy ===== *)
theory Prelude
  imports "HOL-Library.Word"
begin

unbundle bit_operations_syntax

text \<open>
  Shared vocabulary of the development: the machine types of the C sources, the byte order
  conversions that every component uses, and the generic lemmas on lists and words that carry the
  component proofs.

  Conventions. \<open>size_t\<close> is 64 bits wide (\<open>OPENSSL_64_BIT\<close>) and \<open>unsigned\<close> and \<open>uint32_t\<close> are 32 bits
  wide. A size is a \<open>nat\<close> and every addition, multiplication or shift of sizes that the source guards
  against wrap-around goes through \<open>size_add\<close>, \<open>size_mul\<close> below, which wrap at \<open>2 ^ 64\<close>.
\<close>

type_synonym u8 = "8 word"
type_synonym u16 = "16 word"
type_synonym u32 = "32 word"
type_synonym u64 = "64 word"
type_synonym ptr = nat

definition NULL :: ptr where
  "NULL = 0"

definition SIZEOF_PTR :: nat where
  "SIZEOF_PTR = 8"

named_theorems byte_order \<open>big and little endian conversions\<close>

section \<open>Sizes\<close>

definition SIZE_BOUND :: nat where
  "SIZE_BOUND = 2 ^ 64"

definition SIZE_MAX :: nat where
  "SIZE_MAX = 2 ^ 64 - 1"

definition INT_MAX :: nat where
  "INT_MAX = 2 ^ 31 - 1"

definition size_add :: "nat \<Rightarrow> nat \<Rightarrow> nat" where
  "size_add a b = (a + b) mod SIZE_BOUND"

definition size_mul :: "nat \<Rightarrow> nat \<Rightarrow> nat" where
  "size_mul a b = (a * b) mod SIZE_BOUND"

lemma size_add_id: "a + b < SIZE_BOUND \<Longrightarrow> size_add a b = a + b"
  by (simp add: size_add_def)

lemma size_mul_id: "a * b < SIZE_BOUND \<Longrightarrow> size_mul a b = a * b"
  by (simp add: size_mul_def)

text \<open>The idiom \<open>a + b < a\<close> of the source detects wrap-around exactly.\<close>

lemma size_add_overflow_iff:
  assumes "a < SIZE_BOUND" and "b < SIZE_BOUND"
  shows "size_add a b < a \<longleftrightarrow> SIZE_BOUND \<le> a + b"
proof (cases "a + b < SIZE_BOUND")
  case True
  then show ?thesis by (simp add: size_add_id)
next
  case False
  with assms have "size_add a b = a + b - SIZE_BOUND"
    by (simp add: size_add_def le_mod_geq)
  with False assms show ?thesis by simp
qed

section \<open>Lists\<close>

text \<open>\<open>memcpy\<close> of \<open>xs\<close> into a block at offset \<open>i\<close>; in range it keeps the block's length.\<close>

definition store_at :: "nat \<Rightarrow> 'a list \<Rightarrow> 'a list \<Rightarrow> 'a list" where
  "store_at i xs blk = take i blk @ xs @ drop (i + length xs) blk"

lemma length_store_at [simp]: "i + length xs \<le> length blk \<Longrightarrow> length (store_at i xs blk) = length blk"
  by (simp add: store_at_def)

lemma store_at_Nil [simp]: "store_at i [] blk = blk"
  by (simp add: store_at_def)

lemma take_store_at_before [simp]:
  "n \<le> i \<Longrightarrow> i \<le> length blk \<Longrightarrow> take n (store_at i xs blk) = take n blk"
  by (simp add: store_at_def)

lemma take_store_at_end [simp]:
  "i \<le> length blk \<Longrightarrow> take (i + length xs) (store_at i xs blk) = take i blk @ xs"
  by (simp add: store_at_def)

lemma take_store_at_end_eq:
  "i \<le> length blk \<Longrightarrow> n = i + length xs \<Longrightarrow> take n (store_at i xs blk) = take i blk @ xs"
  by simp

lemma drop_store_at_after [simp]:
  "i + length xs \<le> n \<Longrightarrow> i + length xs \<le> length blk \<Longrightarrow> drop n (store_at i xs blk) = drop n blk"
  by (simp add: store_at_def)

lemma store_at_Cons: "i < length blk \<Longrightarrow> i + Suc (length xs) \<le> length blk \<Longrightarrow>
  store_at i (x # xs) blk = store_at (Suc i) xs (blk[i := x])"
  by (simp add: store_at_def take_Suc_conv_app_nth nth_list_update drop_update_cancel
      take_update_cancel)

lemma store_at_single: "i < length blk \<Longrightarrow> store_at i [x] blk = blk[i := x]"
  by (simp add: store_at_def upd_conv_take_nth_drop)

lemma nth_store_at:
  assumes "i + length xs \<le> length blk"
  shows "store_at i xs blk ! k =
    (if k < i then blk ! k else if k < i + length xs then xs ! (k - i) else blk ! k)"
  using assms by (auto simp: store_at_def nth_append)

section \<open>Byte order\<close>

text \<open>The number a byte string denotes, most significant byte first, and its inverse at a width.\<close>

fun be_val :: "u8 list \<Rightarrow> nat" where
  "be_val [] = 0"
| "be_val (b # bs) = unat b * 256 ^ length bs + be_val bs"

fun be_bytes :: "nat \<Rightarrow> nat \<Rightarrow> u8 list" where
  "be_bytes 0 v = []"
| "be_bytes (Suc n) v = be_bytes n (v div 256) @ [word_of_nat v]"

lemma unat_u8_bound [simp]: "unat (b :: u8) < 256"
  using unsigned_less [of b] by simp

lemma unat_u64_bound: "unat (w :: u64) < 2 ^ 64"
  using unsigned_less [of w] by simp

lemma be_val_append [byte_order]: "be_val (xs @ ys) = be_val xs * 256 ^ length ys + be_val ys"
  by (induction xs) (simp_all add: power_add algebra_simps)

lemma be_val_bound: "be_val bs < 256 ^ length bs"
proof (induction bs)
  case Nil
  show ?case by simp
next
  case (Cons b bs)
  have "unat b \<le> 255" using unat_u8_bound [of b] by linarith
  then have "unat b * 256 ^ length bs \<le> 255 * 256 ^ length bs" by (rule mult_le_mono1)
  then have "unat b * 256 ^ length bs + be_val bs < 255 * 256 ^ length bs + 256 ^ length bs"
    using Cons by (rule add_le_less_mono)
  then show ?case by simp
qed

lemma length_be_bytes [simp]: "length (be_bytes n v) = n"
  by (induction n arbitrary: v) simp_all

lemma unat_word_of_nat_u8: "unat (word_of_nat v :: u8) = v mod 256"
  by (simp add: unat_of_nat)

lemma be_val_be_bytes [byte_order]: "be_val (be_bytes n v) = v mod 256 ^ n"
proof (induction n arbitrary: v)
  case 0
  show ?case by simp
next
  case (Suc n)
  have "be_val (be_bytes (Suc n) v) = (v div 256 mod 256 ^ n) * 256 + v mod 256"
    by (simp add: be_val_append Suc unat_word_of_nat_u8)
  also have "\<dots> = v mod 256 ^ Suc n"
    by (simp add: mod_mult2_eq algebra_simps)
  finally show ?case .
qed

lemma be_bytes_add: "be_bytes n (v + w * 256 ^ n) = be_bytes n v"
proof (induction n arbitrary: v w)
  case 0
  show ?case by simp
next
  case (Suc n)
  have "(v + w * 256 ^ Suc n) div 256 = v div 256 + w * 256 ^ n"
  proof -
    have "v + w * 256 ^ Suc n = v + (w * 256 ^ n) * 256" by simp
    then show ?thesis by (metis add.commute div_mult_self1 zero_neq_numeral)
  qed
  moreover have "(word_of_nat (v + w * 256 ^ Suc n) :: u8) = word_of_nat v"
    by (simp add: word_unat_eq_iff unat_word_of_nat_u8 mult.left_commute [of w] del: of_nat_add of_nat_mult)
  ultimately show ?case by (simp add: Suc del: power_Suc)
qed

lemma be_bytes_be_val [byte_order]: "be_bytes (length bs) (be_val bs) = bs"
proof (induction bs rule: rev_induct)
  case Nil
  show ?case by simp
next
  case (snoc b bs)
  have "(be_val bs * 256 + unat b) div 256 = be_val bs" by simp
  moreover have "(word_of_nat (be_val bs * 256 + unat b) :: u8) = b"
    by (metis mod_mult_self3 mod_less unat_u8_bound unat_word_of_nat_u8 word_unat_eq_iff)
  ultimately show ?case by (simp add: be_val_append snoc)
qed

lemma be_val_inj: "length xs = length ys \<Longrightarrow> be_val xs = be_val ys \<Longrightarrow> xs = ys"
  by (metis be_bytes_be_val)

lemma be_val_replicate_zero [simp]: "be_val (replicate n 0) = 0"
  by (induction n) simp_all

lemma be_val_zero_iff: "be_val bs = 0 \<longleftrightarrow> (\<forall>b \<in> set bs. b = 0)"
  by (induction bs) (auto simp: unat_eq_zero)

text \<open>Least significant byte first.\<close>

definition le_val :: "u8 list \<Rightarrow> nat" where
  "le_val bs = be_val (rev bs)"

lemma le_val_simps [simp]: "le_val [] = 0" "le_val (b # bs) = unat b + 256 * le_val bs"
  by (simp_all add: le_val_def be_val_append)

lemma be_bytes_Cons: "be_bytes (Suc k) n = word_of_nat (n div 256 ^ k) # be_bytes k n"
  by (induction k arbitrary: n) (simp_all add: div_mult2_eq)

lemma add_carry:
  fixes a b n :: nat
  assumes "a < n" and "b < n"
  shows "a + b = (if n \<le> a + b then 1 else 0) * n + (a + b) mod n" and "(a + b) mod n < a \<longleftrightarrow> n \<le> a + b"
  using assms by (cases "n \<le> a + b"; simp add: le_mod_geq)+

lemma xor_eq_zero_iff: "a XOR b = 0 \<longleftrightarrow> a = b" for a b :: "'a::len word"
  by (metis xor.assoc xor.left_neutral xor.right_neutral xor_self_eq)

text \<open>The accumulation \<open>v = (v << 8) | b\<close> at any machine width is the ring operation.\<close>

lemma shl_or_eq_add:
  fixes v w :: "'a::len word"
  assumes "unat w < 2 ^ n"
  shows "push_bit n v OR w = v * 2 ^ n + w"
proof -
  have "push_bit n v AND w = 0"
  proof (rule bit_eqI)
    fix k
    show "bit (push_bit n v AND w) k = bit 0 k"
    proof (cases "k < n")
      case True
      then show ?thesis by (simp add: bit_simps)
    next
      case False
      have "w = take_bit n w"
        using assms by (simp add: word_unat_eq_iff unsigned_take_bit_eq take_bit_nat_eq_self)
      then have "\<not> bit w k" using False by (metis bit_take_bit_iff)
      then show ?thesis by (simp add: bit_simps)
    qed
  qed
  then show ?thesis
    by (simp add: disjunctive_add_eq_or [symmetric] push_bit_eq_mult)
qed

lemma unat_ucast_u8:
  assumes "8 \<le> LENGTH('a::len)"
  shows "unat (ucast (b :: u8) :: 'a word) = unat b"
proof -
  have "unat b < 2 ^ 8" by simp
  also have "(2 :: nat) ^ 8 \<le> 2 ^ LENGTH('a)" using assms by (rule power_increasing) simp
  finally show ?thesis by (simp add: unsigned_ucast_eq take_bit_nat_eq_self_iff)
qed

lemma shl8_or_u8:
  assumes "8 \<le> LENGTH('a::len)"
  shows "push_bit 8 v OR (ucast (b :: u8) :: 'a word) = v * 256 + ucast b"
  by (subst shl_or_eq_add) (simp_all add: unat_ucast_u8 [OF assms])

lemma foldl_shl8:
  assumes "8 \<le> LENGTH('a::len)"
  shows "foldl (\<lambda>v b. push_bit 8 v OR ucast (b :: u8)) (v :: 'a word) bs =
    v * 256 ^ length bs + word_of_nat (be_val bs)"
  by (induction bs arbitrary: v)
    (simp_all add: shl8_or_u8 [OF assms] algebra_simps)

section \<open>Masks and shifts as arithmetic\<close>

lemma unat_and_mask: "unat (w AND mask n) = unat w mod 2 ^ n" for w :: "'a::len word"
proof -
  have "unat (w AND mask n) = take_bit n (unat w)"
    by (simp only: take_bit_eq_mask [symmetric] unsigned_take_bit_eq)
  then show ?thesis by (simp only: take_bit_eq_mod)
qed

lemma word_of_nat_unat: "word_of_nat (unat w) = w" for w :: "'a::len word"
  by simp

lemma unat_drop_bit: "unat (drop_bit n w) = unat w div 2 ^ n" for w :: "'a::len word"
  by (subst unat_drop_bit_eq) (rule drop_bit_eq_div)

lemma drop_bit_zero_iff: "drop_bit n w = 0 \<longleftrightarrow> unat w < 2 ^ n" for w :: "'a::len word"
  by (simp only: word_unat_eq_iff unat_drop_bit unat_0 div_eq_0_iff) simp

end
