(* ===== verification/Mem.thy ===== *)
theory Mem
  imports Prelude
begin

unbundle bit_operations_syntax

text \<open>
  \<open>crypto/mem.c\<close>: the size-prefixed allocator and the byte and string helpers.

  The C library's \<open>malloc\<close> is a parameter \<open>malloc :: nat \<Rightarrow> u8 list option\<close>: \<open>None\<close> is a null pointer and
  \<open>Some blk\<close> a fresh block with arbitrary contents; its documented contract is \<open>malloc_ok\<close>. A pointer
  that \<open>OPENSSL_malloc\<close> returned is represented by its whole block, the \<open>OPENSSL_MALLOC_PREFIX\<close> bytes
  before the pointer included; \<open>payload\<close> is the part the caller sees.

  C strings are byte lists that hold at least the bytes up to the terminator. A read past the end of
  the list is the result \<open>None\<close>.
\<close>

section \<open>The allocator\<close>

definition malloc_ok :: "(nat \<Rightarrow> u8 list option) \<Rightarrow> bool" where
  "malloc_ok malloc \<longleftrightarrow> (\<forall>n blk. malloc n = Some blk \<longrightarrow> length blk = n)"

definition OPENSSL_MALLOC_PREFIX :: nat where
  "OPENSSL_MALLOC_PREFIX = 8"

text \<open>The \<open>size_t\<close> store and load at the start of a block (little-endian, 8 bytes).\<close>

definition size_bytes :: "nat \<Rightarrow> u8 list" where
  "size_bytes n = rev (be_bytes 8 n)"

definition payload :: "u8 list \<Rightarrow> u8 list" where
  "payload blk = drop OPENSSL_MALLOC_PREFIX blk"

definition prefix_size :: "u8 list \<Rightarrow> nat" where
  "prefix_size blk = le_val (take OPENSSL_MALLOC_PREFIX blk)"

definition OPENSSL_malloc :: "(nat \<Rightarrow> u8 list option) \<Rightarrow> nat \<Rightarrow> u8 list option" where
  "OPENSSL_malloc malloc sz =
    (case malloc (size_add sz OPENSSL_MALLOC_PREFIX) of
       None \<Rightarrow> None
     | Some ptr \<Rightarrow> Some (store_at 0 (size_bytes sz) ptr))"

definition OPENSSL_cleanse :: "u8 list \<Rightarrow> nat \<Rightarrow> u8 list" where
  "OPENSSL_cleanse ptr len = store_at 0 (replicate len 0) ptr"

text \<open>The value is the contents of the block at the moment it is handed to \<open>free\<close>.\<close>

definition OPENSSL_free :: "u8 list option \<Rightarrow> u8 list option" where
  "OPENSSL_free orig_ptr =
    (case orig_ptr of
       None \<Rightarrow> None
     | Some ptr \<Rightarrow> Some (OPENSSL_cleanse ptr (size_add (prefix_size ptr) OPENSSL_MALLOC_PREFIX)))"

definition OPENSSL_realloc ::
    "(nat \<Rightarrow> u8 list option) \<Rightarrow> u8 list option \<Rightarrow> nat \<Rightarrow> u8 list option" where
  "OPENSSL_realloc malloc orig_ptr new_size =
    (case orig_ptr of
       None \<Rightarrow> OPENSSL_malloc malloc new_size
     | Some ptr \<Rightarrow>
        (case OPENSSL_malloc malloc new_size of
           None \<Rightarrow> None
         | Some ret \<Rightarrow>
            (let old_size = prefix_size ptr;
                 to_copy = (if old_size < new_size then old_size else new_size)
             in Some (store_at OPENSSL_MALLOC_PREFIX (take to_copy (payload ptr)) ret))))"

text \<open>A block as \<open>OPENSSL_malloc\<close> leaves it: the prefix records the size of the payload.\<close>

definition block_ok :: "u8 list \<Rightarrow> bool" where
  "block_ok blk \<longleftrightarrow> OPENSSL_MALLOC_PREFIX \<le> length blk \<and> prefix_size blk = length (payload blk)"

lemma length_size_bytes [simp]: "length (size_bytes n) = 8"
  by (simp add: size_bytes_def)

lemma le_val_size_bytes: "n < SIZE_BOUND \<Longrightarrow> le_val (size_bytes n) = n"
  by (simp add: size_bytes_def le_val_def be_val_be_bytes SIZE_BOUND_def)

lemma malloc_okD: "malloc_ok malloc \<Longrightarrow> malloc n = Some blk \<Longrightarrow> length blk = n"
  by (simp add: malloc_ok_def)

lemma OPENSSL_malloc_block:
  assumes "malloc_ok malloc" and "sz + OPENSSL_MALLOC_PREFIX < SIZE_BOUND"
    and "OPENSSL_malloc malloc sz = Some blk"
  shows "block_ok blk \<and> length (payload blk) = sz"
proof -
  from assms(2,3) obtain ptr where ptr: "malloc (sz + 8) = Some ptr"
    and blk: "blk = store_at 0 (size_bytes sz) ptr"
    by (auto simp: OPENSSL_malloc_def OPENSSL_MALLOC_PREFIX_def size_add_id split: option.splits)
  from assms(1) ptr have len: "length ptr = sz + 8" by (rule malloc_okD)
  have "take 8 blk = size_bytes sz"
    using len blk take_store_at_end [of 0 ptr "size_bytes sz"] by simp
  with assms(2) len blk show ?thesis
    by (simp add: block_ok_def prefix_size_def payload_def OPENSSL_MALLOC_PREFIX_def le_val_size_bytes)
qed

lemma OPENSSL_realloc_block:
  assumes "malloc_ok malloc" and "new_size + OPENSSL_MALLOC_PREFIX < SIZE_BOUND"
    and "block_ok old" and "OPENSSL_realloc malloc (Some old) new_size = Some blk"
  shows "block_ok blk" and "length (payload blk) = new_size"
    and "take (min (length (payload old)) new_size) (payload blk) =
         take (min (length (payload old)) new_size) (payload old)"
proof -
  let ?k = "min (length (payload old)) new_size"
  from assms(3,4) obtain ret where ret: "OPENSSL_malloc malloc new_size = Some ret"
    and blk: "blk = store_at 8 (take ?k (payload old)) ret"
    by (auto simp: OPENSSL_realloc_def OPENSSL_MALLOC_PREFIX_def block_ok_def Let_def min_def
        split: option.splits if_splits)
  from OPENSSL_malloc_block [OF assms(1,2) ret] have ok: "block_ok ret"
    and len: "length (payload ret) = new_size" by auto
  have fits: "8 + length (take ?k (payload old)) \<le> length ret"
    using len ok by (auto simp: payload_def block_ok_def OPENSSL_MALLOC_PREFIX_def)
  from fits have same: "length blk = length ret" "take 8 blk = take 8 ret"
    by (simp_all add: blk)
  show "block_ok blk" and "length (payload blk) = new_size"
    using ok len same by (auto simp: block_ok_def payload_def prefix_size_def OPENSSL_MALLOC_PREFIX_def)
  have "take ?k (payload blk) = drop 8 (take (8 + ?k) blk)"
    by (simp add: payload_def OPENSSL_MALLOC_PREFIX_def take_drop add.commute)
  also have "take (8 + ?k) blk = take 8 ret @ take ?k (payload old)"
    using fits by (simp add: blk take_store_at_end_eq)
  also have "drop 8 \<dots> = take ?k (payload old)"
    using fits by simp
  finally show "take ?k (payload blk) = take ?k (payload old)" .
qed

text \<open>What the other components see of a reallocation: the payload alone.\<close>

definition payload_realloc :: "(nat \<Rightarrow> u8 list option) \<Rightarrow> u8 list \<Rightarrow> nat \<Rightarrow> u8 list option" where
  "payload_realloc alloc old n =
    (case alloc n of
       None \<Rightarrow> None
     | Some blk \<Rightarrow> Some (store_at 0 (take (min (length old) n) old) blk))"

definition payload_malloc :: "(nat \<Rightarrow> u8 list option) \<Rightarrow> nat \<Rightarrow> u8 list option" where
  "payload_malloc malloc n = map_option payload (OPENSSL_malloc malloc n)"

lemma payload_store_at:
  "8 + length xs \<le> length blk \<Longrightarrow> payload (store_at 8 xs blk) = store_at 0 xs (payload blk)"
  by (simp add: payload_def OPENSSL_MALLOC_PREFIX_def store_at_def add.commute)

lemma OPENSSL_realloc_payload:
  assumes "malloc_ok malloc" and "new_size + OPENSSL_MALLOC_PREFIX < SIZE_BOUND" and "block_ok old"
  shows "map_option payload (OPENSSL_realloc malloc (Some old) new_size) =
    payload_realloc (payload_malloc malloc) (payload old) new_size"
proof (cases "OPENSSL_malloc malloc new_size")
  case None
  then show ?thesis
    by (simp add: OPENSSL_realloc_def payload_realloc_def payload_malloc_def)
next
  case (Some ret)
  from OPENSSL_malloc_block [OF assms(1,2) Some] have "length ret = new_size + 8"
    by (auto simp: block_ok_def payload_def OPENSSL_MALLOC_PREFIX_def)
  with Some assms(3) show ?thesis
    by (simp add: OPENSSL_realloc_def payload_realloc_def payload_malloc_def Let_def min_def
        block_ok_def OPENSSL_MALLOC_PREFIX_def payload_store_at)
qed

section \<open>Byte helpers\<close>

fun memcmp_loop :: "u8 \<Rightarrow> u8 list \<Rightarrow> u8 list \<Rightarrow> u8" where
  "memcmp_loop x (a # as) (b # bs) = memcmp_loop (x OR (a XOR b)) as bs"
| "memcmp_loop x _ _ = x"

text \<open>\<open>CRYPTO_memcmp\<close> on two blocks of the same length \<open>len\<close>.\<close>

definition CRYPTO_memcmp :: "u8 list \<Rightarrow> u8 list \<Rightarrow> u8" where
  "CRYPTO_memcmp in_a in_b = memcmp_loop 0 in_a in_b"

lemma memcmp_loop_zero_iff:
  "length as = length bs \<Longrightarrow> memcmp_loop x as bs = 0 \<longleftrightarrow> x = 0 \<and> as = bs"
  by (induction x as bs rule: memcmp_loop.induct) (auto simp: or_eq_0_iff xor_eq_zero_iff)

lemma CRYPTO_memcmp_zero_iff: "length as = length bs \<Longrightarrow> CRYPTO_memcmp as bs = 0 \<longleftrightarrow> as = bs"
  by (simp add: CRYPTO_memcmp_def memcmp_loop_zero_iff)

definition OPENSSL_hash32 :: "u8 list \<Rightarrow> u32" where
  "OPENSSL_hash32 bs = foldl (\<lambda>h b. (h XOR ucast b) * 16777619) 2166136261 bs"

fun OPENSSL_strnlen :: "u8 list \<Rightarrow> nat \<Rightarrow> nat option" where
  "OPENSSL_strnlen s 0 = Some 0"
| "OPENSSL_strnlen [] (Suc n) = None"
| "OPENSSL_strnlen (c # s) (Suc n) = (if c = 0 then Some 0 else map_option Suc (OPENSSL_strnlen s n))"

text \<open>The C library's \<open>strlen\<close>.\<close>

fun strlen :: "u8 list \<Rightarrow> nat option" where
  "strlen [] = None"
| "strlen (c # s) = (if c = 0 then Some 0 else map_option Suc (strlen s))"

definition OPENSSL_strdup :: "(nat \<Rightarrow> u8 list option) \<Rightarrow> u8 list \<Rightarrow> u8 list option option" where
  "OPENSSL_strdup alloc s =
    (case strlen s of
       None \<Rightarrow> None
     | Some n \<Rightarrow> Some (map_option (store_at 0 (take (n + 1) s)) (alloc (n + 1))))"

text \<open>\<open>char\<close> is signed, so a byte is read as \<open>sint\<close>.\<close>

definition OPENSSL_tolower :: "int \<Rightarrow> int" where
  "OPENSSL_tolower c = (if 65 \<le> c \<and> c \<le> 90 then c + (97 - 65) else c)"

fun OPENSSL_strcasecmp :: "u8 list \<Rightarrow> u8 list \<Rightarrow> int option" where
  "OPENSSL_strcasecmp (a # as) (b # bs) =
    (let aa = OPENSSL_tolower (sint a); bb = OPENSSL_tolower (sint b)
     in if aa < bb then Some (-1)
        else if aa > bb then Some 1
        else if aa = 0 then Some 0
        else OPENSSL_strcasecmp as bs)"
| "OPENSSL_strcasecmp _ _ = None"

fun OPENSSL_strncasecmp :: "u8 list \<Rightarrow> u8 list \<Rightarrow> nat \<Rightarrow> int option" where
  "OPENSSL_strncasecmp as bs 0 = Some 0"
| "OPENSSL_strncasecmp (a # as) (b # bs) (Suc n) =
    (let aa = OPENSSL_tolower (sint a); bb = OPENSSL_tolower (sint b)
     in if aa < bb then Some (-1)
        else if aa > bb then Some 1
        else if aa = 0 then Some 0
        else OPENSSL_strncasecmp as bs n)"
| "OPENSSL_strncasecmp _ _ (Suc n) = None"

lemma strlen_Some_iff: "strlen s = Some n \<longleftrightarrow> n < length s \<and> s ! n = 0 \<and> (\<forall>i < n. s ! i \<noteq> 0)"
proof (induction s arbitrary: n)
  case Nil
  show ?case by simp
next
  case (Cons c s)
  show ?case
  proof (cases n)
    case 0
    then show ?thesis by simp
  next
    case (Suc m)
    then show ?thesis using Cons.IH [of m] by (auto simp: All_less_Suc2)
  qed
qed

section \<open>Properties\<close>

text \<open>
  \<open>OPENSSL_realloc\<close> of a block that \<open>OPENSSL_malloc\<close> made returns either a null
  pointer or a block of the new size, well formed again, whose payload begins with as much of the old payload
  as fits.
\<close>

theorem realloc_keeps_payload:
  assumes "malloc_ok malloc" and "new_size + OPENSSL_MALLOC_PREFIX < SIZE_BOUND" and "block_ok old"
  shows "case OPENSSL_realloc malloc (Some old) new_size of
      None \<Rightarrow> malloc (new_size + OPENSSL_MALLOC_PREFIX) = None
    | Some blk \<Rightarrow> block_ok blk \<and> length (payload blk) = new_size \<and>
        take (min (length (payload old)) new_size) (payload blk) = take (min (length (payload old)) new_size) (payload old)"
proof (cases "OPENSSL_realloc malloc (Some old) new_size")
  case None
  then show ?thesis using assms(2)
    by (auto simp: OPENSSL_realloc_def OPENSSL_malloc_def size_add_id Let_def split: option.splits)
next
  case (Some blk)
  then show ?thesis using OPENSSL_realloc_block [OF assms Some] by simp
qed

theorem realloc_keeps_payload_witness:
  "\<exists>blk. OPENSSL_realloc (\<lambda>n. Some (replicate n 7)) (Some [2, 0, 0, 0, 0, 0, 0, 0, 65, 66]) 3 = Some blk \<and> take 2 (payload blk) = [65, 66]"
proof -
  let ?m = "\<lambda>n. Some (replicate n 7) :: u8 list option" and ?old = "[2, 0, 0, 0, 0, 0, 0, 0, 65, 66] :: u8 list"
  have m: "malloc_ok ?m" by (simp add: malloc_ok_def)
  have s: "3 + OPENSSL_MALLOC_PREFIX < SIZE_BOUND" by (simp add: OPENSSL_MALLOC_PREFIX_def SIZE_BOUND_def)
  have p: "payload ?old = [65, 66]" by (simp add: payload_def OPENSSL_MALLOC_PREFIX_def)
  have o: "block_ok ?old" by (simp add: block_ok_def prefix_size_def p OPENSSL_MALLOC_PREFIX_def)
  show ?thesis using realloc_keeps_payload [OF m s o]
    by (cases "OPENSSL_realloc ?m (Some ?old) 3") (simp_all add: p numeral_2_eq_2)
qed

text \<open>
  \<open>CRYPTO_memcmp\<close>, which looks at every byte whatever it finds, returns 0 exactly when the two
  blocks are equal.
\<close>

theorem memcmp_is_equality:
  assumes "length in_a = length in_b"
  shows "CRYPTO_memcmp in_a in_b = 0 \<longleftrightarrow> in_a = in_b"
  using assms by (rule CRYPTO_memcmp_zero_iff)

theorem memcmp_is_equality_witness: "CRYPTO_memcmp [1, 2, 3] [1, 2, 4] \<noteq> 0 \<and> CRYPTO_memcmp [1, 2] [1, 2] = 0"
  using memcmp_is_equality [of "[1, 2, 3]" "[1, 2, 4]"] memcmp_is_equality [of "[1, 2]" "[1, 2]"] by simp

text \<open>
  C39: \<open>OPENSSL_malloc\<close> adds the prefix to the size without a check. A request for one of the
  eight largest sizes asks \<open>malloc\<close> for fewer than eight bytes, and when it gets them the size is stored past their end.
\<close>

theorem malloc_size_wraps:
  assumes "malloc_ok malloc" and "sz < SIZE_BOUND" and "SIZE_BOUND \<le> sz + OPENSSL_MALLOC_PREFIX"
    and "malloc (sz + OPENSSL_MALLOC_PREFIX - SIZE_BOUND) = Some ptr"
  shows "OPENSSL_malloc malloc sz = Some (store_at 0 (size_bytes sz) ptr) \<and> length ptr < length (size_bytes sz)"
proof -
  have "(sz + OPENSSL_MALLOC_PREFIX) mod SIZE_BOUND = sz + OPENSSL_MALLOC_PREFIX - SIZE_BOUND"
    using assms(2,3) by (simp add: le_mod_geq OPENSSL_MALLOC_PREFIX_def SIZE_BOUND_def)
  moreover have "length ptr < 8" using malloc_okD [OF assms(1,4)] assms(2) by (simp add: OPENSSL_MALLOC_PREFIX_def)
  ultimately show ?thesis using assms(4) by (simp add: OPENSSL_malloc_def size_add_def)
qed

theorem malloc_size_wraps_witness:
  "OPENSSL_malloc (\<lambda>n. Some (replicate n 0)) (2 ^ 64 - 4) = Some (store_at 0 (size_bytes (2 ^ 64 - 4)) (replicate 4 0))"
  using malloc_size_wraps [of "\<lambda>n. Some (replicate n 0)" "2 ^ 64 - 4" "replicate 4 0"]
  by (simp add: malloc_ok_def SIZE_BOUND_def OPENSSL_MALLOC_PREFIX_def)

end
