(* ===== verification/Buf.thy ===== *)
theory Buf
  imports Mem
begin

text \<open>
  \<open>crypto/buf/buf.c\<close>: the growable buffer \<open>BUF_MEM\<close> and the bounded string copies.

  The parameter \<open>alloc\<close> is \<open>OPENSSL_malloc\<close> as its callers see it (a payload of the requested size, or
  a null pointer); theory \<open>Mem\<close> relates it to the block level. A null \<open>data\<close> pointer is the empty list.
\<close>

record BUF_MEM =
  bm_length :: nat
  bm_data :: "u8 list"
  bm_max :: nat

definition BUF_MEM_new :: BUF_MEM where
  "BUF_MEM_new = \<lparr>bm_length = 0, bm_data = [], bm_max = 0\<rparr>"

definition BUF_MEM_reserve ::
    "(nat \<Rightarrow> u8 list option) \<Rightarrow> BUF_MEM \<Rightarrow> nat \<Rightarrow> bool \<times> BUF_MEM" where
  "BUF_MEM_reserve alloc b cap =
    (if cap \<le> bm_max b then (True, b)
     else let n = size_add cap 3
     in if n < cap then (False, b)
     else let m = n div 3; alloc_size = size_mul m 4
     in if alloc_size div 4 \<noteq> m then (False, b)
     else (case payload_realloc alloc (bm_data b) alloc_size of
             None \<Rightarrow> (False, b)
           | Some new_buf \<Rightarrow> (True, b\<lparr>bm_data := new_buf, bm_max := alloc_size\<rparr>)))"

definition BUF_MEM_grow ::
    "(nat \<Rightarrow> u8 list option) \<Rightarrow> BUF_MEM \<Rightarrow> nat \<Rightarrow> nat \<times> BUF_MEM" where
  "BUF_MEM_grow alloc b len =
    (case BUF_MEM_reserve alloc b len of
       (False, b') \<Rightarrow> (0, b')
     | (True, b') \<Rightarrow>
        (let b'' = (if bm_length b' < len
                    then b'\<lparr>bm_data := store_at (bm_length b') (replicate (len - bm_length b') 0) (bm_data b')\<rparr>
                    else b')
         in (len, b''\<lparr>bm_length := len\<rparr>)))"

definition BUF_MEM_append ::
    "(nat \<Rightarrow> u8 list option) \<Rightarrow> BUF_MEM \<Rightarrow> u8 list \<Rightarrow> bool \<times> BUF_MEM" where
  "BUF_MEM_append alloc b xs =
    (let new_len = size_add (bm_length b) (length xs)
     in if new_len < length xs then (False, b)
     else (case BUF_MEM_reserve alloc b new_len of
             (False, b') \<Rightarrow> (False, b')
           | (True, b') \<Rightarrow>
              (True, b'\<lparr>bm_data := store_at (bm_length b') xs (bm_data b'), bm_length := new_len\<rparr>)))"

definition BUF_MEM_ok :: "BUF_MEM \<Rightarrow> bool" where
  "BUF_MEM_ok b \<longleftrightarrow> bm_length b \<le> bm_max b \<and> length (bm_data b) = bm_max b \<and> bm_max b < SIZE_BOUND"

definition BUF_MEM_contents :: "BUF_MEM \<Rightarrow> u8 list" where
  "BUF_MEM_contents b = take (bm_length b) (bm_data b)"

definition BUF_strnlen :: "u8 list \<Rightarrow> nat \<Rightarrow> nat option" where
  "BUF_strnlen s max_len = OPENSSL_strnlen s max_len"

text \<open>The outer \<open>option\<close> is \<open>None\<close> when the string is read out of bounds, the inner one is the pointer.\<close>

definition BUF_strndup :: "(nat \<Rightarrow> u8 list option) \<Rightarrow> u8 list \<Rightarrow> nat \<Rightarrow> u8 list option option" where
  "BUF_strndup alloc s sz =
    (case BUF_strnlen s sz of
       None \<Rightarrow> None
     | Some n \<Rightarrow>
        (let alloc_size = size_add n 1
         in if alloc_size < n then Some None
         else Some (map_option (\<lambda>ret. (store_at 0 (take n s) ret)[n := 0]) (alloc alloc_size))))"

definition BUF_strdup :: "(nat \<Rightarrow> u8 list option) \<Rightarrow> u8 list \<Rightarrow> u8 list option option" where
  "BUF_strdup alloc s = (case strlen s of None \<Rightarrow> None | Some n \<Rightarrow> BUF_strndup alloc s n)"

fun BUF_strlcpy :: "u8 list \<Rightarrow> u8 list \<Rightarrow> nat \<Rightarrow> (u8 list \<times> nat) option" where
  "BUF_strlcpy dst [] dst_size = None"
| "BUF_strlcpy dst (c # src) dst_size =
    (if 1 < dst_size \<and> c \<noteq> 0
     then (case dst of
             [] \<Rightarrow> None
           | _ # dst' \<Rightarrow> map_option (\<lambda>(d, l). (c # d, l + 1)) (BUF_strlcpy dst' src (dst_size - 1)))
     else if dst_size \<noteq> 0
     then (case dst of
             [] \<Rightarrow> None
           | _ # dst' \<Rightarrow> map_option (\<lambda>l. (0 # dst', l)) (strlen (c # src)))
     else map_option (\<lambda>l. (dst, l)) (strlen (c # src)))"

fun BUF_strlcat :: "u8 list \<Rightarrow> u8 list \<Rightarrow> nat \<Rightarrow> (u8 list \<times> nat) option" where
  "BUF_strlcat dst src 0 = BUF_strlcpy dst src 0"
| "BUF_strlcat [] src (Suc n) = None"
| "BUF_strlcat (c # dst) src (Suc n) =
    (if c \<noteq> 0 then map_option (\<lambda>(d, l). (c # d, l + 1)) (BUF_strlcat dst src n)
     else BUF_strlcpy (c # dst) src (Suc n))"

definition BUF_memdup :: "(nat \<Rightarrow> u8 list option) \<Rightarrow> u8 list \<Rightarrow> u8 list option" where
  "BUF_memdup alloc data =
    (if length data = 0 then None else map_option (store_at 0 data) (alloc (length data)))"

section \<open>The growable buffer\<close>

lemma payload_realloc_Some:
  assumes "malloc_ok alloc" and "payload_realloc alloc old n = Some blk"
  shows "length blk = n" and "k \<le> length old \<Longrightarrow> k \<le> n \<Longrightarrow> take k blk = take k old"
proof -
  from assms(2) obtain new where new: "alloc n = Some new"
    and blk: "blk = store_at 0 (take (min (length old) n) old) new"
    by (auto simp: payload_realloc_def split: option.splits)
  from assms(1) new have len: "length new = n" by (rule malloc_okD)
  with blk show "length blk = n" by simp
  show "take k blk = take k old" if "k \<le> length old" "k \<le> n"
    using that blk by (simp add: store_at_def min_def)
qed

lemma BUF_MEM_reserve_ok:
  assumes "malloc_ok alloc" and "BUF_MEM_ok b" and "BUF_MEM_reserve alloc b cap = (True, b')"
    and "cap < SIZE_BOUND"
  shows "BUF_MEM_ok b'" and "cap \<le> bm_max b'" and "bm_length b' = bm_length b"
    and "BUF_MEM_contents b' = BUF_MEM_contents b"
proof -
  have "BUF_MEM_ok b' \<and> cap \<le> bm_max b' \<and> bm_length b' = bm_length b \<and>
    BUF_MEM_contents b' = BUF_MEM_contents b"
  proof (cases "cap \<le> bm_max b")
    case True
    with assms show ?thesis by (simp add: BUF_MEM_reserve_def)
  next
    case False
    let ?n = "size_add cap 3"
    let ?a = "size_mul (?n div 3) 4"
    from False assms(3) obtain new_buf where no_wrap: "\<not> ?n < cap" "?a div 4 = ?n div 3"
      and new: "payload_realloc alloc (bm_data b) ?a = Some new_buf"
      and b': "b' = b\<lparr>bm_data := new_buf, bm_max := ?a\<rparr>"
      by (auto simp: BUF_MEM_reserve_def Let_def split: if_splits option.splits)
    have "?n = cap + 3"
      using no_wrap(1) assms(4) size_add_overflow_iff [of cap 3] size_add_id [of cap 3]
      by (auto simp: SIZE_BOUND_def)
    with no_wrap(2) have "cap \<le> ?a" by linarith
    moreover have "?a < SIZE_BOUND" by (simp add: size_mul_def SIZE_BOUND_def)
    moreover have "bm_length b \<le> ?a" using \<open>cap \<le> ?a\<close> False assms(2) by (simp add: BUF_MEM_ok_def)
    ultimately show ?thesis
      using b' assms(2) payload_realloc_Some [OF assms(1) new]
      by (simp add: BUF_MEM_ok_def BUF_MEM_contents_def)
  qed
  then show "BUF_MEM_ok b'" "cap \<le> bm_max b'" "bm_length b' = bm_length b"
    "BUF_MEM_contents b' = BUF_MEM_contents b" by simp_all
qed

lemma BUF_MEM_reserve_fail: "BUF_MEM_reserve alloc b cap = (False, b') \<Longrightarrow> b' = b"
  by (auto simp: BUF_MEM_reserve_def Let_def split: if_splits option.splits)

lemma BUF_MEM_append_spec:
  assumes "malloc_ok alloc" and "BUF_MEM_ok b" and "length xs < SIZE_BOUND"
    and "BUF_MEM_append alloc b xs = (ok, b')"
  shows "if ok then BUF_MEM_ok b' \<and> BUF_MEM_contents b' = BUF_MEM_contents b @ xs else b' = b"
proof (cases "size_add (bm_length b) (length xs) < length xs")
  case True
  with assms(4) show ?thesis by (auto simp: BUF_MEM_append_def)
next
  case False
  let ?n = "size_add (bm_length b) (length xs)"
  have n: "?n = bm_length b + length xs" "?n < SIZE_BOUND"
    using False assms(2,3) size_add_overflow_iff [of "length xs" "bm_length b"]
    by (auto simp: size_add_def add.commute BUF_MEM_ok_def)
  obtain ok1 b1 where r: "BUF_MEM_reserve alloc b ?n = (ok1, b1)" by fastforce
  show ?thesis
  proof (cases ok1)
    case True
    with r have r': "BUF_MEM_reserve alloc b ?n = (True, b1)" by simp
    note res = BUF_MEM_reserve_ok [OF assms(1,2) r' n(2)]
    have "b' = b1\<lparr>bm_data := store_at (bm_length b1) xs (bm_data b1), bm_length := ?n\<rparr>" "ok"
      using assms(4) r True False by (auto simp: BUF_MEM_append_def Let_def)
    moreover have "bm_length b1 + length xs \<le> length (bm_data b1)"
      using res n by (simp add: BUF_MEM_ok_def)
    ultimately show ?thesis
      using res n by (simp add: BUF_MEM_ok_def BUF_MEM_contents_def take_store_at_end_eq)
  next
    case F: False
    with r have "BUF_MEM_reserve alloc b ?n = (False, b1)" by simp
    from BUF_MEM_reserve_fail [OF this] this show ?thesis
      using assms(4) False by (auto simp: BUF_MEM_append_def Let_def)
  qed
qed

lemma BUF_MEM_grow_spec:
  assumes "malloc_ok alloc" and "BUF_MEM_ok b" and "len < SIZE_BOUND"
    and "BUF_MEM_reserve alloc b len = (True, b1)" and "BUF_MEM_grow alloc b len = (r, b')"
  shows "r = len \<and> BUF_MEM_ok b' \<and>
    BUF_MEM_contents b' = take len (BUF_MEM_contents b @ replicate (len - bm_length b) 0)"
proof -
  note res = BUF_MEM_reserve_ok [OF assms(1,2,4,3)]
  have "take len (take (bm_length b) (bm_data b1)) = take len (bm_data b1)" if "len \<le> bm_length b"
    using that by (simp add: min_def)
  moreover have "take (bm_length b) (bm_data b) = take (bm_length b) (bm_data b1)"
    using res by (simp add: BUF_MEM_contents_def)
  ultimately show ?thesis
    using assms(4,5) res
    by (auto simp: BUF_MEM_grow_def BUF_MEM_ok_def BUF_MEM_contents_def Let_def take_store_at_end_eq
        split: if_splits)
qed

section \<open>Bounded string copies\<close>

lemma BUF_strlcpy_spec:
  assumes "strlen src = Some n" and "0 < dst_size" and "dst_size \<le> length dst"
  shows "BUF_strlcpy dst src dst_size =
    Some (store_at 0 (take (min n (dst_size - 1)) src @ [0]) dst, n)"
  using assms
proof (induction dst src dst_size arbitrary: n rule: BUF_strlcpy.induct)
  case (1 dst dst_size)
  then show ?case by simp
next
  case (2 dst c src dst_size)
  then obtain d dst' where dst: "dst = d # dst'" by (cases dst) auto
  show ?case
  proof (cases "1 < dst_size \<and> c \<noteq> 0")
    case True
    then obtain m where m: "strlen src = Some m" "n = Suc m"
      using "2.prems"(1) by auto
    have "BUF_strlcpy dst' src (dst_size - 1) =
      Some (store_at 0 (take (min m (dst_size - 1 - 1)) src @ [0]) dst', m)"
      using True dst m "2.prems" by (intro "2.IH") auto
    moreover have "min n (dst_size - 1) = Suc (min m (dst_size - 1 - 1))"
      using True m by (auto simp: min_def)
    ultimately show ?thesis using True dst m by (simp add: store_at_def)
  next
    case False
    with "2.prems" have "min n (dst_size - 1) = 0" by auto
    with False "2.prems" dst show ?thesis by (auto simp: store_at_def)
  qed
qed

lemma BUF_strlcat_spec:
  assumes "strlen dst = Some k" and "k < dst_size" and "dst_size \<le> length dst" and "strlen src = Some n"
  shows "BUF_strlcat dst src dst_size =
    Some (store_at k (take (min n (dst_size - k - 1)) src @ [0]) dst, k + n)"
  using assms
proof (induction dst src dst_size arbitrary: k rule: BUF_strlcat.induct)
  case (3 c dst src m)
  show ?case
  proof (cases "c = 0")
    case True
    with "3.prems" show ?thesis
      by (simp add: BUF_strlcpy_spec del: BUF_strlcpy.simps)
  next
    case False
    then obtain j where j: "strlen dst = Some j" "k = Suc j"
      using "3.prems"(1) by auto
    with "3.prems" False have "BUF_strlcat dst src m =
      Some (store_at j (take (min n (m - j - 1)) src @ [0]) dst, j + n)"
      by (intro "3.IH") auto
    with False j show ?thesis by (simp add: store_at_def)
  qed
qed simp_all

lemma BUF_memdup_spec:
  "malloc_ok alloc \<Longrightarrow> BUF_memdup alloc data = Some p \<Longrightarrow> p = data \<and> data \<noteq> []"
  by (auto simp: BUF_memdup_def store_at_def dest: malloc_okD split: if_splits)

lemma OPENSSL_strnlen_spec:
  "n \<le> length s \<Longrightarrow> OPENSSL_strnlen s n = Some (length (takeWhile (\<lambda>c. c \<noteq> 0) (take n s)))"
  by (induction s n rule: OPENSSL_strnlen.induct) simp_all

lemma BUF_strndup_spec:
  assumes "malloc_ok alloc" and "sz \<le> length s" and "sz < SIZE_MAX"
    and "BUF_strndup alloc s sz = Some (Some p)"
  shows "p = takeWhile (\<lambda>c. c \<noteq> 0) (take sz s) @ [0]"
proof -
  let ?w = "takeWhile (\<lambda>c. c \<noteq> 0) (take sz s)"
  have len: "length ?w \<le> sz" using length_takeWhile_le [of _ "take sz s"] by simp
  have "?w = take (length ?w) (take sz s)" by (rule takeWhile_eq_take)
  with len have pre: "take (length ?w) s = ?w" by (simp add: min_def)
  then have add: "size_add (length ?w) 1 = length ?w + 1"
    using assms(3) len by (simp add: size_add_def SIZE_BOUND_def SIZE_MAX_def)
  with assms(2,4) obtain ret where ret: "alloc (length ?w + 1) = Some ret"
    and p: "p = (store_at 0 ?w ret)[length ?w := 0]"
    by (auto simp: BUF_strndup_def BUF_strnlen_def OPENSSL_strnlen_spec Let_def pre)
  from assms(1) ret have "length ret = length ?w + 1" by (rule malloc_okD)
  then have "length (drop (length ?w) ret) = Suc 0" by simp
  then obtain x where "drop (length ?w) ret = [x]" unfolding length_Suc_conv by blast
  with p show ?thesis by (simp add: store_at_def list_update_append)
qed

section \<open>Properties\<close>

text \<open>
  C31: \<open>BUF_MEM_append\<close> keeps the invariant of the buffer (length within capacity, capacity the
  size of the allocation) and appends to the contents; when the sizes overflow or the allocation fails it
  changes nothing.
\<close>

theorem append_refines_list:
  assumes "malloc_ok alloc" and "BUF_MEM_ok b" and "length xs < SIZE_BOUND" and "BUF_MEM_append alloc b xs = (ok, b')"
  shows "if ok then BUF_MEM_ok b' \<and> BUF_MEM_contents b' = BUF_MEM_contents b @ xs else b' = b"
  using assms by (rule BUF_MEM_append_spec)

theorem append_refines_list_witness:
  "BUF_MEM_contents (snd (BUF_MEM_append (\<lambda>n. Some (map (\<lambda>_. 9) [0..<n])) BUF_MEM_new [1, 2])) = [1, 2]"
proof -
  let ?a = "\<lambda>n. Some (map (\<lambda>_. 9) [0..<n]) :: u8 list option"
  have r: "BUF_MEM_append ?a BUF_MEM_new [1, 2] = (True, \<lparr>bm_length = 2, bm_data = [1, 2, 9, 9], bm_max = 4\<rparr>)"
    by (simp add: BUF_MEM_append_def BUF_MEM_reserve_def BUF_MEM_new_def size_add_def size_mul_def SIZE_BOUND_def
        payload_realloc_def store_at_def Let_def upt_rec)
  show ?thesis unfolding r using append_refines_list [OF _ _ _ r]
    by (simp add: malloc_ok_def BUF_MEM_ok_def BUF_MEM_new_def BUF_MEM_contents_def SIZE_BOUND_def)
qed

text \<open>
  \<open>BUF_strlcat\<close> writes as much of the source as fits after the string in \<open>dst\<close>, always
  terminates it within \<open>dst_size\<close>, leaves the rest of \<open>dst\<close> alone, and returns the length it tried to create.
\<close>

theorem strlcat_truncates:
  assumes "strlen dst = Some k" and "k < dst_size" and "dst_size \<le> length dst" and "strlen src = Some n"
  shows "BUF_strlcat dst src dst_size = Some (store_at k (take (min n (dst_size - k - 1)) src @ [0]) dst, k + n)"
  using assms by (rule BUF_strlcat_spec)

theorem strlcat_truncates_witness: "BUF_strlcat [65, 0, 7, 7, 7] [66, 67, 68, 0] 4 = Some ([65, 66, 67, 0, 7], 4)"
  using strlcat_truncates [of "[65, 0, 7, 7, 7]" 1 4 "[66, 67, 68, 0]" 3] by (simp add: store_at_def)

end
