(* ===== verification/Bytestring_CBS.thy ===== *)
theory Bytestring_CBS
  imports Buf
begin

unbundle bit_operations_syntax

text \<open>
  \<open>crypto/bytestring/cbs.c\<close>: the parser \<open>CBS\<close> ("crypto byte string").

  A \<open>CBS\<close> is a pointer and a length; it is represented by the \<open>len\<close> bytes at \<open>data\<close>. An operation that
  returns 0 or 1 and updates the \<open>CBS\<close> is a function \<open>CBS \<Rightarrow> 'a option \<times> CBS\<close>: \<open>None\<close> is the return
  value 0, \<open>Some\<close> of the out-parameters the return value 1, and the second component is the \<open>CBS\<close> the
  call leaves behind, on failure too (several operations consume input before they fail).
  Out-parameters are read by callers only after success, so their value after a failure is not kept.
\<close>

type_synonym CBS = "u8 list"
type_synonym 'a cbs_op = "CBS \<Rightarrow> 'a option \<times> CBS"

named_theorems cbs_defs \<open>definitions of the CBS operations\<close>

section \<open>Basic operations\<close>

definition CBS_init :: "u8 list \<Rightarrow> nat \<Rightarrow> CBS" where
  "CBS_init data len = take len data"

definition cbs_get :: "nat \<Rightarrow> u8 list cbs_op" where
  "cbs_get n cbs = (if length cbs < n then (None, cbs) else (Some (take n cbs), drop n cbs))"

definition CBS_skip :: "nat \<Rightarrow> unit cbs_op" where
  "CBS_skip len cbs = (case cbs_get len cbs of (None, c) \<Rightarrow> (None, c) | (Some _, c) \<Rightarrow> (Some (), c))"

definition CBS_len :: "CBS \<Rightarrow> nat" where
  "CBS_len cbs = length cbs"

definition CBS_data :: "CBS \<Rightarrow> u8 list" where
  "CBS_data cbs = cbs"

text \<open>\<open>CBS_stow\<close>: the copy (\<open>None\<close> is a null \<open>*out_ptr\<close>), or the return value 0.\<close>

definition CBS_stow :: "(nat \<Rightarrow> u8 list option) \<Rightarrow> CBS \<Rightarrow> (u8 list option \<times> nat) option" where
  "CBS_stow alloc cbs =
    (if CBS_len cbs = 0 then Some (None, 0)
     else (case BUF_memdup alloc (CBS_data cbs) of
             None \<Rightarrow> None
           | Some p \<Rightarrow> Some (Some p, CBS_len cbs)))"

definition CBS_strdup :: "(nat \<Rightarrow> u8 list option) \<Rightarrow> CBS \<Rightarrow> u8 list option option" where
  "CBS_strdup alloc cbs = BUF_strndup alloc (CBS_data cbs) (CBS_len cbs)"

definition CBS_contains_zero_byte :: "CBS \<Rightarrow> bool" where
  "CBS_contains_zero_byte cbs = List.member (CBS_data cbs) 0"

definition CBS_mem_equal :: "CBS \<Rightarrow> u8 list \<Rightarrow> bool" where
  "CBS_mem_equal cbs data =
    (if length data \<noteq> CBS_len cbs then False else CRYPTO_memcmp (CBS_data cbs) data = 0)"

definition cbs_get_u :: "nat \<Rightarrow> u32 cbs_op" where
  "cbs_get_u len cbs =
    (case cbs_get len cbs of
       (None, c) \<Rightarrow> (None, c)
     | (Some data, c) \<Rightarrow> (Some (foldl (\<lambda>result b. push_bit 8 result OR ucast b) 0 data), c))"

definition CBS_get_u8 :: "u8 cbs_op" where
  "CBS_get_u8 cbs =
    (case cbs_get 1 cbs of (None, c) \<Rightarrow> (None, c) | (Some v, c) \<Rightarrow> (Some (v ! 0), c))"

definition CBS_get_u16 :: "u16 cbs_op" where
  "CBS_get_u16 cbs =
    (case cbs_get_u 2 cbs of (None, c) \<Rightarrow> (None, c) | (Some v, c) \<Rightarrow> (Some (ucast v), c))"

definition CBS_get_u24 :: "u32 cbs_op" where
  "CBS_get_u24 cbs = cbs_get_u 3 cbs"

definition CBS_get_u32 :: "u32 cbs_op" where
  "CBS_get_u32 cbs = cbs_get_u 4 cbs"

definition CBS_get_last_u8 :: "u8 cbs_op" where
  "CBS_get_last_u8 cbs =
    (if CBS_len cbs = 0 then (None, cbs)
     else (Some (CBS_data cbs ! (CBS_len cbs - 1)), take (CBS_len cbs - 1) cbs))"

definition CBS_get_bytes :: "nat \<Rightarrow> CBS cbs_op" where
  "CBS_get_bytes len cbs =
    (case cbs_get len cbs of (None, c) \<Rightarrow> (None, c) | (Some v, c) \<Rightarrow> (Some (CBS_init v len), c))"

text \<open>\<open>CBS_copy_bytes\<close> stores the bytes at the start of the caller's buffer \<open>out\<close>.\<close>

definition CBS_copy_bytes :: "u8 list \<Rightarrow> nat \<Rightarrow> u8 list cbs_op" where
  "CBS_copy_bytes out len cbs =
    (case cbs_get len cbs of (None, c) \<Rightarrow> (None, c) | (Some v, c) \<Rightarrow> (Some (store_at 0 v out), c))"

definition cbs_get_length_prefixed :: "nat \<Rightarrow> CBS cbs_op" where
  "cbs_get_length_prefixed len_len cbs =
    (case cbs_get_u len_len cbs of
       (None, c) \<Rightarrow> (None, c)
     | (Some len, c) \<Rightarrow> CBS_get_bytes (unat len) c)"

definition CBS_get_u8_length_prefixed :: "CBS cbs_op" where
  "CBS_get_u8_length_prefixed cbs = cbs_get_length_prefixed 1 cbs"

definition CBS_get_u16_length_prefixed :: "CBS cbs_op" where
  "CBS_get_u16_length_prefixed cbs = cbs_get_length_prefixed 2 cbs"

definition CBS_get_u24_length_prefixed :: "CBS cbs_op" where
  "CBS_get_u24_length_prefixed cbs = cbs_get_length_prefixed 3 cbs"

section \<open>ASN.1\<close>

definition CBS_ASN1_BOOLEAN :: u32 where "CBS_ASN1_BOOLEAN = 0x1"
definition CBS_ASN1_INTEGER :: u32 where "CBS_ASN1_INTEGER = 0x2"
definition CBS_ASN1_OCTETSTRING :: u32 where "CBS_ASN1_OCTETSTRING = 0x4"
definition CBS_ASN1_TAG_SHIFT :: nat where "CBS_ASN1_TAG_SHIFT = 24"
definition CBS_ASN1_CONSTRUCTED :: u32 where "CBS_ASN1_CONSTRUCTED = push_bit CBS_ASN1_TAG_SHIFT 0x20"
definition CBS_ASN1_TAG_NUMBER_MASK :: u32 where
  "CBS_ASN1_TAG_NUMBER_MASK = push_bit (5 + CBS_ASN1_TAG_SHIFT) 1 - 1"

text \<open>
  The \<open>do ... while (b & 0x80)\<close> loop of \<open>parse_base128_integer\<close>; \<open>CBS_get_u8\<close> is the match on the list.
\<close>

fun parse_base128_loop :: "u64 \<Rightarrow> u64 cbs_op" where
  "parse_base128_loop v [] = (None, [])"
| "parse_base128_loop v (b # cbs) =
    (if drop_bit (64 - 7) v \<noteq> 0 then (None, cbs)
     else if v = 0 \<and> b = 0x80 then (None, cbs)
     else let v' = push_bit 7 v OR ucast (b AND 0x7f)
          in if b AND 0x80 \<noteq> 0 then parse_base128_loop v' cbs else (Some v', cbs))"

definition parse_base128_integer :: "u64 cbs_op" where
  "parse_base128_integer cbs = parse_base128_loop 0 cbs"

definition parse_asn1_tag :: "u32 cbs_op" where
  "parse_asn1_tag cbs =
    (case CBS_get_u8 cbs of
       (None, c) \<Rightarrow> (None, c)
     | (Some tag_byte, c) \<Rightarrow>
        (let tag = push_bit CBS_ASN1_TAG_SHIFT (ucast tag_byte AND 0xe0);
             tag_number = ucast (tag_byte AND 0x1f)
         in if tag_number = 0x1f
            then (case parse_base128_integer c of
                    (None, c') \<Rightarrow> (None, c')
                  | (Some v, c') \<Rightarrow>
                     (if v > ucast CBS_ASN1_TAG_NUMBER_MASK \<or> v < 0x1f then (None, c')
                      else (Some (tag OR ucast v), c')))
            else (Some (tag OR tag_number), c)))"

text \<open>
  The result is the element (header included), its tag and the length of its header. The header is
  parsed from a copy, so that a failure leaves the input alone.
\<close>

definition cbs_get_any_asn1_element :: "bool \<Rightarrow> (CBS \<times> u32 \<times> nat) cbs_op" where
  "cbs_get_any_asn1_element ber_ok cbs =
    (case parse_asn1_tag cbs of
       (None, _) \<Rightarrow> (None, cbs)
     | (Some tag, header) \<Rightarrow>
    (case CBS_get_u8 header of
       (None, _) \<Rightarrow> (None, cbs)
     | (Some length_byte, header) \<Rightarrow>
    (let header_len = CBS_len cbs - CBS_len header;
         finish = (\<lambda>len hl. case CBS_get_bytes len cbs of
                              (None, c) \<Rightarrow> (None, c)
                            | (Some out, c) \<Rightarrow> (Some (out, tag, hl), c))
     in if length_byte AND 0x80 = 0
        then finish (size_add (unat length_byte) header_len) header_len
        else let num_bytes = unat (length_byte AND 0x7f)
        in if ber_ok \<and> tag AND CBS_ASN1_CONSTRUCTED \<noteq> 0 \<and> num_bytes = 0
           then finish header_len header_len
        else if num_bytes = 0 \<or> num_bytes > 4 then (None, cbs)
        else (case cbs_get_u num_bytes header of
                (None, _) \<Rightarrow> (None, cbs)
              | (Some len32, _) \<Rightarrow>
                 (if len32 < 128 then (None, cbs)
                  else if drop_bit ((num_bytes - 1) * 8) len32 = 0 then (None, cbs)
                  else if size_add (size_add (unat len32) header_len) num_bytes < unat len32
                  then (None, cbs)
                  else finish (size_add (unat len32) (header_len + num_bytes))
                         (header_len + num_bytes))))))"

definition CBS_get_any_asn1_element :: "(CBS \<times> u32 \<times> nat) cbs_op" where
  "CBS_get_any_asn1_element cbs = cbs_get_any_asn1_element False cbs"

definition CBS_get_any_ber_asn1_element :: "(CBS \<times> u32 \<times> nat) cbs_op" where
  "CBS_get_any_ber_asn1_element cbs = cbs_get_any_asn1_element True cbs"

definition CBS_get_any_asn1 :: "(CBS \<times> u32) cbs_op" where
  "CBS_get_any_asn1 cbs =
    (case CBS_get_any_asn1_element cbs of
       (None, c) \<Rightarrow> (None, c)
     | (Some (out, tag, header_len), c) \<Rightarrow>
        (case CBS_skip header_len out of
           (None, _) \<Rightarrow> (None, c)
         | (Some _, out') \<Rightarrow> (Some (out', tag), c)))"

definition cbs_get_asn1 :: "u32 \<Rightarrow> bool \<Rightarrow> CBS cbs_op" where
  "cbs_get_asn1 tag_value skip_header cbs =
    (case CBS_get_any_asn1_element cbs of
       (None, c) \<Rightarrow> (None, c)
     | (Some (out, tag, header_len), c) \<Rightarrow>
        (if tag \<noteq> tag_value then (None, c)
         else if skip_header
         then (case CBS_skip header_len out of (None, _) \<Rightarrow> (None, c) | (Some _, out') \<Rightarrow> (Some out', c))
         else (Some out, c)))"

definition CBS_get_asn1 :: "u32 \<Rightarrow> CBS cbs_op" where
  "CBS_get_asn1 tag_value cbs = cbs_get_asn1 tag_value True cbs"

definition CBS_get_asn1_element :: "u32 \<Rightarrow> CBS cbs_op" where
  "CBS_get_asn1_element tag_value cbs = cbs_get_asn1 tag_value False cbs"

definition CBS_peek_asn1_tag :: "CBS \<Rightarrow> u32 \<Rightarrow> bool" where
  "CBS_peek_asn1_tag cbs tag_value =
    (if CBS_len cbs < 1 then False
     else (case parse_asn1_tag cbs of
             (None, _) \<Rightarrow> False
           | (Some actual_tag, _) \<Rightarrow> tag_value = actual_tag))"

fun asn1_uint64_loop :: "u64 \<Rightarrow> u8 list \<Rightarrow> u64 option" where
  "asn1_uint64_loop out [] = Some out"
| "asn1_uint64_loop out (b # data) =
    (if drop_bit 56 out \<noteq> 0 then None else asn1_uint64_loop (push_bit 8 out OR ucast b) data)"

definition CBS_get_asn1_uint64 :: "u64 cbs_op" where
  "CBS_get_asn1_uint64 cbs =
    (case CBS_get_asn1 CBS_ASN1_INTEGER cbs of
       (None, c) \<Rightarrow> (None, c)
     | (Some bytes, c) \<Rightarrow>
        (let data = CBS_data bytes; len = CBS_len bytes
         in if len = 0 then (None, c)
            else if data ! 0 AND 0x80 \<noteq> 0 then (None, c)
            else if data ! 0 = 0 \<and> 1 < len \<and> data ! 1 AND 0x80 = 0 then (None, c)
            else (asn1_uint64_loop 0 data, c)))"

definition CBS_get_asn1_bool :: "bool cbs_op" where
  "CBS_get_asn1_bool cbs =
    (case CBS_get_asn1 CBS_ASN1_BOOLEAN cbs of
       (None, c) \<Rightarrow> (None, c)
     | (Some bytes, c) \<Rightarrow>
        (if CBS_len bytes \<noteq> 1 then (None, c)
         else let value = CBS_data bytes ! 0
         in if value \<noteq> 0 \<and> value \<noteq> 0xff then (None, c) else (Some (value \<noteq> 0), c)))"

text \<open>\<open>None\<close> inside the result is \<open>*out_present = 0\<close>.\<close>

definition CBS_get_optional_asn1 :: "u32 \<Rightarrow> CBS option cbs_op" where
  "CBS_get_optional_asn1 tag cbs =
    (if CBS_peek_asn1_tag cbs tag
     then (case CBS_get_asn1 tag cbs of (None, c) \<Rightarrow> (None, c) | (Some out, c) \<Rightarrow> (Some (Some out), c))
     else (Some None, cbs))"

definition CBS_get_optional_asn1_octet_string :: "u32 \<Rightarrow> (CBS \<times> bool) cbs_op" where
  "CBS_get_optional_asn1_octet_string tag cbs =
    (case CBS_get_optional_asn1 tag cbs of
       (None, c) \<Rightarrow> (None, c)
     | (Some None, c) \<Rightarrow> (Some (CBS_init [] 0, False), c)
     | (Some (Some child), c) \<Rightarrow>
        (case CBS_get_asn1 CBS_ASN1_OCTETSTRING child of
           (None, _) \<Rightarrow> (None, c)
         | (Some out, child') \<Rightarrow> (if CBS_len child' \<noteq> 0 then (None, c) else (Some (out, True), c))))"

definition CBS_get_optional_asn1_uint64 :: "u32 \<Rightarrow> u64 \<Rightarrow> u64 cbs_op" where
  "CBS_get_optional_asn1_uint64 tag default_value cbs =
    (case CBS_get_optional_asn1 tag cbs of
       (None, c) \<Rightarrow> (None, c)
     | (Some None, c) \<Rightarrow> (Some default_value, c)
     | (Some (Some child), c) \<Rightarrow>
        (case CBS_get_asn1_uint64 child of
           (None, _) \<Rightarrow> (None, c)
         | (Some out, child') \<Rightarrow> (if CBS_len child' \<noteq> 0 then (None, c) else (Some out, c))))"

definition CBS_get_optional_asn1_bool :: "u32 \<Rightarrow> bool \<Rightarrow> bool cbs_op" where
  "CBS_get_optional_asn1_bool tag default_value cbs =
    (case CBS_get_optional_asn1 tag cbs of
       (None, c) \<Rightarrow> (None, c)
     | (Some None, c) \<Rightarrow> (Some default_value, c)
     | (Some (Some child), c) \<Rightarrow>
        (case CBS_get_asn1 CBS_ASN1_BOOLEAN child of
           (None, _) \<Rightarrow> (None, c)
         | (Some child2, child') \<Rightarrow>
            (if CBS_len child2 \<noteq> 1 \<or> CBS_len child' \<noteq> 0 then (None, c)
             else let boolean = CBS_data child2 ! 0
             in if boolean = 0 then (Some False, c)
                else if boolean = 0xff then (Some True, c)
                else (None, c))))"

definition CBS_is_valid_asn1_bitstring :: "CBS \<Rightarrow> bool" where
  "CBS_is_valid_asn1_bitstring cbs =
    (case CBS_get_u8 cbs of
       (None, _) \<Rightarrow> False
     | (Some num_unused_bits, c) \<Rightarrow>
        (if num_unused_bits > 7 then False
         else if num_unused_bits = 0 then True
         else (case CBS_get_last_u8 c of
                 (None, _) \<Rightarrow> False
               | (Some lst, _) \<Rightarrow> lst AND (push_bit (unat num_unused_bits) 1 - 1) = 0)))"

definition CBS_asn1_bitstring_has_bit :: "CBS \<Rightarrow> u32 \<Rightarrow> bool" where
  "CBS_asn1_bitstring_has_bit cbs bit_pos =
    (if \<not> CBS_is_valid_asn1_bitstring cbs then False
     else let byte_num = drop_bit 3 bit_pos + 1;
              bit_num = 7 - (bit_pos AND 7)
     in unat byte_num < CBS_len cbs \<and>
        CBS_data cbs ! unat byte_num AND push_bit (unat bit_num) 1 \<noteq> 0)"

end
