(* ===== verification/DER.thy ===== *)
theory DER
  imports Bytestring_CBS
begin

unbundle bit_operations_syntax

text \<open>
  What a DER element is, independently of the parser: the identifier octets of a tag, the minimal
  length octets and the element they form (ITU-T X.690). The lemmas show that the parser of
  \<open>Bytestring_CBS\<close> accepts exactly these byte strings.
\<close>

section \<open>Bit masks of the encoding\<close>

lemma mask_literals:
  "(0x7f :: u8) = mask 7" "(0x1f :: u8) = mask 5" "(0x80 :: u8) = push_bit 7 1"
  "(0xe0 :: u8) = push_bit 5 (mask 3)" "(0xe0 :: u32) = push_bit 5 (mask 3)"
  by (simp_all add: mask_eq_exp_minus_1 push_bit_eq_mult)

lemma unat_and_7f: "unat ((b :: u8) AND 0x7f) = unat b mod 128"
  using unat_and_mask [of b 7] by (simp add: mask_literals(1))

lemma unat_and_1f: "unat ((b :: u8) AND 0x1f) = unat b mod 32"
  using unat_and_mask [of b 5] by (simp add: mask_literals(2))

lemma high_bit_u8: "(b :: u8) AND 0x80 = 0 \<longleftrightarrow> unat b < 128"
proof -
  have "b AND push_bit 7 1 = 0 \<longleftrightarrow> \<not> bit b 7"
    by (metis and_exp_eq_0_iff_not_bit push_bit_of_1)
  also have "\<dots> \<longleftrightarrow> drop_bit 7 b = 0"
    using drop_bit_eq_zero_iff_not_bit_last [of b] by simp
  also have "\<dots> \<longleftrightarrow> unat b < 128"
    by (simp only: drop_bit_zero_iff) simp
  finally show ?thesis by (simp only: mask_literals)
qed

section \<open>Base 128 integers\<close>

text \<open>\<open>base128_pre n\<close> is \<open>n\<close> in base 128 with every continuation bit set; it is empty for 0.\<close>

fun base128_pre :: "nat \<Rightarrow> u8 list" where
  "base128_pre n = (if n = 0 then [] else base128_pre (n div 128) @ [word_of_nat (128 + n mod 128)])"

declare base128_pre.simps [simp del]

definition base128 :: "nat \<Rightarrow> u8 list" where
  "base128 n = base128_pre (n div 128) @ [word_of_nat (n mod 128)]"

lemma base128_pre_0 [simp]: "base128_pre 0 = []"
  by (simp add: base128_pre.simps)

lemma base128_pre_snoc: "0 < 128 * v + d \<Longrightarrow> d < 128 \<Longrightarrow>
  base128_pre (128 * v + d) = base128_pre v @ [word_of_nat (128 + d)]"
  by (subst base128_pre.simps) simp

lemma length_base128_pre: "n < 128 ^ k \<Longrightarrow> length (base128_pre n) \<le> k"
proof (induction k arbitrary: n)
  case 0
  then show ?case by simp
next
  case (Suc k)
  then have "n div 128 < 128 ^ k" by (simp add: less_mult_imp_div_less)
  with Suc.IH show ?case by (subst base128_pre.simps) simp
qed

lemma high_half_mod: "128 \<le> n \<Longrightarrow> n < 256 \<Longrightarrow> n = 128 + n mod (128 :: nat)"
  by (simp add: le_mod_geq)

text \<open>One step of the parser's accumulator in ordinary arithmetic.\<close>

lemma base128_acc:
  assumes "v < 2 ^ 57"
  shows "push_bit 7 (word_of_nat v :: u64) OR ucast ((b :: u8) AND 0x7f) =
    word_of_nat (128 * v + unat b mod 128)"
proof -
  have "unat (ucast (b AND 0x7f) :: u64) = unat b mod 128"
    by (simp add: unat_ucast_u8 unat_and_7f)
  then have "(ucast (b AND 0x7f) :: u64) = word_of_nat (unat b mod 128)"
    by (metis word_of_nat_unat)
  then show ?thesis
    by (subst shl_or_eq_add) (simp_all add: unat_of_nat mod_less_divisor less_le_trans)
qed

lemma drop_57_iff: "v < 2 ^ 64 \<Longrightarrow> drop_bit 57 (word_of_nat v :: u64) = 0 \<longleftrightarrow> v < 2 ^ 57"
  by (simp only: drop_bit_zero_iff unat_of_nat) simp

lemma word_of_nat_u64_0_iff: "v < 2 ^ 64 \<Longrightarrow> (word_of_nat v :: u64) = 0 \<longleftrightarrow> v = 0"
  by (simp add: word_unat_eq_iff unat_of_nat)

lemma parse_base128_loop_step:
  assumes "v < 2 ^ 64"
  shows "parse_base128_loop (word_of_nat v) (b # cbs) =
    (if 2 ^ 57 \<le> v \<or> v = 0 \<and> b = 0x80 then (None, cbs)
     else if 128 \<le> unat b then parse_base128_loop (word_of_nat (128 * v + unat b mod 128)) cbs
     else (Some (word_of_nat (128 * v + unat b)), cbs))"
  using assms by (auto simp: drop_57_iff word_of_nat_u64_0_iff base128_acc high_bit_u8 Let_def)

declare parse_base128_loop.simps(2) [simp del]

lemma unat_cont: "d < 128 \<Longrightarrow> unat (word_of_nat (128 + d) :: u8) = 128 + d"
  by (simp add: unat_word_of_nat_u8 del: of_nat_add)

lemma parse_base128_pre:
  "n < 2 ^ 57 \<Longrightarrow> parse_base128_loop 0 (base128_pre n @ rest) = parse_base128_loop (word_of_nat n) rest"
proof (induction n arbitrary: rest rule: base128_pre.induct)
  case (1 n)
  show ?case
  proof (cases "n = 0")
    case True
    then show ?thesis by simp
  next
    case False
    let ?d = "word_of_nat (128 + n mod 128) :: u8"
    have "parse_base128_loop 0 (base128_pre n @ rest) =
      parse_base128_loop 0 (base128_pre (n div 128) @ ?d # rest)"
      using False by (subst base128_pre.simps) simp
    also have "\<dots> = parse_base128_loop (word_of_nat (n div 128)) (?d # rest)"
      using False "1.prems" by (intro "1.IH") auto
    also have "\<dots> = parse_base128_loop (word_of_nat n) rest"
    proof -
      have "\<not> (n div 128 = 0 \<and> ?d = 0x80)"
      proof
        assume *: "n div 128 = 0 \<and> ?d = 0x80"
        then have "unat ?d = 128" by simp
        moreover have "unat ?d = 128 + n mod 128" by (rule unat_cont) simp
        ultimately show False using * False by (simp add: div_eq_0_iff)
      qed
      moreover have "n div 128 < 2 ^ 57" using "1.prems" by auto
      ultimately show ?thesis
        by (subst parse_base128_loop_step) (auto simp: unat_cont simp del: of_nat_add)
    qed
    finally show ?thesis .
  qed
qed

lemma parse_base128_integer_base128:
  assumes "n < 2 ^ 64"
  shows "parse_base128_integer (base128 n @ rest) = (Some (word_of_nat n), rest)"
proof -
  have "n div 128 < 2 ^ 57" using assms by auto
  moreover have "(word_of_nat (n mod 128) :: u8) \<noteq> 0x80"
  proof
    assume "(word_of_nat (n mod 128) :: u8) = 0x80"
    then have "n mod 128 mod 256 = 128" using unat_word_of_nat_u8 [of "n mod 128"] by simp
    then show False by simp
  qed
  moreover have "unat (word_of_nat (n mod 128) :: u8) = n mod 128"
    by (simp add: unat_word_of_nat_u8)
  moreover have "\<not> 128 \<le> n mod 128" by (simp add: not_le)
  ultimately show ?thesis
    by (simp add: parse_base128_integer_def base128_def parse_base128_pre
        parse_base128_loop_step)
qed

lemma parse_base128_loop_sound:
  assumes "parse_base128_loop (word_of_nat v) cbs = (Some r, rest)" and "v < 2 ^ 64"
  shows "base128_pre v @ cbs = base128 (unat r) @ rest"
  using assms
proof (induction cbs arbitrary: v)
  case Nil
  then show ?case by simp
next
  case (Cons b cbs)
  from Cons.prems have ok: "v < 2 ^ 57" "\<not> (v = 0 \<and> b = 0x80)"
    by (auto simp: parse_base128_loop_step split: if_splits)
  show ?case
  proof (cases "128 \<le> unat b")
    case True
    let ?v = "128 * v + unat b mod 128"
    from Cons.prems ok True have "parse_base128_loop (word_of_nat ?v) cbs = (Some r, rest)"
      by (auto simp: parse_base128_loop_step)
    moreover have "?v < 2 ^ 64" using ok mod_less_divisor [of 128 "unat b"] by simp
    ultimately have "base128_pre ?v @ cbs = base128 (unat r) @ rest" by (rule Cons.IH)
    moreover have b: "unat b = 128 + unat b mod 128"
      using True unat_u8_bound by (rule high_half_mod)
    then have "word_of_nat (128 + unat b mod 128) = b" by (metis word_of_nat_unat)
    moreover have "0 < ?v"
    proof (rule ccontr)
      assume "\<not> 0 < ?v"
      then have "v = 0" "unat b = 128" using b by auto
      then have "b = 0x80" by (simp add: word_unat_eq_iff)
      with ok \<open>v = 0\<close> show False by simp
    qed
    ultimately show ?thesis by (simp add: base128_pre_snoc del: of_nat_add)
  next
    case False
    with Cons.prems ok have r: "r = word_of_nat (128 * v + unat b)" "rest = cbs"
      by (auto simp: parse_base128_loop_step)
    moreover have "128 * v + unat b < 2 ^ 64" using ok False by simp
    ultimately have "unat r = 128 * v + unat b" by (simp add: unat_of_nat del: of_nat_add)
    then show ?thesis using r False by (simp add: base128_def)
  qed
qed

lemma parse_base128_integer_sound:
  "parse_base128_integer cbs = (Some r, rest) \<Longrightarrow> cbs = base128 (unat r) @ rest"
  using parse_base128_loop_sound [of 0] by (simp add: parse_base128_integer_def)


section \<open>Identifier octets\<close>

definition tag_bits :: "u32 \<Rightarrow> u8" where
  "tag_bits tag = ucast (drop_bit CBS_ASN1_TAG_SHIFT tag) AND 0xe0"

definition tag_number :: "u32 \<Rightarrow> u32" where
  "tag_number tag = tag AND CBS_ASN1_TAG_NUMBER_MASK"

definition der_tag :: "u32 \<Rightarrow> u8 list" where
  "der_tag tag =
    (if tag_number tag < 0x1f then [tag_bits tag OR ucast (tag_number tag)]
     else (tag_bits tag OR 0x1f) # base128 (unat (tag_number tag)))"

lemma tag_number_mask: "CBS_ASN1_TAG_NUMBER_MASK = mask 29"
  by (simp add: CBS_ASN1_TAG_NUMBER_MASK_def CBS_ASN1_TAG_SHIFT_def mask_eq_exp_minus_1)

lemma unat_tag_number: "unat (tag_number tag) < 2 ^ 29"
  unfolding tag_number_def tag_number_mask unat_and_mask by simp

lemma tag_split: "push_bit 24 (ucast (tag_bits tag) AND 0xe0) OR tag_number tag = tag"
  unfolding tag_bits_def tag_number_def tag_number_mask mask_literals CBS_ASN1_TAG_SHIFT_def
  by (rule bit_eqI) (auto simp: bit_simps)

lemma tag_byte_low:
  assumes "unat n < 32"
  shows "(tag_bits tag OR n) AND 0x1f = n" and "(ucast (tag_bits tag OR n) :: u32) AND 0xe0 = ucast (tag_bits tag) AND 0xe0"
proof -
  have n: "n = take_bit 5 n"
    using assms by (simp add: word_unat_eq_iff unsigned_take_bit_eq take_bit_nat_eq_self)
  have "(tag_bits tag OR take_bit 5 n) AND 0x1f = take_bit 5 n"
    unfolding tag_bits_def mask_literals by (rule bit_eqI) (auto simp: bit_simps)
  then show "(tag_bits tag OR n) AND 0x1f = n" by (simp only: n [symmetric])
  have "(ucast (tag_bits tag OR take_bit 5 n) :: u32) AND 0xe0 = ucast (tag_bits tag) AND 0xe0"
    unfolding tag_bits_def mask_literals by (rule bit_eqI) (auto simp: bit_simps)
  then show "(ucast (tag_bits tag OR n) :: u32) AND 0xe0 = ucast (tag_bits tag) AND 0xe0"
    by (simp only: n [symmetric])
qed

lemma CBS_get_u8_simps [simp]:
  "CBS_get_u8 [] = (None, [])" "CBS_get_u8 (b # cbs) = (Some b, cbs)"
  by (simp_all add: CBS_get_u8_def cbs_get_def)

lemma unat_tag_number_u8: "tag_number tag < 0x1f \<Longrightarrow> unat (ucast (tag_number tag) :: u8) = unat (tag_number tag)"
  by (simp add: word_less_nat_alt unsigned_ucast_eq take_bit_nat_eq_self_iff)

lemma parse_asn1_tag_der_tag: "parse_asn1_tag (der_tag tag @ rest) = (Some tag, rest)"
proof (cases "tag_number tag < 0x1f")
  case True
  let ?n = "ucast (tag_number tag) :: u8"
  have n: "unat ?n = unat (tag_number tag)" "unat (tag_number tag) < 31"
    using True unat_tag_number_u8 by (auto simp: word_less_nat_alt)
  then have "unat ?n < 32" by simp
  note low = tag_byte_low [OF this, of tag]
  have "ucast ?n = tag_number tag"
    using n by (simp add: word_unat_eq_iff unat_ucast_u8)
  moreover have "tag_number tag \<noteq> 0x1f" using True by auto
  ultimately show ?thesis
    using True low tag_split [of tag]
    by (simp add: der_tag_def parse_asn1_tag_def CBS_ASN1_TAG_SHIFT_def Let_def)
next
  case False
  let ?v = "word_of_nat (unat (tag_number tag)) :: u64"
  have v: "unat ?v = unat (tag_number tag)"
    using unat_tag_number [of tag] by (simp add: unat_of_nat del: of_nat_unat)
  have "\<not> ?v < 0x1f" using False v by (simp add: word_less_nat_alt del: of_nat_unat)
  moreover have "\<not> ?v > ucast CBS_ASN1_TAG_NUMBER_MASK"
    using unat_tag_number [of tag] v
    by (simp add: word_less_nat_alt CBS_ASN1_TAG_NUMBER_MASK_def CBS_ASN1_TAG_SHIFT_def del: of_nat_unat)
  moreover have "ucast ?v = tag_number tag"
    using unat_tag_number [of tag]
    by (simp add: word_unat_eq_iff unsigned_ucast_eq v take_bit_nat_eq_self_iff del: of_nat_unat)
  moreover have "parse_base128_integer (base128 (unat (tag_number tag)) @ rest) = (Some ?v, rest)"
    using unat_tag_number [of tag] by (intro parse_base128_integer_base128) simp
  moreover note tag_byte_low [of "0x1f" tag] tag_split [of tag]
  ultimately show ?thesis
    using False by (simp add: der_tag_def parse_asn1_tag_def CBS_ASN1_TAG_SHIFT_def Let_def del: of_nat_unat)
qed

text \<open>The fields of a tag that was put together from its parts.\<close>

lemma tag_join:
  assumes "unat n < 2 ^ 29"
  shows "tag_bits (push_bit 24 (ucast b AND 0xe0) OR n) = b AND 0xe0"
    and "tag_number (push_bit 24 (ucast (b :: u8) AND 0xe0) OR n) = n"
proof -
  have n: "n = take_bit 29 n"
    using assms by (simp add: word_unat_eq_iff unsigned_take_bit_eq take_bit_nat_eq_self)
  have "tag_bits (push_bit 24 (ucast b AND 0xe0) OR take_bit 29 n) = b AND 0xe0"
    unfolding tag_bits_def mask_literals CBS_ASN1_TAG_SHIFT_def by (rule bit_eqI) (auto simp: bit_simps)
  then show "tag_bits (push_bit 24 (ucast b AND 0xe0) OR n) = b AND 0xe0" by (simp only: n [symmetric])
  have "tag_number (push_bit 24 (ucast b AND 0xe0) OR take_bit 29 n) = take_bit 29 n"
    unfolding tag_number_def tag_number_mask mask_literals by (rule bit_eqI) (auto simp: bit_simps)
  then show "tag_number (push_bit 24 (ucast b AND 0xe0) OR n) = n" by (simp only: n [symmetric])
qed

lemma byte_split: "(b :: u8) AND 0xe0 OR b AND 0x1f = b"
  unfolding mask_literals by (rule bit_eqI) (auto simp: bit_simps)

lemma parse_asn1_tag_sound:
  assumes "parse_asn1_tag cbs = (Some tag, rest)"
  shows "cbs = der_tag tag @ rest"
proof -
  from assms obtain b c where cbs: "cbs = b # c"
    by (cases cbs) (auto simp: parse_asn1_tag_def)
  let ?n = "ucast (b AND 0x1f) :: u32"
  have nn: "unat ?n = unat b mod 32" by (simp add: unat_ucast_u8 unat_and_1f)
  show ?thesis
  proof (cases "?n = 0x1f")
    case False
    from assms cbs False have tag: "tag = push_bit 24 (ucast b AND 0xe0) OR ?n" "rest = c"
      by (auto simp: parse_asn1_tag_def CBS_ASN1_TAG_SHIFT_def Let_def)
    have "unat ?n < 2 ^ 29" using nn by (simp add: less_trans [OF mod_less_divisor])
    note j = tag_join [OF this, of b]
    have "unat ?n \<noteq> 31" using False by (auto simp: word_unat_eq_iff)
    then have "?n < 0x1f" using nn by (simp add: word_less_nat_alt nat_less_le mod_le_divisor)
    moreover have "ucast ?n = b AND 0x1f"
      by (rule ucast_up_ucast_id) (simp add: is_up)
    ultimately show ?thesis using tag j cbs byte_split [of b] by (simp add: der_tag_def)
  next
    case True
    with assms cbs obtain v where v: "parse_base128_integer c = (Some v, rest)"
      "\<not> v > ucast CBS_ASN1_TAG_NUMBER_MASK" "\<not> v < 0x1f"
      and tag: "tag = push_bit 24 (ucast b AND 0xe0) OR ucast v"
      by (auto simp: parse_asn1_tag_def CBS_ASN1_TAG_SHIFT_def Let_def split: prod.splits option.splits if_splits)
    from v have b: "unat v < 2 ^ 29" "31 \<le> unat v"
      by (auto simp: word_less_nat_alt CBS_ASN1_TAG_NUMBER_MASK_def CBS_ASN1_TAG_SHIFT_def)
    then have uv: "unat (ucast v :: u32) = unat v"
      by (simp add: unsigned_ucast_eq take_bit_nat_eq_self_iff)
    with b have "unat (ucast v :: u32) < 2 ^ 29" by simp
    note j = tag_join [OF this, of b]
    have "b AND 0x1f = 0x1f"
      using True nn by (simp add: word_unat_eq_iff unat_and_1f)
    then have "b AND 0xe0 OR 0x1f = b" using byte_split [of b] by simp
    moreover have "\<not> (ucast v :: u32) < 0x1f" using b uv by (simp add: word_less_nat_alt)
    ultimately show ?thesis
      using j uv cbs tag parse_base128_integer_sound [OF v(1)] by (simp add: der_tag_def)
  qed
qed


section \<open>Length octets and elements\<close>

definition len_octets :: "nat \<Rightarrow> nat" where
  "len_octets n = (if n < 2 ^ 8 then 1 else if n < 2 ^ 16 then 2 else if n < 2 ^ 24 then 3 else 4)"

definition der_length :: "nat \<Rightarrow> u8 list" where
  "der_length n =
    (if n < 128 then [word_of_nat n] else word_of_nat (128 + len_octets n) # be_bytes (len_octets n) n)"

definition der_header :: "u32 \<Rightarrow> nat \<Rightarrow> u8 list" where
  "der_header tag n = der_tag tag @ der_length n"

definition der_element :: "u32 \<Rightarrow> u8 list \<Rightarrow> u8 list" where
  "der_element tag contents = der_header tag (length contents) @ contents"

lemma len_octets_bounds: "1 \<le> len_octets n" "len_octets n \<le> 4"
  by (simp_all add: len_octets_def)

lemma len_octets_fits: "n < 2 ^ 32 \<Longrightarrow> n < 256 ^ len_octets n"
  by (simp add: len_octets_def)

lemma len_octets_min: "128 \<le> n \<Longrightarrow> 2 ^ ((len_octets n - 1) * 8) \<le> n"
  by (simp add: len_octets_def)

lemma len_octets_unique:
  assumes "n < 256 ^ k" and "2 ^ ((k - 1) * 8) \<le> n" and "1 \<le> k" and "k \<le> 4"
  shows "len_octets n = k"
proof -
  from assms(3,4) consider "k = 1" | "k = 2" | "k = 3" | "k = 4" by linarith
  then show ?thesis using assms(1,2) by cases (simp_all add: len_octets_def)
qed

lemma length_der_tag: "1 \<le> length (der_tag tag)" "length (der_tag tag) \<le> 6"
proof -
  have "unat (tag_number tag) div 128 < 128 ^ 4"
    using unat_tag_number [of tag] by (simp add: less_mult_imp_div_less)
  then have "length (base128_pre (unat (tag_number tag) div 128)) \<le> 4" by (rule length_base128_pre)
  then show "1 \<le> length (der_tag tag)" "length (der_tag tag) \<le> 6"
    by (simp_all add: der_tag_def base128_def)
qed

lemma length_der_length: "1 \<le> length (der_length n)" "length (der_length n) \<le> 5"
  using len_octets_bounds [of n] by (simp_all add: der_length_def)

lemma cbs_get_u_eq:
  "cbs_get_u k cbs =
    (if length cbs < k then (None, cbs) else (Some (word_of_nat (be_val (take k cbs))), drop k cbs))"
  by (simp add: cbs_get_u_def cbs_get_def foldl_shl8)

lemma CBS_get_bytes_eq:
  "CBS_get_bytes k cbs = (if length cbs < k then (None, cbs) else (Some (take k cbs), drop k cbs))"
  by (simp add: CBS_get_bytes_def cbs_get_def CBS_init_def)

text \<open>The decision the parser takes once it holds the tag and the length byte.\<close>

definition asn1_finish :: "CBS \<Rightarrow> u32 \<Rightarrow> nat \<Rightarrow> nat \<Rightarrow> (CBS \<times> u32 \<times> nat) option \<times> CBS" where
  "asn1_finish cbs tag len hl =
    (if length cbs < len then (None, cbs) else (Some (take len cbs, tag, hl), drop len cbs))"

lemma cbs_get_any_asn1_element_eq:
  assumes "parse_asn1_tag cbs = (Some tag, b # header)" and "cbs = pre @ header" and "length pre \<le> 7"
  shows "cbs_get_any_asn1_element ber_ok cbs =
    (if unat b < 128 then asn1_finish cbs tag (unat b + length pre) (length pre)
     else let k = unat b - 128
     in if ber_ok \<and> tag AND CBS_ASN1_CONSTRUCTED \<noteq> 0 \<and> k = 0
        then asn1_finish cbs tag (length pre) (length pre)
        else if k = 0 \<or> k > 4 \<or> length header < k then (None, cbs)
        else let n = be_val (take k header)
        in if n < 128 \<or> n < 2 ^ ((k - 1) * 8) then (None, cbs)
           else asn1_finish cbs tag (n + length pre + k) (length pre + k))"
proof -
  have hl: "CBS_len cbs - CBS_len header = length pre" using assms(2) by (simp add: CBS_len_def)
  have short: "size_add (unat b) (length pre) = unat b + length pre"
    using add_less_le_mono [OF unat_u8_bound assms(3), of b]
    by (intro size_add_id) (simp add: SIZE_BOUND_def)
  have long: "be_val (take k header) < 2 ^ 32" if "k \<le> 4" for k
  proof -
    have "be_val (take k header) < 256 ^ length (take k header)" by (rule be_val_bound)
    also have "\<dots> \<le> 256 ^ 4" using that by (intro power_increasing) simp_all
    finally show ?thesis by simp
  qed
  have fin: "size_add (be_val (take k header)) (length pre + k) = be_val (take k header) + length pre + k"
      "\<not> size_add (size_add (be_val (take k header)) (length pre)) k < be_val (take k header)"
    if "k \<le> 4" for k
    using long [OF that] assms(3) that by (simp_all add: size_add_def SIZE_BOUND_def)
  show ?thesis
  proof (cases "unat b < 128")
    case True
    then show ?thesis
      using assms(1) by (simp add: cbs_get_any_asn1_element_def hl short high_bit_u8 asn1_finish_def
          CBS_get_bytes_eq Let_def)
  next
    case False
    then obtain k where k: "unat b = 128 + k" by (metis le_Suc_ex not_less)
    then have "k < 128" using unat_u8_bound [of b] by linarith
    with k have num: "unat (b AND 0x7f) = k" by (simp add: unat_and_7f)
    show ?thesis
    proof (cases "k \<le> 4")
      case True
      then show ?thesis
        using assms(1) False k num long [OF True] fin [OF True]
        by (simp add: cbs_get_any_asn1_element_def hl high_bit_u8 asn1_finish_def CBS_get_bytes_eq
            cbs_get_u_eq drop_bit_zero_iff unat_of_nat word_less_nat_alt Let_def)
    next
      case F: False
      then show ?thesis
        using assms(1) False k num
        by (simp add: cbs_get_any_asn1_element_def hl high_bit_u8 CBS_get_bytes_eq Let_def)
    qed
  qed
qed

lemma cbs_get_any_asn1_element_der:
  assumes "length contents < 2 ^ 32"
  shows "cbs_get_any_asn1_element ber_ok (der_element tag contents @ rest) =
    (Some (der_element tag contents, tag, length (der_header tag (length contents))), rest)"
proof -
  let ?n = "length contents"
  let ?cbs = "der_element tag contents @ rest"
  obtain b l where l: "der_length ?n = b # l" using length_der_length [of ?n] by (cases "der_length ?n") auto
  have tag: "parse_asn1_tag ?cbs = (Some tag, b # l @ contents @ rest)"
    using parse_asn1_tag_der_tag [of tag "der_length ?n @ contents @ rest"]
    by (simp add: der_element_def der_header_def l)
  have cbs: "?cbs = (der_tag tag @ [b]) @ l @ contents @ rest"
    by (simp add: der_element_def der_header_def l)
  have pre: "length (der_tag tag @ [b]) \<le> 7" using length_der_tag [of tag] by simp
  note eq = cbs_get_any_asn1_element_eq [OF tag cbs pre, of ber_ok]
  show ?thesis
  proof (cases "?n < 128")
    case True
    with l have bl: "unat b = ?n" "l = []" by (auto simp: der_length_def unat_word_of_nat_u8)
    with True show ?thesis
      by (subst eq) (simp add: asn1_finish_def der_element_def der_header_def l)
  next
    case False
    let ?k = "len_octets ?n"
    from False l have bl: "b = word_of_nat (128 + ?k)" "l = be_bytes ?k ?n"
      by (simp_all add: der_length_def)
    have k: "1 \<le> ?k" "?k \<le> 4" by (rule len_octets_bounds)+
    then have b: "unat b = 128 + ?k" by (simp add: bl unat_cont del: of_nat_add)
    have v: "be_val (be_bytes ?k ?n) = ?n"
      using len_octets_fits [OF assms] by (simp add: be_val_be_bytes)
    have "2 ^ ((?k - 1) * 8) \<le> ?n" using False by (intro len_octets_min) simp
    with False k b v show ?thesis
      by (subst eq) (simp add: bl(2) asn1_finish_def der_element_def der_header_def l Let_def)
  qed
qed

lemma asn1_finish_Some:
  "asn1_finish cbs tag len hl = (Some (out, t, h), rest) \<longleftrightarrow>
    len \<le> length cbs \<and> out = take len cbs \<and> t = tag \<and> h = hl \<and> rest = drop len cbs"
  by (auto simp: asn1_finish_def)

lemma parse_asn1_tag_Some_pre:
  assumes "cbs_get_any_asn1_element ber_ok cbs = (Some (out, tag, hl), rest)"
  obtains b header where "parse_asn1_tag cbs = (Some tag, b # header)"
    "cbs = (der_tag tag @ [b]) @ header" "length (der_tag tag @ [b]) \<le> 7"
proof -
  from assms obtain t r where t: "parse_asn1_tag cbs = (Some t, r)"
    by (auto simp: cbs_get_any_asn1_element_def split: prod.splits option.splits)
  with assms obtain b header where r: "r = b # header"
    by (cases r) (auto simp: cbs_get_any_asn1_element_def)
  from t r have p: "parse_asn1_tag cbs = (Some t, b # header)" by simp
  have c: "cbs = (der_tag t @ [b]) @ header" using parse_asn1_tag_sound [OF p] by simp
  have l: "length (der_tag t @ [b]) \<le> 7" using length_der_tag [of t] by simp
  have "t = tag"
    using assms cbs_get_any_asn1_element_eq [OF p c l, of ber_ok]
    by (auto simp: asn1_finish_Some Let_def split: if_splits)
  with p c l that show ?thesis by blast
qed

lemma cbs_get_any_asn1_element_sound:
  assumes "cbs_get_any_asn1_element False cbs = (Some (out, tag, hl), rest)"
  obtains contents where "out = der_element tag contents" "cbs = out @ rest"
    "hl = length (der_header tag (length contents))" "length contents < 2 ^ 32"
proof -
  from assms obtain b header where p: "parse_asn1_tag cbs = (Some tag, b # header)"
    and c: "cbs = (der_tag tag @ [b]) @ header" and l: "length (der_tag tag @ [b]) \<le> 7"
    by (rule parse_asn1_tag_Some_pre)
  note eq = cbs_get_any_asn1_element_eq [OF p c l, of False]
  show ?thesis
  proof (cases "unat b < 128")
    case True
    let ?c = "take (unat b) header"
    from True assms [unfolded eq]
    have "asn1_finish cbs tag (unat b + (length (der_tag tag) + 1)) (length (der_tag tag) + 1) =
      (Some (out, tag, hl), rest)" by simp
    then have f: "unat b \<le> length header" "out = der_tag tag @ [b] @ ?c"
      "hl = length (der_tag tag) + 1" "rest = drop (unat b) header"
      unfolding asn1_finish_Some by (simp_all add: c)
    moreover have "der_length (length ?c) = [b]"
      using True f by (simp add: der_length_def min_def)
    ultimately show ?thesis
      using True by (intro that [of ?c]) (simp_all add: der_element_def der_header_def c)
  next
    case False
    let ?k = "unat b - 128"
    let ?n = "be_val (take ?k header)"
    let ?c = "take ?n (drop ?k header)"
    from False assms [unfolded eq] have k: "1 \<le> ?k" "?k \<le> 4" "?k \<le> length header"
      and n: "128 \<le> ?n" "2 ^ ((?k - 1) * 8) \<le> ?n"
      and f: "asn1_finish cbs tag (?n + (length (der_tag tag) + 1) + ?k) (length (der_tag tag) + 1 + ?k) =
        (Some (out, tag, hl), rest)"
      by (auto simp: Let_def split: if_splits)
    from f have len: "?n + ?k \<le> length header"
      and out: "out = der_tag tag @ [b] @ take ?k header @ ?c"
      and hl: "hl = length (der_tag tag) + 1 + ?k" and rest: "rest = drop ?n (drop ?k header)"
      unfolding asn1_finish_Some by (simp_all add: c take_add add.commute [of ?n] add.assoc)
    have lc: "length ?c = ?n" using len by simp
    have bound: "?n < 256 ^ ?k" using be_val_bound [of "take ?k header"] k(3) by simp
    then have lo: "len_octets ?n = ?k" using n k by (intro len_octets_unique)
    have "be_bytes ?k ?n = take ?k header"
      using be_bytes_be_val [of "take ?k header"] k(3) by simp
    moreover have "word_of_nat (128 + ?k) = b"
      using False by (metis le_add_diff_inverse not_less word_of_nat_unat)
    ultimately have dl: "der_length ?n = b # take ?k header"
      using n(1) by (simp add: der_length_def lo del: of_nat_add)
    note bound
    also have "(256 :: nat) ^ ?k \<le> 256 ^ 4" using k(2) by (rule power_increasing) simp
    finally have "?n < 2 ^ 32" by simp
    moreover have split: "take ?k header @ ?c @ rest = header"
      by (simp only: rest append_take_drop_id)
    then have "cbs = out @ rest" by (simp only: c out append.assoc)
    moreover have "out = der_element tag ?c" by (simp only: der_element_def der_header_def lc dl out append.assoc append_Cons append_Nil)
    moreover have "hl = length (der_header tag (length ?c))"
      unfolding der_header_def lc dl hl using k(3) by simp
    ultimately show ?thesis by (intro that [of ?c]) (simp_all only: lc)
  qed
qed


section \<open>The public parsers\<close>

lemma CBS_skip_append: "CBS_skip (length xs) (xs @ ys) = (Some (), ys)"
  by (simp add: CBS_skip_def cbs_get_def)

lemma CBS_get_any_asn1_element_iff:
  "CBS_get_any_asn1_element cbs = (Some (out, tag, hl), rest) \<longleftrightarrow>
    (\<exists>contents. cbs = out @ rest \<and> out = der_element tag contents \<and>
      hl = length (der_header tag (length contents)) \<and> length contents < 2 ^ 32)"
  unfolding CBS_get_any_asn1_element_def
  by (metis cbs_get_any_asn1_element_der cbs_get_any_asn1_element_sound)

lemma CBS_get_any_asn1_iff:
  "CBS_get_any_asn1 cbs = (Some (contents, tag), rest) \<longleftrightarrow>
    cbs = der_element tag contents @ rest \<and> length contents < 2 ^ 32"
proof
  assume r: "CBS_get_any_asn1 cbs = (Some (contents, tag), rest)"
  then obtain out hl where "CBS_get_any_asn1_element cbs = (Some (out, tag, hl), rest)"
    and skip: "CBS_skip hl out = (Some (), contents)"
    by (auto simp: CBS_get_any_asn1_def split: prod.splits option.splits)
  then obtain c where c: "cbs = out @ rest" "out = der_element tag c"
    "hl = length (der_header tag (length c))" "length c < 2 ^ 32"
    by (auto simp: CBS_get_any_asn1_element_iff)
  from skip c have "contents = c" by (simp add: der_element_def CBS_skip_append)
  with c show "cbs = der_element tag contents @ rest \<and> length contents < 2 ^ 32" by simp
next
  assume "cbs = der_element tag contents @ rest \<and> length contents < 2 ^ 32"
  then have "CBS_get_any_asn1_element cbs = (Some (der_element tag contents, tag,
    length (der_header tag (length contents))), rest)"
    by (auto simp: CBS_get_any_asn1_element_iff)
  then show "CBS_get_any_asn1 cbs = (Some (contents, tag), rest)"
    by (simp add: CBS_get_any_asn1_def der_element_def CBS_skip_append)
qed

lemma CBS_get_asn1_iff:
  "CBS_get_asn1 tag cbs = (Some contents, rest) \<longleftrightarrow>
    cbs = der_element tag contents @ rest \<and> length contents < 2 ^ 32"
proof -
  have "CBS_get_asn1 tag cbs = (Some contents, rest) \<longleftrightarrow>
    CBS_get_any_asn1 cbs = (Some (contents, tag), rest)"
    by (auto simp: CBS_get_asn1_def cbs_get_asn1_def CBS_get_any_asn1_def split: prod.splits option.splits if_splits)
  then show ?thesis by (simp add: CBS_get_any_asn1_iff)
qed

lemma der_element_prefix_free:
  assumes "der_element t1 c1 @ r1 = der_element t2 c2 @ r2"
    and "length c1 < 2 ^ 32" and "length c2 < 2 ^ 32"
  shows "t1 = t2" and "c1 = c2" and "r1 = r2"
proof -
  let ?cbs = "der_element t1 c1 @ r1"
  have "CBS_get_any_asn1 ?cbs = (Some (c1, t1), r1)" "CBS_get_any_asn1 ?cbs = (Some (c2, t2), r2)"
    using assms by (simp_all add: CBS_get_any_asn1_iff)
  then show "t1 = t2" and "c1 = c2" and "r1 = r2" by auto
qed

lemma CBS_peek_asn1_tag_element: "CBS_peek_asn1_tag (der_element tag c @ rest) t \<longleftrightarrow> t = tag"
  using parse_asn1_tag_der_tag [of tag "der_length (length c) @ c @ rest"] length_der_tag [of tag]
  by (auto simp: CBS_peek_asn1_tag_def CBS_len_def der_element_def der_header_def)

subsection \<open>Integers and booleans\<close>

text \<open>The minimal big-endian form of a number (empty for 0), and the contents of its INTEGER.\<close>

fun min_be :: "nat \<Rightarrow> u8 list" where
  "min_be n = (if n = 0 then [] else min_be (n div 256) @ [word_of_nat (n mod 256)])"

declare min_be.simps [simp del]

definition der_uint :: "nat \<Rightarrow> u8 list" where
  "der_uint n =
    (case min_be n of [] \<Rightarrow> [0] | b # bs \<Rightarrow> if 128 \<le> unat b then 0 # b # bs else b # bs)"

lemma min_be_0 [simp]: "min_be 0 = []"
  by (simp add: min_be.simps)

lemma min_be_Nil_iff [simp]: "min_be n = [] \<longleftrightarrow> n = 0"
  by (subst min_be.simps) simp

lemma be_val_min_be: "be_val (min_be n) = n"
proof (induction n rule: min_be.induct)
  case (1 n)
  then show ?case
    by (subst min_be.simps) (auto simp: be_val_append unat_word_of_nat_u8)
qed

lemma min_be_be_val: "bs \<noteq> [] \<Longrightarrow> hd bs \<noteq> 0 \<Longrightarrow> min_be (be_val bs) = bs"
proof (induction bs rule: rev_induct)
  case Nil
  then show ?case by simp
next
  case (snoc b bs)
  have b: "unat b mod 256 = unat b" by (rule mod_less) simp
  show ?case
  proof (cases "bs = []")
    case True
    with snoc.prems b show ?thesis by (subst min_be.simps) (simp add: unat_eq_zero)
  next
    case False
    with snoc have IH: "min_be (be_val bs) = bs" by simp
    then have "be_val bs \<noteq> 0" using False by (metis min_be_0)
    then show ?thesis using IH b by (subst min_be.simps) (simp add: be_val_append)
  qed
qed

lemma min_be_hd: "0 < n \<Longrightarrow> hd (min_be n) \<noteq> 0"
proof (induction n rule: min_be.induct)
  case (1 n)
  show ?case
  proof (cases "n div 256 = 0")
    case True
    then have "n < 256" by (simp add: div_eq_0_iff)
    then show ?thesis using "1.prems" True
      by (subst min_be.simps) (simp add: word_unat_eq_iff unat_word_of_nat_u8)
  next
    case False
    with "1.prems" have "hd (min_be (n div 256)) \<noteq> 0" by (intro "1.IH") auto
    with "1.prems" False show ?thesis by (subst min_be.simps) simp
  qed
qed

lemma length_min_be: "n < 256 ^ k \<Longrightarrow> length (min_be n) \<le> k"
proof (induction k arbitrary: n)
  case 0
  then show ?case by simp
next
  case (Suc k)
  then have "n div 256 < 256 ^ k" by (simp add: less_mult_imp_div_less)
  with Suc.IH show ?case by (subst min_be.simps) simp
qed

lemma length_der_uint: "length (der_uint (unat (v :: u64))) \<le> 9"
proof -
  have "length (min_be (unat v)) \<le> 8" using unsigned_less [of v] by (intro length_min_be) simp
  then show ?thesis by (cases "min_be (unat v)") (simp_all add: der_uint_def)
qed

lemma be_val_der_uint: "be_val (der_uint n) = n"
  using be_val_min_be [of n] by (auto simp: der_uint_def split: list.splits)

text \<open>The three checks of \<open>CBS_get_asn1_uint64\<close> say that the contents are minimal.\<close>

lemma der_uint_iff:
  "data = der_uint (be_val data) \<longleftrightarrow>
    data \<noteq> [] \<and> unat (data ! 0) < 128 \<and> \<not> (data ! 0 = 0 \<and> 1 < length data \<and> unat (data ! 1) < 128)"
    (is "?l \<longleftrightarrow> ?r")
proof
  assume l: ?l
  show ?r
  proof (cases "min_be (be_val data)")
    case Nil
    with l show ?thesis by (simp add: der_uint_def)
  next
    case (Cons b bs)
    then have "b \<noteq> 0" using min_be_hd [of "be_val data"] by (metis gr0I list.distinct(1) list.sel(1) min_be_0)
    with l Cons show ?thesis by (cases "128 \<le> unat b") (auto simp: der_uint_def)
  qed
next
  assume r: ?r
  then obtain b bs where data: "data = b # bs" by (cases data) auto
  show ?l
  proof (cases "b = 0")
    case False
    then have "min_be (be_val data) = data" using data by (intro min_be_be_val) auto
    with r data show ?thesis by (simp add: der_uint_def)
  next
    case True
    show ?thesis
    proof (cases bs)
      case Nil
      with True data show ?thesis by (simp add: der_uint_def)
    next
      case (Cons c cs)
      with r data True have c: "128 \<le> unat c" by auto
      then have "min_be (be_val bs) = bs" using Cons by (intro min_be_be_val) auto
      with c Cons data True show ?thesis by (simp add: der_uint_def)
    qed
  qed
qed

lemma asn1_uint64_loop_eq:
  assumes "v < 2 ^ 64"
  shows "asn1_uint64_loop (word_of_nat v) data =
    (if v * 256 ^ length data + be_val data < 2 ^ 64
     then Some (word_of_nat (v * 256 ^ length data + be_val data)) else None)"
  using assms
proof (induction data arbitrary: v)
  case Nil
  then show ?case by simp
next
  case (Cons b data)
  have step: "push_bit 8 (word_of_nat v :: u64) OR ucast b = word_of_nat (v * 256 + unat b)"
    by (simp add: shl8_or_u8)
  have val: "v * 256 ^ length (b # data) + be_val (b # data) =
    (v * 256 + unat b) * 256 ^ length data + be_val data"
    by (simp add: algebra_simps)
  show ?case
  proof (cases "v < 2 ^ 56")
    case True
    then have "v * 256 + unat b < 2 ^ 64"
      using add_less_le_mono [OF unat_u8_bound, of "v * 256" "(2 ^ 56 - 1) * 256" b] by simp
    then have "asn1_uint64_loop (word_of_nat (v * 256 + unat b)) data =
      (if (v * 256 + unat b) * 256 ^ length data + be_val data < 2 ^ 64
       then Some (word_of_nat ((v * 256 + unat b) * 256 ^ length data + be_val data)) else None)"
      by (rule Cons.IH)
    moreover have "drop_bit 56 (word_of_nat v :: u64) = 0"
      using True Cons.prems by (simp only: drop_bit_zero_iff unat_of_nat) simp
    ultimately show ?thesis unfolding val by (simp only: asn1_uint64_loop.simps step simp_thms if_False)
  next
    case False
    then have "drop_bit 56 (word_of_nat v :: u64) \<noteq> 0"
      using Cons.prems by (simp only: drop_bit_zero_iff unat_of_nat) simp
    moreover have "2 ^ 64 \<le> v * 256 ^ length (b # data) + be_val (b # data)"
    proof -
      have "2 ^ 64 \<le> v * 256" using False by simp
      also have "\<dots> \<le> v * 256 ^ length (b # data)" by simp
      finally show ?thesis by (rule trans_le_add1)
    qed
    ultimately show ?thesis by (simp only: asn1_uint64_loop.simps not_less [symmetric] if_True if_False simp_thms)
  qed
qed

lemma CBS_get_asn1_uint64_iff:
  "CBS_get_asn1_uint64 cbs = (Some v, rest) \<longleftrightarrow>
    cbs = der_element CBS_ASN1_INTEGER (der_uint (unat v)) @ rest"
  (is "?l \<longleftrightarrow> ?r")
proof
  assume ?l
  then obtain data where data: "CBS_get_asn1 CBS_ASN1_INTEGER cbs = (Some data, rest)"
    and chk: "data \<noteq> []" "unat (data ! 0) < 128"
      "\<not> (data ! 0 = 0 \<and> 1 < length data \<and> unat (data ! 1) < 128)"
    and loop: "asn1_uint64_loop 0 data = Some v"
    by (auto simp: CBS_get_asn1_uint64_def CBS_len_def CBS_data_def high_bit_u8 Let_def
        split: prod.splits option.splits if_splits)
  from loop have "be_val data < 2 ^ 64" "v = word_of_nat (be_val data)"
    using asn1_uint64_loop_eq [of 0 data] by (auto split: if_splits)
  then have "unat v = be_val data" by (simp add: unat_of_nat)
  with chk have "data = der_uint (unat v)" using der_uint_iff [of data] by simp
  with data show ?r by (simp add: CBS_get_asn1_iff)
next
  assume r: ?r
  let ?d = "der_uint (unat v)"
  have bv: "be_val ?d = unat v" by (rule be_val_der_uint)
  then have loop: "asn1_uint64_loop 0 ?d = Some v"
    using asn1_uint64_loop_eq [of 0 ?d] unsigned_less [of v] by simp
  from bv have chk: "?d \<noteq> []" "unat (?d ! 0) < 128"
      "\<not> (?d ! 0 = 0 \<and> 1 < length ?d \<and> unat (?d ! 1) < 128)"
    using der_uint_iff [of ?d] by simp_all
  have "length ?d < 2 ^ 32" using length_der_uint [of v] by simp
  with r have "CBS_get_asn1 CBS_ASN1_INTEGER cbs = (Some ?d, rest)" by (simp add: CBS_get_asn1_iff)
  with chk loop show ?l
    by (auto simp: CBS_get_asn1_uint64_def CBS_len_def CBS_data_def high_bit_u8 Let_def)
qed

section \<open>Properties\<close>

text \<open>
  C16: \<open>CBS_get_asn1_uint64\<close> accepts an input exactly when it begins with the DER encoding of an
  INTEGER that a \<open>uint64_t\<close> holds: minimal length, minimal contents, no sign bit.
\<close>

theorem asn1_uint64_exact:
  "CBS_get_asn1_uint64 cbs = (Some v, rest) \<longleftrightarrow> cbs = der_element CBS_ASN1_INTEGER (der_uint (unat v)) @ rest"
  by (rule CBS_get_asn1_uint64_iff)

text \<open>
  C1: \<open>CBS_get_any_asn1_element\<close> accepts an input exactly when it begins with a definite-length DER
  element with the shortest length form, of any tag, high tag numbers included; it returns the element, its tag,
  the length of its header and the rest of the input.
\<close>

theorem any_element_exact:
  "CBS_get_any_asn1_element cbs = (Some (out, tag, hl), rest) \<longleftrightarrow>
    (\<exists>contents. cbs = out @ rest \<and> out = der_element tag contents \<and>
      hl = length (der_header tag (length contents)) \<and> length contents < 2 ^ 32)"
  by (rule CBS_get_any_asn1_element_iff)

end
