(* ===== verification/Bytestring_CBB.thy ===== *)
theory Bytestring_CBB
  imports DER
begin

unbundle bit_operations_syntax

text \<open>
  \<open>crypto/bytestring/cbb.c\<close>: the builder \<open>CBB\<close> ("crypto byte builder").

  All CBBs of one builder share a buffer (\<open>cbb_buffer_st\<close>) and form a chain: every CBB has at most one
  child, whose length prefix is pending. A builder is represented by the buffer and the chain, the
  top-level CBB first; an operation names the CBB it is called on by its depth \<open>d\<close> in the chain, and
  \<open>cbb->child\<close> is the next CBB. A CBB that was flushed away (its \<open>base\<close> was set to NULL) is no longer in
  the chain, and an operation at that depth fails as the C code does. \<open>ct_base = None\<close> is a builder
  that was cleaned up.

  \<open>cb_buf\<close> holds the whole allocation (\<open>cb_cap\<close> bytes); the first \<open>cb_len\<close> of them are the output.
  The parameter \<open>alloc\<close> is \<open>OPENSSL_malloc\<close> as in theory \<open>Buf\<close>. Operations return the C return value
  and the builder they leave behind.
\<close>

record cbb_buffer_st =
  cb_buf :: "u8 list"
  cb_len :: nat
  cb_cap :: nat
  cb_can_resize :: bool
  cb_error :: bool

record CBB =
  cbb_offset :: nat
  cbb_pending_len_len :: nat
  cbb_pending_is_asn1 :: bool

record cbb_tree =
  ct_base :: "cbb_buffer_st option"
  ct_chain :: "CBB list"

type_synonym allocator = "nat \<Rightarrow> u8 list option"

section \<open>The buffer\<close>

definition SIZEOF_CBB_BUFFER :: nat where
  "SIZEOF_CBB_BUFFER = 32"

definition CBB_zero :: cbb_tree where
  "CBB_zero = \<lparr>ct_base = None, ct_chain = []\<rparr>"

definition cbb_init :: "allocator \<Rightarrow> u8 list \<Rightarrow> nat \<Rightarrow> cbb_tree option" where
  "cbb_init alloc b cap =
    (case alloc SIZEOF_CBB_BUFFER of
       None \<Rightarrow> None
     | Some _ \<Rightarrow>
        Some \<lparr>ct_base = Some \<lparr>cb_buf = b, cb_len = 0, cb_cap = cap, cb_can_resize = True, cb_error = False\<rparr>,
              ct_chain = [\<lparr>cbb_offset = 0, cbb_pending_len_len = 0, cbb_pending_is_asn1 = False\<rparr>]\<rparr>)"

definition CBB_init :: "allocator \<Rightarrow> nat \<Rightarrow> cbb_tree option" where
  "CBB_init alloc initial_capacity =
    (case alloc initial_capacity of
       None \<Rightarrow> (if 0 < initial_capacity then None else cbb_init alloc [] initial_capacity)
     | Some b \<Rightarrow> cbb_init alloc b initial_capacity)"

definition CBB_init_fixed :: "allocator \<Rightarrow> u8 list \<Rightarrow> nat \<Rightarrow> cbb_tree option" where
  "CBB_init_fixed alloc b len =
    map_option (\<lambda>t. t\<lparr>ct_base := map_option (\<lambda>base. base\<lparr>cb_can_resize := False\<rparr>) (ct_base t)\<rparr>)
      (cbb_init alloc b len)"

definition CBB_cleanup :: "cbb_tree \<Rightarrow> cbb_tree" where
  "CBB_cleanup t = t\<lparr>ct_base := None\<rparr>"

definition cbb_fail :: "cbb_buffer_st \<Rightarrow> bool \<times> cbb_buffer_st" where
  "cbb_fail base = (False, base\<lparr>cb_error := True\<rparr>)"

definition cbb_buffer_reserve :: "allocator \<Rightarrow> cbb_buffer_st \<Rightarrow> nat \<Rightarrow> bool \<times> cbb_buffer_st" where
  "cbb_buffer_reserve alloc base len =
    (let newlen = size_add (cb_len base) len
     in if newlen < cb_len base then cbb_fail base
        else if newlen > cb_cap base
        then (let newcap = size_mul (cb_cap base) 2
              in if \<not> cb_can_resize base then cbb_fail base
                 else let newcap = (if newcap < cb_cap base \<or> newcap < newlen then newlen else newcap)
                 in (case payload_realloc alloc (cb_buf base) newcap of
                       None \<Rightarrow> cbb_fail base
                     | Some newbuf \<Rightarrow> (True, base\<lparr>cb_buf := newbuf, cb_cap := newcap\<rparr>)))
        else (True, base))"

definition cbb_buffer_add :: "allocator \<Rightarrow> cbb_buffer_st \<Rightarrow> nat \<Rightarrow> bool \<times> cbb_buffer_st" where
  "cbb_buffer_add alloc base len =
    (case cbb_buffer_reserve alloc base len of
       (False, b) \<Rightarrow> (False, b)
     | (True, b) \<Rightarrow> (True, b\<lparr>cb_len := cb_len b + len\<rparr>))"

text \<open>
  The loop \<open>for (i = n - 1; i < n; i--) { p[off + i] = v; v >>= 8; }\<close>, with the value left in \<open>v\<close>.
\<close>

fun put_be_loop :: "nat \<Rightarrow> nat \<Rightarrow> nat \<Rightarrow> u8 list \<Rightarrow> u8 list \<times> nat" where
  "put_be_loop 0 off v p = (p, v)"
| "put_be_loop (Suc i) off v p = put_be_loop i off (v div 256) (p[off + i := word_of_nat v])"

definition cbb_buffer_add_u :: "allocator \<Rightarrow> cbb_buffer_st \<Rightarrow> u32 \<Rightarrow> nat \<Rightarrow> bool \<times> cbb_buffer_st" where
  "cbb_buffer_add_u alloc base v len_len =
    (if len_len = 0 then (True, base)
     else (case cbb_buffer_add alloc base len_len of
             (False, b) \<Rightarrow> (False, b)
           | (True, b) \<Rightarrow>
              (case put_be_loop len_len (cb_len base) (unat v) (cb_buf b) of
                 (p, v') \<Rightarrow>
                   (if v' \<noteq> 0 then cbb_fail (b\<lparr>cb_buf := p\<rparr>) else (True, b\<lparr>cb_buf := p\<rparr>)))))"

section \<open>Flushing\<close>

text \<open>
  The length prefix of a child, once the contents of its own children are in place. The arguments
  after the buffer are \<open>child->offset\<close>, \<open>child->pending_len_len\<close> and \<open>child->pending_is_asn1\<close>.
\<close>

definition cbb_write_prefix ::
    "allocator \<Rightarrow> cbb_buffer_st \<Rightarrow> CBB \<Rightarrow> nat \<Rightarrow> bool \<times> cbb_buffer_st" where
  "cbb_write_prefix alloc base child child_start =
    (let len = cb_len base - child_start;
         write = (\<lambda>b off n v.
           case put_be_loop n off v (cb_buf b) of
             (p, v') \<Rightarrow> if v' \<noteq> 0 then cbb_fail (b\<lparr>cb_buf := p\<rparr>) else (True, b\<lparr>cb_buf := p\<rparr>))
     in if cbb_pending_is_asn1 child
        then if len > 0xfffffffe then cbb_fail base
        else let (len_len, initial_length_byte, len') =
               (if len > 0xffffff then (5, 0x84, len)
                else if len > 0xffff then (4, 0x83, len)
                else if len > 0xff then (3, 0x82, len)
                else if len > 0x7f then (2, 0x81, len)
                else (1, word_of_nat len, 0))
             in (case (if len_len \<noteq> (1 :: nat)
                       then (case cbb_buffer_add alloc base (len_len - 1) of
                               (False, b) \<Rightarrow> cbb_fail b
                             | (True, b) \<Rightarrow>
                                (True, b\<lparr>cb_buf := store_at (child_start + (len_len - 1))
                                           (take len' (drop child_start (cb_buf b))) (cb_buf b)\<rparr>))
                       else (True, base)) of
                   (False, b) \<Rightarrow> (False, b)
                 | (True, b) \<Rightarrow>
                    write (b\<lparr>cb_buf := (cb_buf b)[cbb_offset child := initial_length_byte]\<rparr>)
                      (cbb_offset child + 1) (len_len - 1) len')
        else write base (cbb_offset child) (cbb_pending_len_len child) len)"

fun cbb_flush_children ::
    "allocator \<Rightarrow> cbb_buffer_st \<Rightarrow> CBB list \<Rightarrow> bool \<times> cbb_buffer_st \<times> CBB list" where
  "cbb_flush_children alloc base [] = (True, base, [])"
| "cbb_flush_children alloc base (child # cs) =
    (if cbb_pending_len_len child = 0 then (True, base, child # cs)
     else let child_start = size_add (cbb_offset child) (cbb_pending_len_len child)
     in (case cbb_flush_children alloc base cs of
           (False, b, _) \<Rightarrow> (False, b\<lparr>cb_error := True\<rparr>, child # cs)
         | (True, b, _) \<Rightarrow>
            (if child_start < cbb_offset child \<or> cb_len b < child_start
             then (False, b\<lparr>cb_error := True\<rparr>, child # cs)
             else (case cbb_write_prefix alloc b child child_start of
                     (False, b') \<Rightarrow> (False, b', child # cs)
                   | (True, b') \<Rightarrow> (True, b', [])))))"

definition CBB_flush :: "allocator \<Rightarrow> nat \<Rightarrow> cbb_tree \<Rightarrow> bool \<times> cbb_tree" where
  "CBB_flush alloc d t =
    (case ct_base t of
       None \<Rightarrow> (False, t)
     | Some base \<Rightarrow>
        (if length (ct_chain t) \<le> d \<or> cb_error base then (False, t)
         else (case cbb_flush_children alloc base (drop (Suc d) (ct_chain t)) of
                 (ok, b, cs) \<Rightarrow>
                   (ok, t\<lparr>ct_base := Some b, ct_chain := take (Suc d) (ct_chain t) @ cs\<rparr>))))"

text \<open>The pattern \<open>if (!CBB_flush(cbb) || !op(cbb->base)) return 0;\<close>.\<close>

definition cbb_op ::
    "allocator \<Rightarrow> nat \<Rightarrow> cbb_tree \<Rightarrow> (cbb_buffer_st \<Rightarrow> bool \<times> cbb_buffer_st) \<Rightarrow> bool \<times> cbb_tree" where
  "cbb_op alloc d t f =
    (case CBB_flush alloc d t of
       (False, t') \<Rightarrow> (False, t')
     | (True, t') \<Rightarrow>
        (case ct_base t' of
           None \<Rightarrow> (False, t')
         | Some base \<Rightarrow> (case f base of (ok, b) \<Rightarrow> (ok, t'\<lparr>ct_base := Some b\<rparr>))))"

text \<open>
  \<open>CBB_finish\<close> returns the output. \<open>want\<close> says whether \<open>out_data\<close> and \<open>out_len\<close> are both given; a
  resizable builder refuses to finish without them.
\<close>

definition CBB_finish :: "allocator \<Rightarrow> nat \<Rightarrow> cbb_tree \<Rightarrow> bool \<Rightarrow> u8 list option \<times> cbb_tree" where
  "CBB_finish alloc d t want =
    (if d \<noteq> 0 then (None, t)
     else (case CBB_flush alloc d t of
             (False, t') \<Rightarrow> (None, t')
           | (True, t') \<Rightarrow>
              (case ct_base t' of
                 None \<Rightarrow> (None, t')
               | Some base \<Rightarrow>
                  (if cb_can_resize base \<and> \<not> want then (None, t')
                   else (Some (take (cb_len base) (cb_buf base)), CBB_cleanup t')))))"

text \<open>\<open>CBB_data\<close> and \<open>CBB_len\<close> of the CBB at depth \<open>d\<close>, which must have no child.\<close>

definition CBB_len :: "nat \<Rightarrow> cbb_tree \<Rightarrow> nat" where
  "CBB_len d t =
    (case ct_base t of
       None \<Rightarrow> 0
     | Some base \<Rightarrow> cb_len base - cbb_offset (ct_chain t ! d) - cbb_pending_len_len (ct_chain t ! d))"

definition CBB_data :: "nat \<Rightarrow> cbb_tree \<Rightarrow> u8 list" where
  "CBB_data d t =
    (case ct_base t of
       None \<Rightarrow> []
     | Some base \<Rightarrow>
        drop (cbb_offset (ct_chain t ! d) + cbb_pending_len_len (ct_chain t ! d)) (cb_buf base))"

section \<open>Adding data\<close>

definition cbb_push_child :: "nat \<Rightarrow> cbb_tree \<Rightarrow> CBB \<Rightarrow> cbb_tree" where
  "cbb_push_child d t child = t\<lparr>ct_chain := take (Suc d) (ct_chain t) @ [child]\<rparr>"

definition cbb_base_len :: "cbb_tree \<Rightarrow> nat" where
  "cbb_base_len t = (case ct_base t of None \<Rightarrow> 0 | Some base \<Rightarrow> cb_len base)"

definition cbb_add_length_prefixed :: "allocator \<Rightarrow> nat \<Rightarrow> nat \<Rightarrow> cbb_tree \<Rightarrow> bool \<times> cbb_tree" where
  "cbb_add_length_prefixed alloc len_len d t =
    (case CBB_flush alloc d t of
       (False, t') \<Rightarrow> (False, t')
     | (True, t') \<Rightarrow>
        (case ct_base t' of
           None \<Rightarrow> (False, t')
         | Some base \<Rightarrow>
            (let offset = cb_len base
             in (case cbb_buffer_add alloc base len_len of
                   (False, b) \<Rightarrow> (False, t'\<lparr>ct_base := Some b\<rparr>)
                 | (True, b) \<Rightarrow>
                    (True, cbb_push_child d
                       (t'\<lparr>ct_base := Some (b\<lparr>cb_buf := store_at offset (replicate len_len 0) (cb_buf b)\<rparr>)\<rparr>)
                       \<lparr>cbb_offset = offset, cbb_pending_len_len = len_len, cbb_pending_is_asn1 = False\<rparr>)))))"

definition CBB_add_u8_length_prefixed :: "allocator \<Rightarrow> nat \<Rightarrow> cbb_tree \<Rightarrow> bool \<times> cbb_tree" where
  "CBB_add_u8_length_prefixed alloc d t = cbb_add_length_prefixed alloc 1 d t"

definition CBB_add_u16_length_prefixed :: "allocator \<Rightarrow> nat \<Rightarrow> cbb_tree \<Rightarrow> bool \<times> cbb_tree" where
  "CBB_add_u16_length_prefixed alloc d t = cbb_add_length_prefixed alloc 2 d t"

definition CBB_add_u24_length_prefixed :: "allocator \<Rightarrow> nat \<Rightarrow> cbb_tree \<Rightarrow> bool \<times> cbb_tree" where
  "CBB_add_u24_length_prefixed alloc d t = cbb_add_length_prefixed alloc 3 d t"

definition CBB_add_u8 :: "allocator \<Rightarrow> nat \<Rightarrow> u8 \<Rightarrow> cbb_tree \<Rightarrow> bool \<times> cbb_tree" where
  "CBB_add_u8 alloc d v t = cbb_op alloc d t (\<lambda>b. cbb_buffer_add_u alloc b (ucast v) 1)"

definition CBB_add_u16 :: "allocator \<Rightarrow> nat \<Rightarrow> u16 \<Rightarrow> cbb_tree \<Rightarrow> bool \<times> cbb_tree" where
  "CBB_add_u16 alloc d v t = cbb_op alloc d t (\<lambda>b. cbb_buffer_add_u alloc b (ucast v) 2)"

definition CBB_add_u24 :: "allocator \<Rightarrow> nat \<Rightarrow> u32 \<Rightarrow> cbb_tree \<Rightarrow> bool \<times> cbb_tree" where
  "CBB_add_u24 alloc d v t = cbb_op alloc d t (\<lambda>b. cbb_buffer_add_u alloc b v 3)"

definition CBB_add_u32 :: "allocator \<Rightarrow> nat \<Rightarrow> u32 \<Rightarrow> cbb_tree \<Rightarrow> bool \<times> cbb_tree" where
  "CBB_add_u32 alloc d v t = cbb_op alloc d t (\<lambda>b. cbb_buffer_add_u alloc b v 4)"

definition CBB_add_bytes :: "allocator \<Rightarrow> nat \<Rightarrow> u8 list \<Rightarrow> cbb_tree \<Rightarrow> bool \<times> cbb_tree" where
  "CBB_add_bytes alloc d data t =
    cbb_op alloc d t (\<lambda>base.
      case cbb_buffer_add alloc base (length data) of
        (False, b) \<Rightarrow> (False, b)
      | (True, b) \<Rightarrow> (True, b\<lparr>cb_buf := store_at (cb_len base) data (cb_buf b)\<rparr>))"

text \<open>\<open>CBB_add_space\<close>: the new bytes hold whatever the buffer holds until the caller fills them.\<close>

definition CBB_add_space :: "allocator \<Rightarrow> nat \<Rightarrow> nat \<Rightarrow> cbb_tree \<Rightarrow> bool \<times> cbb_tree" where
  "CBB_add_space alloc d len t = cbb_op alloc d t (\<lambda>base. cbb_buffer_add alloc base len)"

definition CBB_reserve :: "allocator \<Rightarrow> nat \<Rightarrow> nat \<Rightarrow> cbb_tree \<Rightarrow> bool \<times> cbb_tree" where
  "CBB_reserve alloc d len t = cbb_op alloc d t (\<lambda>base. cbb_buffer_reserve alloc base len)"

definition CBB_did_write :: "nat \<Rightarrow> nat \<Rightarrow> cbb_tree \<Rightarrow> bool \<times> cbb_tree" where
  "CBB_did_write d len t =
    (case ct_base t of
       None \<Rightarrow> (False, t)
     | Some base \<Rightarrow>
        (let newlen = size_add (cb_len base) len
         in if Suc d < length (ct_chain t) \<or> newlen < cb_len base \<or> newlen > cb_cap base
            then (False, t)
            else (True, t\<lparr>ct_base := Some (base\<lparr>cb_len := newlen\<rparr>)\<rparr>)))"

definition CBB_discard_child :: "nat \<Rightarrow> cbb_tree \<Rightarrow> cbb_tree" where
  "CBB_discard_child d t =
    (if length (ct_chain t) \<le> Suc d then t
     else t\<lparr>ct_base := map_option (\<lambda>base. base\<lparr>cb_len := cbb_offset (ct_chain t ! Suc d)\<rparr>) (ct_base t),
            ct_chain := take (Suc d) (ct_chain t)\<rparr>)"

section \<open>ASN.1\<close>

fun base128_len :: "nat \<Rightarrow> nat" where
  "base128_len copy = (if 0 < copy then Suc (base128_len (copy div 128)) else 0)"

declare base128_len.simps [simp del]

fun add_base128_loop :: "allocator \<Rightarrow> nat \<Rightarrow> u64 \<Rightarrow> nat \<Rightarrow> cbb_tree \<Rightarrow> bool \<times> cbb_tree" where
  "add_base128_loop alloc d v 0 t = (True, t)"
| "add_base128_loop alloc d v (Suc i) t =
    (let byte = ucast (drop_bit (7 * i) v AND 0x7f) :: u8;
         byte = (if i \<noteq> 0 then byte OR 0x80 else byte)
     in (case CBB_add_u8 alloc d byte t of
           (False, t') \<Rightarrow> (False, t')
         | (True, t') \<Rightarrow> add_base128_loop alloc d v i t'))"

definition add_base128_integer :: "allocator \<Rightarrow> nat \<Rightarrow> u64 \<Rightarrow> cbb_tree \<Rightarrow> bool \<times> cbb_tree" where
  "add_base128_integer alloc d v t =
    (let len_len = base128_len (unat v);
         len_len = (if len_len = 0 then 1 else len_len)
     in add_base128_loop alloc d v len_len t)"

definition CBB_add_asn1 :: "allocator \<Rightarrow> nat \<Rightarrow> u32 \<Rightarrow> cbb_tree \<Rightarrow> bool \<times> cbb_tree" where
  "CBB_add_asn1 alloc d tag t =
    (case CBB_flush alloc d t of
       (False, t0) \<Rightarrow> (False, t0)
     | (True, t0) \<Rightarrow>
        (let tag_bits = ucast (drop_bit CBS_ASN1_TAG_SHIFT tag AND 0xe0) :: u8;
             tag_number = tag AND CBS_ASN1_TAG_NUMBER_MASK
         in (case (if tag_number \<ge> 0x1f
                   then (case CBB_add_u8 alloc d (tag_bits OR 0x1f) t0 of
                           (False, t1) \<Rightarrow> (False, t1)
                         | (True, t1) \<Rightarrow> add_base128_integer alloc d (ucast tag_number) t1)
                   else CBB_add_u8 alloc d (tag_bits OR ucast tag_number) t0) of
               (False, t2) \<Rightarrow> (False, t2)
             | (True, t2) \<Rightarrow>
                (let offset = cbb_base_len t2
                 in (case CBB_add_u8 alloc d 0 t2 of
                       (False, t3) \<Rightarrow> (False, t3)
                     | (True, t3) \<Rightarrow>
                        (True, cbb_push_child d t3
                           \<lparr>cbb_offset = offset, cbb_pending_len_len = 1, cbb_pending_is_asn1 = True\<rparr>))))))"

fun asn1_uint64_bytes_loop :: "allocator \<Rightarrow> nat \<Rightarrow> u64 \<Rightarrow> nat \<Rightarrow> bool \<Rightarrow> cbb_tree \<Rightarrow> bool \<times> bool \<times> cbb_tree" where
  "asn1_uint64_bytes_loop alloc d v 0 started t = (True, started, t)"
| "asn1_uint64_bytes_loop alloc d v (Suc k) started t =
    (let byte = ucast (drop_bit (8 * k) v AND 0xff) :: u8
     in if \<not> started \<and> byte = 0 then asn1_uint64_bytes_loop alloc d v k started t
        else (case (if \<not> started \<and> byte AND 0x80 \<noteq> 0 then CBB_add_u8 alloc d 0 t else (True, t)) of
                (False, t1) \<Rightarrow> (False, True, t1)
              | (True, t1) \<Rightarrow>
                 (case CBB_add_u8 alloc d byte t1 of
                    (False, t2) \<Rightarrow> (False, True, t2)
                  | (True, t2) \<Rightarrow> asn1_uint64_bytes_loop alloc d v k True t2)))"

text \<open>The child is the CBB at depth \<open>d + 1\<close>; the loop index \<open>i\<close> of the source is \<open>7 - k\<close>.\<close>

definition CBB_add_asn1_uint64 :: "allocator \<Rightarrow> nat \<Rightarrow> u64 \<Rightarrow> cbb_tree \<Rightarrow> bool \<times> cbb_tree" where
  "CBB_add_asn1_uint64 alloc d v t =
    (case CBB_add_asn1 alloc d CBS_ASN1_INTEGER t of
       (False, t1) \<Rightarrow> (False, t1)
     | (True, t1) \<Rightarrow>
        (case asn1_uint64_bytes_loop alloc (Suc d) v 8 False t1 of
           (False, _, t2) \<Rightarrow> (False, t2)
         | (True, started, t2) \<Rightarrow>
            (case (if \<not> started then CBB_add_u8 alloc (Suc d) 0 t2 else (True, t2)) of
               (False, t3) \<Rightarrow> (False, t3)
             | (True, t3) \<Rightarrow> CBB_flush alloc d t3)))"

definition CBB_add_asn1_octet_string :: "allocator \<Rightarrow> nat \<Rightarrow> u8 list \<Rightarrow> cbb_tree \<Rightarrow> bool \<times> cbb_tree" where
  "CBB_add_asn1_octet_string alloc d data t =
    (case CBB_add_asn1 alloc d CBS_ASN1_OCTETSTRING t of
       (False, t1) \<Rightarrow> (False, t1)
     | (True, t1) \<Rightarrow>
        (case CBB_add_bytes alloc (Suc d) data t1 of
           (False, t2) \<Rightarrow> (False, t2)
         | (True, t2) \<Rightarrow> CBB_flush alloc d t2))"

definition CBB_add_asn1_bool :: "allocator \<Rightarrow> nat \<Rightarrow> bool \<Rightarrow> cbb_tree \<Rightarrow> bool \<times> cbb_tree" where
  "CBB_add_asn1_bool alloc d value t =
    (case CBB_add_asn1 alloc d CBS_ASN1_BOOLEAN t of
       (False, t1) \<Rightarrow> (False, t1)
     | (True, t1) \<Rightarrow>
        (case CBB_add_u8 alloc (Suc d) (if value then 0xff else 0) t1 of
           (False, t2) \<Rightarrow> (False, t2)
         | (True, t2) \<Rightarrow> CBB_flush alloc d t2))"

end
