(* ===== verification/CBB_Refinement.thy ===== *)
theory CBB_Refinement imports Bytestring_CBB begin

text \<open>
  What the builder promises, and that cbb.c keeps it. The abstract builder \<open>cbb_spec\<close> is the bytes written so far and the
  open children; \<open>spec_flush\<close> closes children behind their length prefixes, \<open>spec_append\<close> writes and \<open>spec_open\<close> opens a
  child. \<open>ct_inv\<close> is the invariant of the concrete builder and \<open>ct_view\<close> its abstraction. The lemmas show that the buffer
  operations, \<open>CBB_flush\<close> and the functions that write keep the invariant and implement the abstract operations.
\<close>

section \<open>The buffer refines a byte list\<close>

definition cb_bytes :: "cbb_buffer_st \<Rightarrow> u8 list" where
  "cb_bytes b = take (cb_len b) (cb_buf b)"

definition cb_ok :: "cbb_buffer_st \<Rightarrow> bool" where
  "cb_ok b \<longleftrightarrow> length (cb_buf b) = cb_cap b \<and> cb_len b \<le> cb_cap b \<and> cb_cap b < SIZE_BOUND"

lemma length_cb_bytes: "cb_ok b \<Longrightarrow> length (cb_bytes b) = cb_len b"
  by (simp add: cb_ok_def cb_bytes_def)

lemma cbb_buffer_reserve_ok:
  assumes "malloc_ok alloc" and "cb_ok b" and "n < SIZE_BOUND"
    and "cbb_buffer_reserve alloc b n = (True, b')"
  shows "cb_ok b'" and "cb_len b' = cb_len b" and "cb_bytes b' = cb_bytes b"
    and "cb_len b + n \<le> cb_cap b'" and "cb_error b' = cb_error b" and "cb_can_resize b' = cb_can_resize b"
proof -
  let ?n = "size_add (cb_len b) n"
  have len: "cb_len b < SIZE_BOUND" using assms(2) by (simp add: cb_ok_def)
  from assms(4) have "\<not> ?n < cb_len b" by (auto simp: cbb_buffer_reserve_def cbb_fail_def Let_def split: if_splits)
  then have n: "?n = cb_len b + n" "?n < SIZE_BOUND"
    using size_add_overflow_iff [OF len assms(3)] by (auto simp: size_add_def)
  have "cb_ok b' \<and> cb_len b' = cb_len b \<and> cb_bytes b' = cb_bytes b \<and> cb_len b + n \<le> cb_cap b' \<and>
    cb_error b' = cb_error b \<and> cb_can_resize b' = cb_can_resize b"
  proof (cases "?n \<le> cb_cap b")
    case True
    with assms(2,4) n show ?thesis by (auto simp: cbb_buffer_reserve_def Let_def)
  next
    case False
    let ?c = "size_mul (cb_cap b) 2"
    let ?cap = "if ?c < cb_cap b \<or> ?c < ?n then ?n else ?c"
    from assms(4) False n obtain newbuf where
      nb: "payload_realloc alloc (cb_buf b) ?cap = Some newbuf"
      and b': "b' = b\<lparr>cb_buf := newbuf, cb_cap := ?cap\<rparr>"
      by (auto simp: cbb_buffer_reserve_def cbb_fail_def Let_def split: if_splits option.splits)
    have cap: "?n \<le> ?cap" "?cap < SIZE_BOUND" using n by (auto simp: size_mul_def SIZE_BOUND_def)
    have "cb_len b \<le> length (cb_buf b)" "cb_len b \<le> ?cap"
      using assms(2) cap n by (auto simp: cb_ok_def)
    note re = payload_realloc_Some [OF assms(1) nb] payload_realloc_Some(2) [OF assms(1) nb this]
    show ?thesis using re cap n b' by (simp add: cb_ok_def cb_bytes_def)
  qed
  then show "cb_ok b'" and "cb_len b' = cb_len b" and "cb_bytes b' = cb_bytes b"
    and "cb_len b + n \<le> cb_cap b'" and "cb_error b' = cb_error b"
    and "cb_can_resize b' = cb_can_resize b" by auto
qed

lemma cbb_buffer_reserve_fail: "cbb_buffer_reserve alloc b n = (False, b') \<Longrightarrow> cb_error b'"
  by (auto simp: cbb_buffer_reserve_def cbb_fail_def Let_def split: if_splits option.splits)

text \<open>The room an addition makes: the old contents stay, and the new bytes are inside the block.\<close>

lemma cbb_buffer_add_ok:
  assumes "malloc_ok alloc" and "cb_ok b" and "n < SIZE_BOUND"
    and "cbb_buffer_add alloc b n = (True, b')"
  shows "cb_ok b'" and "cb_len b' = cb_len b + n" and "take (cb_len b) (cb_buf b') = cb_bytes b"
    and "cb_error b' = cb_error b" and "cb_can_resize b' = cb_can_resize b"
proof -
  from assms(4) obtain b1 where r: "cbb_buffer_reserve alloc b n = (True, b1)"
    and b': "b' = b1\<lparr>cb_len := cb_len b1 + n\<rparr>"
    by (auto simp: cbb_buffer_add_def split: prod.splits bool.splits)
  note res = cbb_buffer_reserve_ok [OF assms(1-3) r]
  then show "cb_ok b'" and "cb_len b' = cb_len b + n" and "take (cb_len b) (cb_buf b') = cb_bytes b"
    and "cb_error b' = cb_error b" and "cb_can_resize b' = cb_can_resize b"
    by (simp_all add: b' cb_ok_def cb_bytes_def)
qed

lemma cbb_buffer_add_fail: "cbb_buffer_add alloc b n = (False, b') \<Longrightarrow> cb_error b'"
  by (auto simp: cbb_buffer_add_def split: prod.splits bool.splits dest: cbb_buffer_reserve_fail)

text \<open>Filling the room completes the append.\<close>

lemma cb_store_append:
  assumes "cb_ok b'" and "cb_len b' = cb_len b + length xs" and "take (cb_len b) (cb_buf b') = cb_bytes b"
    and "cb_ok b"
  shows "cb_ok (b'\<lparr>cb_buf := store_at (cb_len b) xs (cb_buf b')\<rparr>)"
    and "cb_bytes (b'\<lparr>cb_buf := store_at (cb_len b) xs (cb_buf b')\<rparr>) = cb_bytes b @ xs"
  using assms by (simp_all add: cb_ok_def cb_bytes_def take_store_at_end_eq)

lemma store_at_snoc:
  assumes "off + length xs < length blk"
  shows "store_at off (xs @ [x]) blk = store_at off xs (blk[off + length xs := x])"
  using assms by (intro nth_equalityI) (auto simp: nth_store_at nth_append nth_list_update)

lemma put_be_loop_eq:
  "off + k \<le> length blk \<Longrightarrow> put_be_loop k off v blk = (store_at off (be_bytes k v) blk, v div 256 ^ k)"
  by (induction k arbitrary: v blk) (simp_all add: store_at_snoc div_mult2_eq)

lemma cbb_buffer_add_u_ok:
  assumes "malloc_ok alloc" and "cb_ok b" and "k < SIZE_BOUND"
    and "cbb_buffer_add_u alloc b v k = (True, b')" and "0 < k"
  shows "cb_ok b'" and "cb_bytes b' = cb_bytes b @ be_bytes k (unat v)" and "unat v < 256 ^ k"
    and "cb_error b' = cb_error b" and "cb_can_resize b' = cb_can_resize b"
proof -
  from assms(4,5) obtain b1 where r: "cbb_buffer_add alloc b k = (True, b1)"
    by (auto simp: cbb_buffer_add_u_def split: prod.splits bool.splits)
  note add = cbb_buffer_add_ok [OF assms(1-3) r]
  have fit: "cb_len b + k \<le> length (cb_buf b1)" using add by (simp add: cb_ok_def)
  from assms(4,5) r have "unat v div 256 ^ k = 0"
    and b': "b' = b1\<lparr>cb_buf := store_at (cb_len b) (be_bytes k (unat v)) (cb_buf b1)\<rparr>"
    by (auto simp: cbb_buffer_add_u_def put_be_loop_eq [OF fit] cbb_fail_def split: if_splits)
  then show "unat v < 256 ^ k" by (simp add: div_eq_0_iff)
  show "cb_ok b'" and "cb_bytes b' = cb_bytes b @ be_bytes k (unat v)"
    unfolding b' using add assms(2) by (auto intro!: cb_store_append)
  show "cb_error b' = cb_error b" and "cb_can_resize b' = cb_can_resize b"
    using add by (simp_all add: b')
qed

section \<open>Flushing closes the pending prefixes\<close>

text \<open>
  The chain below a CBB whose contents start at position \<open>p\<close>: offsets in order, every prefix inside
  the output.
\<close>

fun chain_ok :: "nat \<Rightarrow> nat \<Rightarrow> CBB list \<Rightarrow> bool" where
  "chain_ok p n [] \<longleftrightarrow> p \<le> n"
| "chain_ok p n (c # cs) \<longleftrightarrow>
    p \<le> cbb_offset c \<and> 1 \<le> cbb_pending_len_len c \<and> cbb_pending_len_len c \<le> 3 \<and>
    (cbb_pending_is_asn1 c \<longrightarrow> cbb_pending_len_len c = 1) \<and>
    chain_ok (cbb_offset c + cbb_pending_len_len c) n cs"

text \<open>The prefix a child gets for contents of length \<open>n\<close>, and the limit on \<open>n\<close>.\<close>

definition prefix_bytes :: "CBB \<Rightarrow> nat \<Rightarrow> u8 list" where
  "prefix_bytes c n = (if cbb_pending_is_asn1 c then der_length n else be_bytes (cbb_pending_len_len c) n)"

definition prefix_fits :: "CBB \<Rightarrow> nat \<Rightarrow> bool" where
  "prefix_fits c n \<longleftrightarrow> (if cbb_pending_is_asn1 c then n \<le> 0xfffffffe else n < 256 ^ cbb_pending_len_len c)"

text \<open>The output from position \<open>p\<close> on, with every pending prefix filled in.\<close>

fun closed_bytes :: "nat \<Rightarrow> u8 list \<Rightarrow> CBB list \<Rightarrow> u8 list" where
  "closed_bytes p bs [] = drop p bs"
| "closed_bytes p bs (c # cs) =
    (let body = closed_bytes (cbb_offset c + cbb_pending_len_len c) bs cs
     in take (cbb_offset c - p) (drop p bs) @ prefix_bytes c (length body) @ body)"

fun closed_fits :: "u8 list \<Rightarrow> CBB list \<Rightarrow> bool" where
  "closed_fits bs [] \<longleftrightarrow> True"
| "closed_fits bs (c # cs) \<longleftrightarrow>
    closed_fits bs cs \<and> prefix_fits c (length (closed_bytes (cbb_offset c + cbb_pending_len_len c) bs cs))"

lemma chain_ok_le: "chain_ok p n cs \<Longrightarrow> p \<le> n"
  by (induction cs arbitrary: p) fastforce+

lemma take_store_at:
  assumes "off + length ys \<le> N" and "N \<le> length blk"
  shows "take N (store_at off ys blk) = store_at off ys (take N blk)"
  using assms by (intro nth_equalityI) (auto simp: nth_store_at)

text \<open>The length form the code selects is the minimal one.\<close>

lemma length_form_eq:
  "(if n > 0xffffff then (5, 0x84, n) else if n > 0xffff then (4, 0x83, n)
    else if n > 0xff then (3, 0x82, n) else if n > 0x7f then (2, 0x81, n)
    else (1, word_of_nat n, 0 :: nat)) =
   (if n < 128 then (1, word_of_nat n :: u8, 0)
    else (Suc (len_octets n), word_of_nat (128 + len_octets n), n))"
  by (simp add: len_octets_def)

lemma cb_bytes_store:
  assumes "cb_ok b" and "off + length ys \<le> cb_len b"
  shows "cb_ok (b\<lparr>cb_buf := store_at off ys (cb_buf b)\<rparr>)"
    and "cb_bytes (b\<lparr>cb_buf := store_at off ys (cb_buf b)\<rparr>) =
      take off (cb_bytes b) @ ys @ drop (off + length ys) (cb_bytes b)"
proof -
  show "cb_ok (b\<lparr>cb_buf := store_at off ys (cb_buf b)\<rparr>)" using assms by (simp add: cb_ok_def)
  have "cb_bytes (b\<lparr>cb_buf := store_at off ys (cb_buf b)\<rparr>) = store_at off ys (cb_bytes b)"
    using assms by (simp add: cb_ok_def cb_bytes_def take_store_at)
  then show "cb_bytes (b\<lparr>cb_buf := store_at off ys (cb_buf b)\<rparr>) =
      take off (cb_bytes b) @ ys @ drop (off + length ys) (cb_bytes b)"
    by (simp add: store_at_def)
qed

text \<open>The three ways a prefix is written.\<close>

lemma cbb_write_prefix_fixed:
  assumes "cb_ok b" and "\<not> cbb_pending_is_asn1 c" and "start = cbb_offset c + cbb_pending_len_len c"
    and "start \<le> cb_len b"
  shows "cbb_write_prefix alloc b c start =
    (if cb_len b - start < 256 ^ cbb_pending_len_len c
     then (True, b\<lparr>cb_buf := store_at (cbb_offset c) (be_bytes (cbb_pending_len_len c) (cb_len b - start)) (cb_buf b)\<rparr>)
     else cbb_fail (b\<lparr>cb_buf := store_at (cbb_offset c) (be_bytes (cbb_pending_len_len c) (cb_len b - start)) (cb_buf b)\<rparr>))"
proof -
  have "cbb_offset c + cbb_pending_len_len c \<le> length (cb_buf b)" using assms by (simp add: cb_ok_def)
  from put_be_loop_eq [OF this] show ?thesis
    using assms(2) by (simp add: cbb_write_prefix_def Let_def div_eq_0_iff)
qed

lemma cbb_write_prefix_short:
  assumes "cb_ok b" and "cbb_pending_is_asn1 c" and "start = cbb_offset c + 1"
    and "start \<le> cb_len b" and "cb_len b - start < 128"
  shows "cbb_write_prefix alloc b c start =
    (True, b\<lparr>cb_buf := store_at (cbb_offset c) [word_of_nat (cb_len b - start)] (cb_buf b)\<rparr>)"
proof -
  have "cbb_offset c < length (cb_buf b)" using assms by (simp add: cb_ok_def)
  then show ?thesis
    using assms(2,5) by (simp add: cbb_write_prefix_def Let_def length_form_eq store_at_single)
qed

text \<open>
  The long form makes room for the length octets, moves the contents along and writes the octets.
\<close>

lemma cbb_write_prefix_long:
  assumes "cb_ok b" and "cbb_pending_is_asn1 c" and "start = cbb_offset c + 1"
    and "start \<le> cb_len b" and "n = cb_len b - start" and "128 \<le> n" and "n \<le> 0xfffffffe"
    and "malloc_ok alloc" and "cbb_write_prefix alloc b c start = (True, b')"
  shows "cb_ok b'" and "cb_bytes b' = take (cbb_offset c) (cb_bytes b) @ der_length n @ drop start (cb_bytes b)"
    and "cb_error b' = cb_error b" and "cb_can_resize b' = cb_can_resize b"
proof -
  let ?e = "len_octets n" and ?off = "cbb_offset c"
  let ?i = "word_of_nat (128 + ?e) :: u8"
  have e: "1 \<le> ?e" "?e \<le> 4" by (rule len_octets_bounds)+
  from assms(2,5,6,7,9) e obtain b1 where add: "cbb_buffer_add alloc b ?e = (True, b1)"
    by (cases "cbb_buffer_add alloc b ?e")
      (auto simp: cbb_write_prefix_def Let_def length_form_eq cbb_fail_def split: bool.splits)
  have "?e < SIZE_BOUND" using e by (simp add: SIZE_BOUND_def)
  note b1 = cbb_buffer_add_ok [OF assms(8,1) this add]
  define b2 where "b2 = b1\<lparr>cb_buf := store_at (start + ?e) (drop start (cb_bytes b)) (cb_buf b1)\<rparr>"
  have body: "take n (drop start (cb_buf b1)) = drop start (cb_bytes b)"
  proof -
    have "n + start = cb_len b" using assms(4,5) by simp
    then show ?thesis by (simp only: take_drop b1(3))
  qed
  have lb: "length (cb_bytes b) = cb_len b" by (rule length_cb_bytes [OF assms(1)])
  have b2: "cb_ok b2" "cb_bytes b2 = take (start + ?e) (cb_bytes b1) @ drop start (cb_bytes b)"
  proof -
    have "start + ?e + length (drop start (cb_bytes b)) = cb_len b1" using b1(2) assms(4) lb by simp
    then show "cb_ok b2" "cb_bytes b2 = take (start + ?e) (cb_bytes b1) @ drop start (cb_bytes b)"
      unfolding b2_def using cb_bytes_store [OF b1(1)] length_cb_bytes [OF b1(1)] by simp_all
  qed
  have fit: "?off + 1 + ?e \<le> length (cb_buf b2)" "?off < length (cb_buf b2)"
    using b2(1) b1(2) assms(3,4) by (auto simp: cb_ok_def b2_def)
  have "n div 256 ^ ?e = 0" using assms(7) len_octets_fits [of n] by (simp add: div_eq_0_iff)
  then have b': "b' = b2\<lparr>cb_buf := store_at ?off (?i # be_bytes ?e n) (cb_buf b2)\<rparr>"
    using assms(2,5,6,7,9) e add body fit
    by (simp add: cbb_write_prefix_def Let_def length_form_eq put_be_loop_eq b2_def store_at_Cons del: of_nat_add)
  have fit2: "?off + length (?i # be_bytes ?e n) \<le> cb_len b2"
    using assms(3,4) b1(2) by (simp add: b2_def)
  note st = cb_bytes_store [OF b2(1) fit2]
  show "cb_ok b'" unfolding b' by (rule st(1))
  have "take ?off (cb_bytes b2) = take ?off (cb_bytes b)"
  proof -
    have "take ?off (cb_bytes b2) = take ?off (cb_buf b1)"
      using b2(2) b1(1,2) assms(3,4) by (simp add: cb_bytes_def min_def cb_ok_def)
    also have "\<dots> = take ?off (take (cb_len b) (cb_buf b1))"
      using assms(3,4) by (simp add: min_def)
    finally show ?thesis by (simp only: b1(3))
  qed
  moreover have "drop (?off + length (?i # be_bytes ?e n)) (cb_bytes b2) = drop start (cb_bytes b)"
    using b2(2) b1(1,2) assms(3,4) by (simp add: length_cb_bytes)
  ultimately show "cb_bytes b' = take ?off (cb_bytes b) @ der_length n @ drop start (cb_bytes b)"
    unfolding b' st(2) using assms(6) by (simp add: der_length_def del: of_nat_add)
  show "cb_error b' = cb_error b" and "cb_can_resize b' = cb_can_resize b"
    by (simp_all add: b' b2_def b1)
qed


lemma cbb_write_prefix_ok:
  assumes "malloc_ok alloc" and "cb_ok b" and "1 \<le> cbb_pending_len_len c"
    and "cbb_pending_is_asn1 c \<longrightarrow> cbb_pending_len_len c = 1"
    and "start = cbb_offset c + cbb_pending_len_len c" and "start \<le> cb_len b"
    and "cbb_write_prefix alloc b c start = (True, b')"
  shows "cb_ok b'" and "cb_bytes b' = take (cbb_offset c) (cb_bytes b) @
      prefix_bytes c (cb_len b - start) @ drop start (cb_bytes b)"
    and "prefix_fits c (cb_len b - start)"
    and "cb_error b' = cb_error b" and "cb_can_resize b' = cb_can_resize b"
proof -
  let ?n = "cb_len b - start"
  have "cb_ok b' \<and> cb_bytes b' = take (cbb_offset c) (cb_bytes b) @ prefix_bytes c ?n @ drop start (cb_bytes b) \<and>
    prefix_fits c ?n \<and> cb_error b' = cb_error b \<and> cb_can_resize b' = cb_can_resize b"
  proof (cases "cbb_pending_is_asn1 c")
    case False
    note w = cbb_write_prefix_fixed [OF assms(2) False assms(5,6), of alloc]
    from assms(7) w have fit: "?n < 256 ^ cbb_pending_len_len c"
      and b': "b' = b\<lparr>cb_buf := store_at (cbb_offset c) (be_bytes (cbb_pending_len_len c) ?n) (cb_buf b)\<rparr>"
      by (auto simp: cbb_fail_def split: if_splits)
    have "cbb_offset c + length (be_bytes (cbb_pending_len_len c) ?n) \<le> cb_len b" using assms(5,6) by simp
    from cb_bytes_store [OF assms(2) this] show ?thesis
      using False fit b' by (simp add: prefix_bytes_def prefix_fits_def assms(5))
  next
    case True
    with assms(4,5) have start: "start = cbb_offset c + 1" by simp
    show ?thesis
    proof (cases "?n < 128")
      case short: True
      have "b' = b\<lparr>cb_buf := store_at (cbb_offset c) [word_of_nat ?n] (cb_buf b)\<rparr>"
        using cbb_write_prefix_short [OF assms(2) True start assms(6) short, of alloc] assms(7) by simp
      moreover have "cbb_offset c + length [word_of_nat ?n :: u8] \<le> cb_len b" using start assms(6) by simp
      note cb_bytes_store [OF assms(2) this]
      ultimately show ?thesis
        using True short start by (simp add: prefix_bytes_def prefix_fits_def der_length_def)
    next
      case long: False
      have fit: "?n \<le> 0xfffffffe"
        using assms(7) True by (auto simp: cbb_write_prefix_def Let_def cbb_fail_def split: if_splits)
      from long have "128 \<le> ?n" by simp
      from cbb_write_prefix_long [OF assms(2) True start assms(6) refl this fit assms(1,7)] fit True
      show ?thesis by (simp add: prefix_bytes_def prefix_fits_def)
    qed
  qed
  then show "cb_ok b'" and "cb_bytes b' = take (cbb_offset c) (cb_bytes b) @
      prefix_bytes c (cb_len b - start) @ drop start (cb_bytes b)"
    and "prefix_fits c (cb_len b - start)"
    and "cb_error b' = cb_error b" and "cb_can_resize b' = cb_can_resize b" by auto
qed

lemma cbb_flush_children_ok:
  assumes "malloc_ok alloc" and "cb_ok b" and "chain_ok p (cb_len b) cs"
    and "cbb_flush_children alloc b cs = (True, b', cs')"
  shows "cs' = []" and "cb_ok b'" and "cb_bytes b' = take p (cb_bytes b) @ closed_bytes p (cb_bytes b) cs"
    and "closed_fits (cb_bytes b) cs" and "cb_error b' = cb_error b" and "cb_can_resize b' = cb_can_resize b"
proof -
  have "cs' = [] \<and> cb_ok b' \<and> cb_bytes b' = take p (cb_bytes b) @ closed_bytes p (cb_bytes b) cs \<and>
    closed_fits (cb_bytes b) cs \<and> cb_error b' = cb_error b \<and> cb_can_resize b' = cb_can_resize b"
    using assms(3,4)
  proof (induction cs arbitrary: p b' cs')
    case Nil
    then show ?case using assms(2) by simp
  next
    case (Cons c cs)
    let ?start = "cbb_offset c + cbb_pending_len_len c"
    let ?body = "closed_bytes ?start (cb_bytes b) cs"
    from Cons.prems(1) have c: "p \<le> cbb_offset c" "1 \<le> cbb_pending_len_len c"
      "cbb_pending_is_asn1 c \<longrightarrow> cbb_pending_len_len c = 1" "chain_ok ?start (cb_len b) cs" by auto
    have le: "?start \<le> cb_len b" using c(4) by (rule chain_ok_le)
    have sz: "size_add (cbb_offset c) (cbb_pending_len_len c) = ?start"
      using le assms(2) by (intro size_add_id) (simp add: cb_ok_def)
    from Cons.prems(2) c(2) sz obtain b1 cs1 where f: "cbb_flush_children alloc b cs = (True, b1, cs1)"
      and lb: "?start \<le> cb_len b1" and w: "cbb_write_prefix alloc b1 c ?start = (True, b')" and cs': "cs' = []"
      by (auto simp: Let_def split: prod.splits bool.splits if_splits)
    from Cons.IH [OF c(4) f] have b1: "cb_ok b1" "cb_bytes b1 = take ?start (cb_bytes b) @ ?body"
      "closed_fits (cb_bytes b) cs" "cb_error b1 = cb_error b" "cb_can_resize b1 = cb_can_resize b" by auto
    note wp = cbb_write_prefix_ok [OF assms(1) b1(1) c(2,3) refl lb w]
    have lbs: "length (cb_bytes b) = cb_len b" by (rule length_cb_bytes [OF assms(2)])
    have n: "cb_len b1 - ?start = length ?body"
      using b1(2) le lbs length_cb_bytes [OF b1(1)] by simp
    have "take (cbb_offset c) (cb_bytes b1) = take p (cb_bytes b) @ take (cbb_offset c - p) (drop p (cb_bytes b))"
      using b1(2) c(1) le lbs by (simp add: take_add [symmetric] min_def)
    moreover have "drop ?start (cb_bytes b1) = ?body" using b1(2) le lbs by simp
    ultimately show ?case using wp b1 cs' unfolding n by (simp add: Let_def)
  qed
  then show "cs' = []" and "cb_ok b'" and "cb_bytes b' = take p (cb_bytes b) @ closed_bytes p (cb_bytes b) cs"
    and "closed_fits (cb_bytes b) cs" and "cb_error b' = cb_error b" and "cb_can_resize b' = cb_can_resize b"
    by auto
qed

section \<open>The builder refines its specification\<close>

text \<open>
  The abstract state of a builder: the bytes written so far and the CBBs below the top level. The
  specification of the operations works on this state alone.
\<close>

fun chain_start :: "nat \<Rightarrow> CBB list \<Rightarrow> nat" where
  "chain_start p [] = p"
| "chain_start p (c # cs) = chain_start (cbb_offset c + cbb_pending_len_len c) cs"

type_synonym cbb_spec = "u8 list \<times> CBB list"

definition spec_flush :: "nat \<Rightarrow> cbb_spec \<Rightarrow> cbb_spec" where
  "spec_flush d s =
    (let p = chain_start 0 (take d (snd s))
     in (take p (fst s) @ closed_bytes p (fst s) (drop d (snd s)), take d (snd s)))"

definition spec_append :: "nat \<Rightarrow> u8 list \<Rightarrow> cbb_spec \<Rightarrow> cbb_spec" where
  "spec_append d xs s = (fst (spec_flush d s) @ xs, take d (snd s))"

definition spec_open :: "nat \<Rightarrow> nat \<Rightarrow> bool \<Rightarrow> cbb_spec \<Rightarrow> cbb_spec" where
  "spec_open d k asn1 s =
    (fst (spec_flush d s) @ replicate k 0,
     take d (snd s) @ [\<lparr>cbb_offset = length (fst (spec_flush d s)), cbb_pending_len_len = k,
                        cbb_pending_is_asn1 = asn1\<rparr>])"

definition ct_inv :: "cbb_tree \<Rightarrow> bool" where
  "ct_inv t \<longleftrightarrow>
    (case ct_base t of
       None \<Rightarrow> False
     | Some b \<Rightarrow> cb_ok b \<and> \<not> cb_error b \<and> ct_chain t \<noteq> [] \<and> chain_ok 0 (cb_len b) (tl (ct_chain t)))"

definition ct_view :: "cbb_tree \<Rightarrow> cbb_spec" where
  "ct_view t = (case ct_base t of None \<Rightarrow> [] | Some b \<Rightarrow> cb_bytes b, tl (ct_chain t))"

lemma chain_ok_iff: "chain_ok p n cs \<longleftrightarrow> chain_ok p (chain_start p cs) cs \<and> chain_start p cs \<le> n"
  by (induction cs arbitrary: p) auto

lemma chain_ok_append:
  "chain_ok p n (xs @ ys) \<longleftrightarrow> chain_ok p (chain_start p xs) xs \<and> chain_ok (chain_start p xs) n ys"
proof (induction xs arbitrary: p)
  case Nil
  then show ?case using chain_ok_le by auto
qed auto

lemma chain_start_append: "chain_start p (xs @ ys) = chain_start (chain_start p xs) ys"
  by (induction xs arbitrary: p) auto

lemma ct_invE:
  assumes "ct_inv t"
  obtains b top cs where "ct_base t = Some b" "ct_chain t = top # cs" "cb_ok b" "\<not> cb_error b"
    "chain_ok 0 (cb_len b) cs" "ct_view t = (cb_bytes b, cs)"
  using assms by (cases "ct_chain t") (auto simp: ct_inv_def ct_view_def split: option.splits)

lemma CBB_flush_ok:
  assumes "malloc_ok alloc" and "ct_inv t" and "CBB_flush alloc d t = (True, t')"
  shows "ct_inv t'" and "ct_view t' = spec_flush d (ct_view t)" and "length (ct_chain t') = Suc d"
    and "closed_fits (fst (ct_view t)) (drop d (snd (ct_view t)))"
    and "map_option cb_can_resize (ct_base t') = map_option cb_can_resize (ct_base t)"
proof -
  from assms(2) obtain b top cs where t: "ct_base t = Some b" "ct_chain t = top # cs" "cb_ok b" "\<not> cb_error b"
    "chain_ok 0 (cb_len b) cs" "ct_view t = (cb_bytes b, cs)" by (rule ct_invE)
  let ?p = "chain_start 0 (take d cs)"
  from assms(3) t obtain b' cs' where d: "d \<le> length cs"
    and f: "cbb_flush_children alloc b (drop d cs) = (True, b', cs')"
    and t': "t' = t\<lparr>ct_base := Some b', ct_chain := top # take d cs @ cs'\<rparr>"
    by (auto simp: CBB_flush_def split: prod.splits if_splits)
  from t(5) have ch: "chain_ok 0 ?p (take d cs)" "chain_ok ?p (cb_len b) (drop d cs)"
    using chain_ok_append [of 0 "cb_len b" "take d cs" "drop d cs"] by auto
  note fl = cbb_flush_children_ok [OF assms(1) t(3) ch(2) f]
  have "?p \<le> cb_len b'"
    using chain_ok_le [OF ch(2)] fl(3) length_cb_bytes [OF t(3)] length_cb_bytes [OF fl(2)] by simp
  with ch(1) have "chain_ok 0 (cb_len b') (take d cs)" using chain_ok_iff by blast
  with t t' fl d show "ct_inv t'" "ct_view t' = spec_flush d (ct_view t)" "length (ct_chain t') = Suc d"
    "closed_fits (fst (ct_view t)) (drop d (snd (ct_view t)))"
    "map_option cb_can_resize (ct_base t') = map_option cb_can_resize (ct_base t)"
    by (simp_all add: ct_inv_def ct_view_def spec_flush_def Let_def)
qed

text \<open>An operation on the buffer that appends \<open>xs\<close> is an append at depth \<open>d\<close>.\<close>

lemma cbb_op_append:
  assumes "malloc_ok alloc" and "ct_inv t" and "cbb_op alloc d t f = (True, t')"
    and "\<And>b b'. cb_ok b \<Longrightarrow> f b = (True, b') \<Longrightarrow>
      cb_ok b' \<and> cb_bytes b' = cb_bytes b @ xs \<and> cb_error b' = cb_error b \<and> cb_can_resize b' = cb_can_resize b"
  shows "ct_inv t'" and "ct_view t' = spec_append d xs (ct_view t)" and "length (ct_chain t') = Suc d"
    and "map_option cb_can_resize (ct_base t') = map_option cb_can_resize (ct_base t)"
proof -
  from assms(3) obtain t1 b1 b2 where fl: "CBB_flush alloc d t = (True, t1)"
    and b1: "ct_base t1 = Some b1" and f: "f b1 = (True, b2)" and t': "t' = t1\<lparr>ct_base := Some b2\<rparr>"
    by (auto simp: cbb_op_def split: prod.splits bool.splits option.splits)
  note t1 = CBB_flush_ok [OF assms(1,2) fl]
  from t1(1) b1 have ok: "cb_ok b1" "\<not> cb_error b1" "chain_ok 0 (cb_len b1) (tl (ct_chain t1))"
    "ct_chain t1 \<noteq> []" by (auto simp: ct_inv_def)
  from assms(4) [OF ok(1) f] have b2: "cb_ok b2" "cb_bytes b2 = cb_bytes b1 @ xs"
    "cb_error b2 = cb_error b1" "cb_can_resize b2 = cb_can_resize b1" by auto
  have "cb_len b1 \<le> cb_len b2" using b2(2) length_cb_bytes [OF ok(1)] length_cb_bytes [OF b2(1)] by simp
  then have "chain_ok 0 (cb_len b2) (tl (ct_chain t1))" using ok(3) chain_ok_iff le_trans by blast
  moreover have "cb_bytes b1 = fst (spec_flush d (ct_view t))" "tl (ct_chain t1) = take d (snd (ct_view t))"
    using t1(2) b1 by (auto simp: ct_view_def spec_flush_def Let_def)
  ultimately show "ct_inv t'" "ct_view t' = spec_append d xs (ct_view t)" "length (ct_chain t') = Suc d"
    "map_option cb_can_resize (ct_base t') = map_option cb_can_resize (ct_base t)"
    using ok b2 t1 b1 by (simp_all add: t' ct_inv_def ct_view_def spec_append_def)
qed


lemma CBB_add_bytes_ok:
  assumes "malloc_ok alloc" and "ct_inv t" and "length data < SIZE_BOUND"
    and "CBB_add_bytes alloc d data t = (True, t')"
  shows "ct_inv t' \<and> ct_view t' = spec_append d data (ct_view t) \<and> length (ct_chain t') = Suc d"
proof -
  let ?f = "\<lambda>base. case cbb_buffer_add alloc base (length data) of
        (False, b) \<Rightarrow> (False, b)
      | (True, b) \<Rightarrow> (True, b\<lparr>cb_buf := store_at (cb_len base) data (cb_buf b)\<rparr>)"
  have f: "cb_ok b' \<and> cb_bytes b' = cb_bytes b @ data \<and> cb_error b' = cb_error b \<and>
    cb_can_resize b' = cb_can_resize b" if "cb_ok b" "?f b = (True, b')" for b b'
  proof -
    from that(2) obtain b1 where add: "cbb_buffer_add alloc b (length data) = (True, b1)"
      and b': "b' = b1\<lparr>cb_buf := store_at (cb_len b) data (cb_buf b1)\<rparr>"
      by (auto split: prod.splits bool.splits)
    note a = cbb_buffer_add_ok [OF assms(1) that(1) assms(3) add]
    from cb_store_append [OF a(1-3) that(1)] a show ?thesis by (simp add: b')
  qed
  from cbb_op_append(1-3) [OF assms(1,2) assms(4) [unfolded CBB_add_bytes_def] f]
  show ?thesis by simp
qed

lemma cbb_op_add_u:
  assumes "malloc_ok alloc" and "ct_inv t" and "0 < k" and "k < SIZE_BOUND"
    and "cbb_op alloc d t (\<lambda>b. cbb_buffer_add_u alloc b v k) = (True, t')"
  shows "ct_inv t' \<and> ct_view t' = spec_append d (be_bytes k (unat v)) (ct_view t) \<and> length (ct_chain t') = Suc d"
proof -
  have f: "cb_ok b' \<and> cb_bytes b' = cb_bytes b @ be_bytes k (unat v) \<and> cb_error b' = cb_error b \<and>
    cb_can_resize b' = cb_can_resize b" if "cb_ok b" "cbb_buffer_add_u alloc b v k = (True, b')" for b b'
    using cbb_buffer_add_u_ok [OF assms(1) that(1) assms(4) that(2) assms(3)] by simp
  from cbb_op_append(1-3) [OF assms(1,2,5) f] show ?thesis by simp
qed

lemma be_bytes_1: "be_bytes 1 n = [word_of_nat n]"
  by (simp only: One_nat_def be_bytes.simps append_Nil)

lemma CBB_add_u8_ok:
  assumes "malloc_ok alloc" and "ct_inv t" and "CBB_add_u8 alloc d v t = (True, t')"
  shows "ct_inv t'" and "ct_view t' = spec_append d [v] (ct_view t)" and "length (ct_chain t') = Suc d"
proof -
  have "be_bytes 1 (unat (ucast v :: u32)) = [v]" by (simp add: be_bytes_1 unat_ucast_u8)
  with cbb_op_add_u [OF assms(1,2), of 1 d "ucast v" t'] assms(3) [unfolded CBB_add_u8_def]
  show "ct_inv t'" and "ct_view t' = spec_append d [v] (ct_view t)" and "length (ct_chain t') = Suc d"
    by (simp_all add: SIZE_BOUND_def)
qed

lemma spec_flush_idem: "length (snd s) \<le> d \<Longrightarrow> spec_flush d s = s"
  by (cases s) (simp add: spec_flush_def Let_def)

lemma spec_flush_append: "spec_flush d (spec_append d xs s) = spec_append d xs s"
  by (rule spec_flush_idem) (simp add: spec_append_def)

lemma spec_flush_flush: "spec_flush d (spec_flush d s) = spec_flush d s"
  by (rule spec_flush_idem) (simp add: spec_flush_def Let_def)

lemma snd_spec_append [simp]: "snd (spec_append d xs s) = take d (snd s)"
  by (simp add: spec_append_def)

lemma fst_spec_append: "fst (spec_append d xs s) = fst (spec_flush d s) @ xs"
  by (simp add: spec_append_def)

lemma spec_append_append: "spec_append d ys (spec_append d xs s) = spec_append d (xs @ ys) s"
  by (subst spec_append_def) (simp add: spec_flush_append fst_spec_append, simp add: spec_append_def)

lemma spec_append_flush: "spec_append d xs (spec_flush d s) = spec_append d xs s"
  unfolding spec_append_def spec_flush_flush by (simp add: spec_flush_def Let_def)

lemma spec_append_Nil: "spec_append d [] s = spec_flush d s"
  by (simp add: spec_append_def spec_flush_def Let_def)

subsection \<open>Base 128 and tags\<close>

lemma base128_len_pos: "0 < n \<Longrightarrow> base128_len n = Suc (base128_len (n div 128))"
  by (subst base128_len.simps) simp

text \<open>The bytes the loop writes for the lowest \<open>k\<close> digits.\<close>

fun base128_digits :: "nat \<Rightarrow> nat \<Rightarrow> u8 list" where
  "base128_digits n 0 = []"
| "base128_digits n (Suc i) =
    (if i \<noteq> 0 then word_of_nat (128 + n div 128 ^ i mod 128) else word_of_nat (n mod 128)) # base128_digits n i"

lemma base128_byte:
  "ucast (drop_bit (7 * i) (v :: u64) AND 0x7f) = (word_of_nat (unat v div 128 ^ i mod 128) :: u8)"
  "(word_of_nat (n mod 128) :: u8) OR 0x80 = word_of_nat (128 + n mod 128)"
proof -
  have m: "(0x7f :: u64) = mask 7" by (simp add: mask_eq_exp_minus_1)
  have "unat (drop_bit (7 * i) v AND 0x7f) = unat v div 2 ^ (7 * i) mod 2 ^ 7"
    unfolding m unat_and_mask unat_drop_bit ..
  then have "unat (drop_bit (7 * i) v AND 0x7f) = unat v div 128 ^ i mod 128"
    by (simp add: power_mult)
  then show "ucast (drop_bit (7 * i) v AND 0x7f) = (word_of_nat (unat v div 128 ^ i mod 128) :: u8)"
    by (simp add: word_unat_eq_iff unsigned_ucast_eq unat_of_nat take_bit_eq_mod)
  have "unat (word_of_nat (n mod 128) :: u8) < 2 ^ 7"
    using mod_less_divisor [of 128 n] by (simp add: unat_word_of_nat_u8 del: of_nat_mod)
  from shl_or_eq_add [OF this, of 1]
  show "(word_of_nat (n mod 128) :: u8) OR 0x80 = word_of_nat (128 + n mod 128)"
    by (simp add: or.commute)
qed

lemma add_base128_loop_ok:
  assumes "malloc_ok alloc" and "ct_inv t" and "add_base128_loop alloc d v k t = (True, t')"
  shows "ct_inv t'" and "length (snd (ct_view t)) \<le> d \<or> 0 < k \<Longrightarrow> ct_view t' = spec_append d (base128_digits (unat v) k) (ct_view t)"
    and "0 < k \<Longrightarrow> length (ct_chain t') = Suc d"
proof -
  have "ct_inv t' \<and> (length (snd (ct_view t)) \<le> d \<or> 0 < k \<longrightarrow>
      ct_view t' = spec_append d (base128_digits (unat v) k) (ct_view t)) \<and> (0 < k \<longrightarrow> length (ct_chain t') = Suc d)"
    using assms(2,3)
  proof (induction k arbitrary: t)
    case 0
    then show ?case by (simp add: spec_append_Nil spec_flush_idem)
  next
    case (Suc k)
    let ?b = "if k \<noteq> 0 then word_of_nat (128 + unat v div 128 ^ k mod 128) else word_of_nat (unat v mod 128) :: u8"
    have "(if k \<noteq> 0 then ucast (drop_bit (7 * k) v AND 0x7f) OR 0x80 else ucast (drop_bit (7 * k) v AND 0x7f)) = ?b"
      unfolding base128_byte by (simp del: of_nat_mod of_nat_add)
    with Suc.prems(2) obtain t1 where u8: "CBB_add_u8 alloc d ?b t = (True, t1)"
      and r: "add_base128_loop alloc d v k t1 = (True, t')"
      unfolding add_base128_loop.simps(2) Let_def by (auto split: prod.splits bool.splits)
    note t1 = CBB_add_u8_ok [OF assms(1) Suc.prems(1) u8]
    have "length (snd (ct_view t1)) \<le> d" using t1(2) by (simp add: spec_append_def)
    with Suc.IH [OF t1(1) r] t1 r show ?case by (cases k) (auto simp: spec_append_append)
  qed
  then show "ct_inv t'" and "length (snd (ct_view t)) \<le> d \<or> 0 < k \<Longrightarrow> ct_view t' = spec_append d (base128_digits (unat v) k) (ct_view t)"
    and "0 < k \<Longrightarrow> length (ct_chain t') = Suc d" by auto
qed

section \<open>Properties\<close>

text \<open>
  C3: \<open>CBB_flush\<close> on a builder with any nesting of open children implements the abstract builder:
  it keeps the invariant and closes the children below, each behind its length prefix.
\<close>

theorem flush_refines_spec:
  assumes "malloc_ok alloc" and "ct_inv t" and "CBB_flush alloc d t = (True, t')"
  shows "ct_inv t' \<and> ct_view t' = spec_flush d (ct_view t) \<and> length (ct_chain t') = Suc d"
  using CBB_flush_ok [OF assms] by simp

theorem flush_refines_spec_witness:
  "ct_view (snd (CBB_flush (\<lambda>n. Some (replicate n 0)) 0
     \<lparr>ct_base = Some \<lparr>cb_buf = [48, 0, 5, 5], cb_len = 4, cb_cap = 4, cb_can_resize = True, cb_error = False\<rparr>,
      ct_chain = [\<lparr>cbb_offset = 0, cbb_pending_len_len = 0, cbb_pending_is_asn1 = False\<rparr>,
        \<lparr>cbb_offset = 1, cbb_pending_len_len = 1, cbb_pending_is_asn1 = True\<rparr>]\<rparr>)) = ([48, 2, 5, 5], [])"
proof -
  let ?a = "\<lambda>n. Some (replicate n 0) :: u8 list option"
  let ?t = "\<lparr>ct_base = Some \<lparr>cb_buf = [48, 0, 5, 5], cb_len = 4, cb_cap = 4, cb_can_resize = True, cb_error = False\<rparr>,
      ct_chain = [\<lparr>cbb_offset = 0, cbb_pending_len_len = 0, cbb_pending_is_asn1 = False\<rparr>,
        \<lparr>cbb_offset = 1, cbb_pending_len_len = 1, cbb_pending_is_asn1 = True\<rparr>]\<rparr> :: cbb_tree"
  have m: "malloc_ok ?a" by (simp add: malloc_ok_def)
  have i: "ct_inv ?t" by (simp add: ct_inv_def cb_ok_def SIZE_BOUND_def)
  have f: "fst (CBB_flush ?a 0 ?t)"
    by (simp add: CBB_flush_def size_add_def SIZE_BOUND_def cbb_write_prefix_def Let_def)
  then obtain t' where t': "CBB_flush ?a 0 ?t = (True, t')" by (cases "CBB_flush ?a 0 ?t") auto
  have v: "ct_view ?t = ([48, 0, 5, 5], [\<lparr>cbb_offset = 1, cbb_pending_len_len = 1, cbb_pending_is_asn1 = True\<rparr>])"
    by (simp add: ct_view_def cb_bytes_def)
  have "ct_view t' = spec_flush 0 (ct_view ?t)" using flush_refines_spec [OF m i t'] by blast
  then have "ct_view t' = ([48, 2, 5, 5], [])" unfolding v by (simp add: spec_flush_def prefix_bytes_def der_length_def)
  then show ?thesis unfolding t' snd_conv .
qed

end
