(* ===== verification/CBB_Encoding.thy ===== *)
theory CBB_Encoding imports CBB_Refinement begin

text \<open>
  What the builder writes: tags, base-128 integers, length-prefixed children and the ASN.1 functions of cbb.c, as bytes of
  the encodings of theory \<open>DER\<close>. \<open>appends t d xs t'\<close> says that the builder at depth \<open>d\<close> gained the bytes \<open>xs\<close>, \<open>opens\<close> that it
  gained an open child; both compose, so the encoding of a structure follows from those of its parts.
\<close>

fun base128_hi :: "nat \<Rightarrow> nat \<Rightarrow> u8 list" where
  "base128_hi n 0 = []"
| "base128_hi n (Suc i) = word_of_nat (128 + n div 128 ^ i mod 128) # base128_hi n i"

lemma base128_hi_snoc:
  "base128_hi n (Suc k) = base128_hi (n div 128) k @ [word_of_nat (128 + n mod 128)]"
  by (induction k) (simp_all add: div_mult2_eq del: of_nat_add of_nat_mod)

lemma base128_hi_pre: "base128_hi n (base128_len n) = base128_pre n"
proof (induction n rule: base128_len.induct)
  case (1 n)
  show ?case
  proof (cases "n = 0")
    case False
    then have "base128_hi n (base128_len n) = base128_hi (n div 128) (base128_len (n div 128)) @ [word_of_nat (128 + n mod 128)]"
      by (simp only: base128_len_pos base128_hi_snoc)
    with 1 False show ?thesis by (subst base128_pre.simps) (simp del: of_nat_add)
  qed (simp add: base128_len.simps)
qed

lemma base128_digits_hi:
  "base128_digits n (Suc k) = base128_hi (n div 128) k @ [word_of_nat (n mod 128)]"
  by (induction k) (simp_all add: div_mult2_eq del: of_nat_add of_nat_mod)

lemma base128_digits_eq: "base128_digits n (if base128_len n = 0 then 1 else base128_len n) = base128 n"
proof (cases "n = 0")
  case True
  then show ?thesis by (simp add: base128_len.simps base128_def)
next
  case False
  then have "base128_digits n (base128_len n) = base128 n"
    by (simp only: base128_len_pos base128_digits_hi base128_hi_pre base128_def)
  with False show ?thesis by (simp add: base128_len_pos)
qed

text \<open>An operation of the builder that appends \<open>xs\<close> at depth \<open>d\<close>.\<close>

definition appends :: "cbb_tree \<Rightarrow> nat \<Rightarrow> u8 list \<Rightarrow> cbb_tree \<Rightarrow> bool" where
  "appends t d xs t' \<longleftrightarrow> ct_inv t' \<and> ct_view t' = spec_append d xs (ct_view t) \<and> length (ct_chain t') = Suc d"

lemma appends_trans: "appends t d xs t' \<Longrightarrow> appends t' d ys t'' \<Longrightarrow> appends t d (xs @ ys) t''"
  by (simp add: appends_def spec_append_append)

lemma appends_flush: "malloc_ok alloc \<Longrightarrow> ct_inv t \<Longrightarrow> CBB_flush alloc d t = (True, t') \<Longrightarrow> appends t d [] t'"
  using CBB_flush_ok(1-3) [of alloc t d t'] by (simp add: appends_def spec_append_Nil)

lemma appends_inv: "appends t d xs t' \<Longrightarrow> ct_inv t'"
  by (simp add: appends_def)

lemma appends_u8: "malloc_ok alloc \<Longrightarrow> ct_inv t \<Longrightarrow> CBB_add_u8 alloc d v t = (True, t') \<Longrightarrow> appends t d [v] t'"
  using CBB_add_u8_ok [of alloc t d v t'] by (simp add: appends_def)

lemma appends_bytes: "malloc_ok alloc \<Longrightarrow> ct_inv t \<Longrightarrow> length data < SIZE_BOUND \<Longrightarrow>
    CBB_add_bytes alloc d data t = (True, t') \<Longrightarrow> appends t d data t'"
  using CBB_add_bytes_ok [of alloc t data d t'] by (simp add: appends_def)

lemma appends_base128:
  assumes "malloc_ok alloc" and "ct_inv t" and "add_base128_integer alloc d v t = (True, t')"
  shows "appends t d (base128 (unat v)) t'"
proof -
  let ?k = "if base128_len (unat v) = 0 then 1 else base128_len (unat v)"
  have "add_base128_loop alloc d v ?k t = (True, t')" using assms(3) by (simp add: add_base128_integer_def Let_def)
  moreover have "0 < ?k" by simp
  ultimately show ?thesis using add_base128_loop_ok [OF assms(1,2)] base128_digits_eq [of "unat v"]
    unfolding appends_def by metis
qed

lemma tag_bits_eq: "(ucast (drop_bit CBS_ASN1_TAG_SHIFT tag AND 0xe0) :: u8) = tag_bits tag"
proof -
  have "(0xe0 :: u32) = ucast (0xe0 :: u8)" by simp
  then show ?thesis unfolding tag_bits_def by (intro bit_word_eqI) (auto simp: bit_simps)
qed

lemma unat_ucast_tag: "unat (ucast (w :: u32) :: u64) = unat w"
  by (simp add: unsigned_ucast_eq take_bit_nat_eq_self_iff order.strict_trans2 [OF unsigned_less])

lemma appends_tag:
  assumes "malloc_ok alloc" and "ct_inv t0"
    and "(if tag_number tag \<ge> 0x1f
          then (case CBB_add_u8 alloc d (tag_bits tag OR 0x1f) t0 of
                  (False, t1) \<Rightarrow> (False, t1)
                | (True, t1) \<Rightarrow> add_base128_integer alloc d (ucast (tag_number tag)) t1)
          else CBB_add_u8 alloc d (tag_bits tag OR ucast (tag_number tag)) t0) = (True, t')"
  shows "appends t0 d (der_tag tag) t'"
proof (cases "tag_number tag \<ge> 0x1f")
  case True
  with assms(3) obtain t1 where u8: "CBB_add_u8 alloc d (tag_bits tag OR 0x1f) t0 = (True, t1)"
    and b: "add_base128_integer alloc d (ucast (tag_number tag)) t1 = (True, t')"
    by (auto split: prod.splits bool.splits)
  note a = appends_u8 [OF assms(1,2) u8]
  from appends_trans [OF a appends_base128 [OF assms(1) appends_inv [OF a] b]] True
  show ?thesis by (simp add: der_tag_def unat_ucast_tag linorder_not_less [symmetric])
next
  case False
  with appends_u8 [OF assms(1,2)] assms(3) show ?thesis by (simp add: der_tag_def linorder_not_le)
qed

text \<open>An operation that appends \<open>xs\<close> at depth \<open>d\<close> and opens a child there.\<close>

definition opens :: "cbb_tree \<Rightarrow> nat \<Rightarrow> u8 list \<Rightarrow> nat \<Rightarrow> bool \<Rightarrow> cbb_tree \<Rightarrow> bool" where
  "opens t d xs k asn1 t' \<longleftrightarrow>
    ct_inv t' \<and> ct_view t' = spec_open d k asn1 (spec_append d xs (ct_view t)) \<and> length (ct_chain t') = Suc (Suc d)"

lemma opens_push:
  assumes "appends t d xs t1" and "appends t1 d (replicate k 0) t2" and "1 \<le> k" and "k \<le> 3" and "asn1 \<longrightarrow> k = 1"
    and "off = length (fst (ct_view t1))"
  shows "opens t d xs k asn1
    (cbb_push_child d t2 \<lparr>cbb_offset = off, cbb_pending_len_len = k, cbb_pending_is_asn1 = asn1\<rparr>)"
proof -
  let ?c = "\<lparr>cbb_offset = off, cbb_pending_len_len = k, cbb_pending_is_asn1 = asn1\<rparr>"
  from assms(2) have i2: "ct_inv t2" and v2: "ct_view t2 = spec_append d (replicate k 0) (ct_view t1)"
    and l2: "length (ct_chain t2) = Suc d" by (auto simp: appends_def)
  from i2 obtain b top cs where t2: "ct_base t2 = Some b" "ct_chain t2 = top # cs" "cb_ok b" "\<not> cb_error b"
    "chain_ok 0 (cb_len b) cs" "ct_view t2 = (cb_bytes b, cs)" by (rule ct_invE)
  have fl: "spec_flush d (ct_view t1) = ct_view t1"
    using assms(1) spec_flush_append by (metis appends_def)
  have bytes: "cb_bytes b = fst (ct_view t1) @ replicate k 0"
    using v2 t2(6) by (simp add: spec_append_def fl)
  then have len: "cb_len b = off + k" using length_cb_bytes [OF t2(3)] assms(6) by simp
  have cs: "cs = take d (snd (ct_view t1))" using v2 t2(6) by (simp add: spec_append_def)
  have start: "chain_start 0 cs \<le> off"
  proof -
    obtain b1 cs1 where "cb_ok b1" "chain_ok 0 (cb_len b1) cs1" "ct_view t1 = (cb_bytes b1, cs1)"
      using assms(1) ct_invE [of t1] by (metis appends_def)
    moreover have "take d cs1 = cs1" using assms(1) calculation(3) fl by (metis snd_conv snd_spec_append spec_append_Nil)
    ultimately show ?thesis using cs assms(6) length_cb_bytes chain_ok_iff by (metis fst_conv snd_conv)
  qed
  have "chain_ok 0 (cb_len b) (cs @ [?c])"
    using t2(5) start assms(3,4,5) len by (simp add: chain_ok_append chain_ok_iff [of 0 "off + k"])
  then have inv: "ct_inv (cbb_push_child d t2 ?c)"
    using t2 l2 by (simp add: ct_inv_def cbb_push_child_def)
  have v1: "ct_view t1 = spec_append d xs (ct_view t)" using assms(1) by (simp add: appends_def)
  have "ct_view (cbb_push_child d t2 ?c) = (cb_bytes b, cs @ [?c])"
    using t2 l2 by (simp add: ct_view_def cbb_push_child_def)
  also have "\<dots> = spec_open d k asn1 (ct_view t1)"
    by (simp add: spec_open_def fl bytes cs assms(6))
  finally show ?thesis using inv l2 by (simp add: opens_def v1 cbb_push_child_def)
qed

lemma cbb_base_len_view: "ct_inv t \<Longrightarrow> cbb_base_len t = length (fst (ct_view t))"
  by (erule ct_invE) (simp add: cbb_base_len_def length_cb_bytes)

lemma CBB_add_asn1_opens:
  assumes "malloc_ok alloc" and "ct_inv t" and "CBB_add_asn1 alloc d tag t = (True, t')"
  shows "opens t d (der_tag tag) 1 True t'"
proof -
  let ?hdr = "\<lambda>t0. if tag_number tag \<ge> 0x1f
          then (case CBB_add_u8 alloc d (tag_bits tag OR 0x1f) t0 of
                  (False, t1) \<Rightarrow> (False, t1)
                | (True, t1) \<Rightarrow> add_base128_integer alloc d (ucast (tag_number tag)) t1)
          else CBB_add_u8 alloc d (tag_bits tag OR ucast (tag_number tag)) t0"
  from assms(3) obtain t0 t2 t3 where fl: "CBB_flush alloc d t = (True, t0)" and h: "?hdr t0 = (True, t2)"
    and u8: "CBB_add_u8 alloc d 0 t2 = (True, t3)"
    and t': "t' = cbb_push_child d t3
        \<lparr>cbb_offset = cbb_base_len t2, cbb_pending_len_len = 1, cbb_pending_is_asn1 = True\<rparr>"
    unfolding CBB_add_asn1_def Let_def tag_bits_eq tag_number_def [symmetric]
    by (simp split: prod.splits bool.splits)
  note a0 = appends_flush [OF assms(1,2) fl]
  note a1 = appends_tag [OF assms(1) appends_inv [OF a0] h]
  note a2 = appends_u8 [OF assms(1) appends_inv [OF a1] u8]
  have "appends t d (der_tag tag) t2" using appends_trans [OF a0 a1] by simp
  then show ?thesis unfolding t'
    by (rule opens_push) (use a2 cbb_base_len_view [OF appends_inv [OF a1]] in simp_all)
qed

lemma cbb_add_length_prefixed_opens:
  assumes "malloc_ok alloc" and "ct_inv t" and "1 \<le> k" and "k \<le> 3"
    and "cbb_add_length_prefixed alloc k d t = (True, t')"
  shows "opens t d [] k False t'"
proof -
  let ?z = "replicate k 0 :: u8 list"
  from assms(5) obtain t1 base b where fl: "CBB_flush alloc d t = (True, t1)" and b1: "ct_base t1 = Some base"
    and add: "cbb_buffer_add alloc base k = (True, b)"
    and t': "t' = cbb_push_child d (t1\<lparr>ct_base := Some (b\<lparr>cb_buf := store_at (cb_len base) ?z (cb_buf b)\<rparr>)\<rparr>)
                \<lparr>cbb_offset = cb_len base, cbb_pending_len_len = k, cbb_pending_is_asn1 = False\<rparr>"
    by (auto simp: cbb_add_length_prefixed_def Let_def split: prod.splits bool.splits option.splits)
  note a0 = appends_flush [OF assms(1,2) fl]
  have bytes: "CBB_add_bytes alloc d ?z t1 =
      (True, t1\<lparr>ct_base := Some (b\<lparr>cb_buf := store_at (cb_len base) ?z (cb_buf b)\<rparr>)\<rparr>)"
  proof -
    from a0 have l: "length (ct_chain t1) = Suc d" and i: "ct_inv t1" by (auto simp: appends_def)
    from i b1 have "\<not> cb_error base" by (simp add: ct_inv_def)
    with l b1 have "CBB_flush alloc d t1 = (True, t1)" by (simp add: CBB_flush_def)
    with b1 add show ?thesis by (simp add: CBB_add_bytes_def cbb_op_def)
  qed
  have "length ?z < SIZE_BOUND" using assms(4) by (simp add: SIZE_BOUND_def)
  note a1 = appends_bytes [OF assms(1) appends_inv [OF a0] this bytes]
  have "cb_len base = length (fst (ct_view t1))"
    using b1 cbb_base_len_view [OF appends_inv [OF a0]] by (simp add: cbb_base_len_def)
  then show ?thesis unfolding t' by (intro opens_push [OF a0 a1 assms(3,4)]) simp_all
qed

text \<open>Filling a child and flushing its parent leaves the prefix and the contents at the parent's end.\<close>

lemma opens_close:
  assumes "malloc_ok alloc" and "opens t d xs k asn1 t1" and "appends t1 (Suc d) body t2"
    and "CBB_flush alloc d t2 = (True, t3)"
  defines "c \<equiv> \<lparr>cbb_offset = 0, cbb_pending_len_len = k, cbb_pending_is_asn1 = asn1\<rparr>"
  shows "appends t d (xs @ prefix_bytes c (length body) @ body) t3" and "prefix_fits c (length body)"
proof -
  obtain bs cs where s: "spec_append d xs (ct_view t) = (bs, cs)" by force
  have fl: "spec_flush d (bs, cs) = (bs, cs)" using spec_flush_append [of d xs "ct_view t"] by (simp add: s)
  let ?c = "\<lparr>cbb_offset = length bs, cbb_pending_len_len = k, cbb_pending_is_asn1 = asn1\<rparr>"
  have lcs: "take d cs = cs" using fl by (simp add: spec_flush_def Let_def)
  have v1: "ct_view t1 = (bs @ replicate k 0, cs @ [?c])" and i1: "ct_inv t1"
    and l1: "length (ct_chain t1) = Suc (Suc d)"
    using assms(2) by (simp_all add: opens_def s spec_open_def fl lcs)
  have lc: "length cs = d" using v1 l1 by (auto simp: ct_view_def dest: arg_cong [where f = length])
  have p: "chain_start 0 cs \<le> length bs"
  proof -
    from i1 obtain b top cs' where "chain_ok 0 (cb_len b) cs'" "ct_view t1 = (cb_bytes b, cs')" by (rule ct_invE)
    with v1 show ?thesis by (simp add: chain_ok_append)
  qed
  have "spec_flush (Suc d) (ct_view t1) = ct_view t1" by (rule spec_flush_idem) (simp add: v1 lc)
  then have v2: "ct_view t2 = (bs @ replicate k 0 @ body, cs @ [?c])" and i2: "ct_inv t2"
    using assms(3) by (simp_all add: appends_def spec_append_def v1 lc)
  note f = CBB_flush_ok [OF assms(1) i2 assms(4)]
  have "ct_view t3 = (bs @ prefix_bytes c (length body) @ body, cs)"
    using f(2) p lc by (simp add: v2 spec_flush_def Let_def prefix_bytes_def c_def take_add [symmetric] append_take_drop_id
        flip: append_assoc)
  moreover have "fst (spec_flush d (ct_view t)) @ xs = bs" "take d (snd (ct_view t)) = cs"
    using s by (auto simp: spec_append_def)
  ultimately show "appends t d (xs @ prefix_bytes c (length body) @ body) t3"
    using f by (simp add: appends_def spec_append_def flip: append_assoc)
  show "prefix_fits c (length body)" using f(4) by (simp add: v2 lc prefix_fits_def c_def split: if_splits)
qed

lemma appends_asn1:
  assumes "malloc_ok alloc" and "ct_inv t" and "CBB_add_asn1 alloc d tag t = (True, t1)"
    and "appends t1 (Suc d) body t2" and "CBB_flush alloc d t2 = (True, t3)"
  shows "appends t d (der_element tag body) t3" and "length body \<le> 0xfffffffe"
  using opens_close [OF assms(1) CBB_add_asn1_opens [OF assms(1-3)] assms(4,5)]
  by (simp_all add: prefix_bytes_def prefix_fits_def der_element_def der_header_def)

lemma appends_length_prefixed:
  assumes "malloc_ok alloc" and "ct_inv t" and "1 \<le> k" and "k \<le> 3"
    and "cbb_add_length_prefixed alloc k d t = (True, t1)"
    and "appends t1 (Suc d) body t2" and "CBB_flush alloc d t2 = (True, t3)"
  shows "appends t d (be_bytes k (length body) @ body) t3" and "length body < 256 ^ k"
  using opens_close [OF assms(1) cbb_add_length_prefixed_opens [OF assms(1-5)] assms(6,7)]
  by (simp_all add: prefix_bytes_def prefix_fits_def)

lemma opens_inv: "opens t d xs k asn1 t' \<Longrightarrow> ct_inv t'"
  by (simp add: opens_def)

lemma CBB_add_asn1_octet_string_appends:
  assumes "malloc_ok alloc" and "ct_inv t" and "length data < SIZE_BOUND"
    and "CBB_add_asn1_octet_string alloc d data t = (True, t')"
  shows "appends t d (der_element CBS_ASN1_OCTETSTRING data) t'"
proof -
  from assms(4) obtain t1 t2 where o: "CBB_add_asn1 alloc d CBS_ASN1_OCTETSTRING t = (True, t1)"
    and b: "CBB_add_bytes alloc (Suc d) data t1 = (True, t2)" and f: "CBB_flush alloc d t2 = (True, t')"
    by (auto simp: CBB_add_asn1_octet_string_def split: prod.splits bool.splits)
  note i1 = opens_inv [OF CBB_add_asn1_opens [OF assms(1,2) o]]
  from appends_asn1 [OF assms(1,2) o appends_bytes [OF assms(1) i1 assms(3) b] f] show ?thesis by simp
qed

lemma CBB_add_asn1_bool_appends:
  assumes "malloc_ok alloc" and "ct_inv t" and "CBB_add_asn1_bool alloc d value t = (True, t')"
  shows "appends t d (der_element CBS_ASN1_BOOLEAN [if value then 0xff else 0]) t'"
proof -
  from assms(3) obtain t1 t2 where o: "CBB_add_asn1 alloc d CBS_ASN1_BOOLEAN t = (True, t1)"
    and b: "CBB_add_u8 alloc (Suc d) (if value then 0xff else 0) t1 = (True, t2)"
    and f: "CBB_flush alloc d t2 = (True, t')"
    by (auto simp: CBB_add_asn1_bool_def split: prod.splits bool.splits)
  note i1 = opens_inv [OF CBB_add_asn1_opens [OF assms(1,2) o]]
  from appends_asn1 [OF assms(1,2) o appends_u8 [OF assms(1) i1 b] f] show ?thesis by simp
qed

text \<open>The digits the loop over the bytes of \<open>v\<close> appends.\<close>

fun uint_digits :: "nat \<Rightarrow> nat \<Rightarrow> bool \<Rightarrow> u8 list" where
  "uint_digits n 0 started = []"
| "uint_digits n (Suc k) started =
    (let b = word_of_nat (n div 256 ^ k) :: u8
     in if \<not> started \<and> b = 0 then uint_digits n k False
        else (if \<not> started \<and> 128 \<le> unat b then [0] else []) @ b # uint_digits n k True)"

fun uint_started :: "nat \<Rightarrow> nat \<Rightarrow> bool" where
  "uint_started n 0 = False"
| "uint_started n (Suc k) = ((word_of_nat (n div 256 ^ k) :: u8) \<noteq> 0 \<or> uint_started n k)"

lemma uint_digits_started: "uint_digits n k True = be_bytes k n"
  by (induction k) (simp_all add: Let_def be_bytes_Cons del: be_bytes.simps(2))

lemma uint_digits_eq:
  "n < 256 ^ k \<Longrightarrow> uint_digits n k False = (if n = 0 then [] else der_uint n) \<and> (uint_started n k \<longleftrightarrow> n \<noteq> 0)"
proof (induction k)
  case (Suc k)
  define b where "b = (word_of_nat (n div 256 ^ k) :: u8)"
  have "n div 256 ^ k < 256" using Suc.prems by (simp add: div_less_iff_less_mult)
  then have ub: "unat b = n div 256 ^ k" by (simp add: b_def unat_of_nat)
  show ?case
  proof (cases "b = 0")
    case True
    with ub have "n < 256 ^ k" by (simp add: div_eq_0_iff)
    with Suc.IH True show ?thesis by (simp add: b_def [symmetric] Let_def)
  next
    case False
    then have n: "n \<noteq> 0" unfolding b_def by (rule contrapos_nn) simp
    have "b # be_bytes k n = be_bytes (Suc k) n" by (simp only: be_bytes_Cons b_def)
    moreover have "be_val (be_bytes (Suc k) n) = n" using Suc.prems by (simp only: be_val_be_bytes mod_less)
    ultimately have "be_val (b # be_bytes k n) = n" by metis
    with min_be_be_val [of "b # be_bytes k n"] False have "min_be n = b # be_bytes k n"
      by (simp only: list.sel list.distinct simp_thms)
    then show ?thesis using n False
      by (simp add: b_def [symmetric] Let_def uint_digits_started der_uint_def)
  qed
qed simp

lemma uint_byte: "(ucast (drop_bit (8 * k) (v :: u64) AND 0xff) :: u8) = word_of_nat (unat v div 256 ^ k)"
proof -
  have m: "(0xff :: u64) = mask 8" by (simp add: mask_eq_exp_minus_1)
  have "unat (drop_bit (8 * k) v AND 0xff) = unat v div 2 ^ (8 * k) mod 2 ^ 8"
    unfolding m unat_and_mask unat_drop_bit ..
  then have "unat (drop_bit (8 * k) v AND 0xff) = unat v div 256 ^ k mod 256"
    by (simp add: power_mult)
  then show ?thesis
    by (simp add: word_unat_eq_iff unsigned_ucast_eq unat_of_nat take_bit_eq_mod)
qed

lemma asn1_uint64_bytes_loop_ok:
  assumes "malloc_ok alloc" and "ct_inv t" and "length (ct_chain t) = Suc d"
    and "asn1_uint64_bytes_loop alloc d v k started t = (True, started', t')"
  shows "appends t d (uint_digits (unat v) k started) t' \<and> started' = (started \<or> uint_started (unat v) k)"
  using assms(2-4)
proof (induction k arbitrary: t started)
  case 0
  then have "snd (ct_view t) = take d (snd (ct_view t))" by (auto simp: ct_view_def)
  with 0 show ?case by (simp add: appends_def spec_append_Nil spec_flush_idem) (metis length_take min.cobounded2 spec_flush_idem)
next
  case (Suc k)
  define b where "b = (word_of_nat (unat v div 256 ^ k) :: u8)"
  have b: "(ucast (drop_bit (8 * k) v AND 0xff) :: u8) = b"
    unfolding b_def by (rule uint_byte)
  show ?case
  proof (cases "\<not> started \<and> b = 0")
    case True
    with Suc.prems have "asn1_uint64_bytes_loop alloc d v k started t = (True, started', t')"
      by (simp add: b Let_def)
    from Suc.IH [OF Suc.prems(1,2) this] True show ?thesis by (simp add: b_def [symmetric] Let_def)
  next
    case False
    let ?pad = "\<not> started \<and> 128 \<le> unat b"
    from Suc.prems(3) False obtain t1 t2 where
        p: "(if \<not> started \<and> b AND 0x80 \<noteq> 0 then CBB_add_u8 alloc d 0 t else (True, t)) = (True, t1)"
      and u: "CBB_add_u8 alloc d b t1 = (True, t2)"
      and r: "asn1_uint64_bytes_loop alloc d v k True t2 = (True, started', t')"
      by (auto simp: b Let_def split: prod.splits bool.splits if_splits)
    have p1: "ct_inv t1" "appends t d ((if ?pad then [0] else []) @ [b]) t2"
    proof -
      show "ct_inv t1" using p appends_inv [OF appends_u8 [OF assms(1) Suc.prems(1)]] Suc.prems(1) by (auto split: if_splits)
      note a2 = appends_u8 [OF assms(1) this u]
      show "appends t d ((if ?pad then [0] else []) @ [b]) t2"
        using p a2 appends_trans [OF appends_u8 [OF assms(1) Suc.prems(1)] a2]
        by (auto simp: high_bit_u8 split: if_splits)
    qed
    have "ct_inv t2" "length (ct_chain t2) = Suc d" using p1(2) by (auto simp: appends_def)
    from Suc.IH [OF this r] appends_trans [OF p1(2)] False show ?thesis
      by (auto simp: b_def [symmetric] Let_def)
  qed
qed

lemma CBB_add_asn1_uint64_appends:
  assumes "malloc_ok alloc" and "ct_inv t" and "CBB_add_asn1_uint64 alloc d v t = (True, t')"
  shows "appends t d (der_element CBS_ASN1_INTEGER (der_uint (unat v))) t'"
proof -
  from assms(3) obtain t1 started t2 t3 where o: "CBB_add_asn1 alloc d CBS_ASN1_INTEGER t = (True, t1)"
    and l: "asn1_uint64_bytes_loop alloc (Suc d) v 8 False t1 = (True, started, t2)"
    and z: "(if \<not> started then CBB_add_u8 alloc (Suc d) 0 t2 else (True, t2)) = (True, t3)"
    and f: "CBB_flush alloc d t3 = (True, t')"
    by (auto simp: CBB_add_asn1_uint64_def split: prod.splits bool.splits if_splits)
  note op = CBB_add_asn1_opens [OF assms(1,2) o]
  have "length (ct_chain t1) = Suc (Suc d)" using op by (simp add: opens_def)
  from asn1_uint64_bytes_loop_ok [OF assms(1) opens_inv [OF op] this l]
  have a: "appends t1 (Suc d) (uint_digits (unat v) 8 False) t2" and st: "started = uint_started (unat v) 8" by auto
  have "unat v < 256 ^ 8" using unsigned_less [of v] by simp
  note u = uint_digits_eq [OF this]
  have "appends t1 (Suc d) (der_uint (unat v)) t3"
  proof (cases "unat v = 0")
    case True
    with z st u have "CBB_add_u8 alloc (Suc d) 0 t2 = (True, t3)" by simp
    from appends_trans [OF a appends_u8 [OF assms(1) appends_inv [OF a] this]] True u
    show ?thesis by (simp add: der_uint_def)
  next
    case False
    with z st u a show ?thesis by simp
  qed
  from appends_asn1 [OF assms(1,2) o this f] show ?thesis by simp
qed

lemma appends_u:
  assumes "malloc_ok alloc" and "ct_inv t"
  shows "CBB_add_u16 alloc d v16 t = (True, t') \<Longrightarrow> appends t d (be_bytes 2 (unat v16)) t'"
    and "CBB_add_u24 alloc d v t = (True, t') \<Longrightarrow> appends t d (be_bytes 3 (unat v)) t'"
    and "CBB_add_u32 alloc d v t = (True, t') \<Longrightarrow> appends t d (be_bytes 4 (unat v)) t'"
proof -
  have u: "unat (ucast v16 :: u32) = unat v16" for v16 :: u16
    by (simp add: unsigned_ucast_eq take_bit_nat_eq_self_iff order.strict_trans2 [OF unsigned_less])
  show "CBB_add_u16 alloc d v16 t = (True, t') \<Longrightarrow> appends t d (be_bytes 2 (unat v16)) t'"
    using cbb_op_add_u [OF assms, of 2 d "ucast v16" t'] u [of v16] by (simp add: CBB_add_u16_def SIZE_BOUND_def appends_def)
  show "CBB_add_u24 alloc d v t = (True, t') \<Longrightarrow> appends t d (be_bytes 3 (unat v)) t'"
    using cbb_op_add_u [OF assms, of 3 d v t'] by (simp add: CBB_add_u24_def SIZE_BOUND_def appends_def)
  show "CBB_add_u32 alloc d v t = (True, t') \<Longrightarrow> appends t d (be_bytes 4 (unat v)) t'"
    using cbb_op_add_u [OF assms, of 4 d v t'] by (simp add: CBB_add_u32_def SIZE_BOUND_def appends_def)
qed

subsection \<open>Starting and finishing\<close>

lemma CBB_init_ok:
  assumes "malloc_ok alloc" and "CBB_init alloc cap = Some t" and "cap < SIZE_BOUND"
  shows "ct_inv t" and "ct_view t = ([], [])" and "length (ct_chain t) = 1"
    and "map_option cb_can_resize (ct_base t) = Some True"
proof -
  have "length b = cap" if "alloc cap = Some b" for b
    using assms(1) that by (simp add: malloc_ok_def)
  then show "ct_inv t" and "ct_view t = ([], [])" and "length (ct_chain t) = 1"
    and "map_option cb_can_resize (ct_base t) = Some True"
    using assms(2,3)
    by (auto simp: CBB_init_def cbb_init_def ct_inv_def ct_view_def cb_ok_def cb_bytes_def split: option.splits if_splits)
qed

lemma CBB_init_fixed_ok:
  assumes "CBB_init_fixed alloc b (length b) = Some t" and "length b < SIZE_BOUND"
  shows "ct_inv t" and "ct_view t = ([], [])" and "length (ct_chain t) = 1"
    and "map_option cb_can_resize (ct_base t) = Some False"
  using assms
  by (auto simp: CBB_init_fixed_def cbb_init_def ct_inv_def ct_view_def cb_ok_def cb_bytes_def split: option.splits)

lemma CBB_finish_ok:
  assumes "malloc_ok alloc" and "ct_inv t" and "CBB_finish alloc 0 t want = (Some out, t')"
  shows "spec_flush 0 (ct_view t) = (out, [])" and "ct_base t' = None"
proof -
  from assms(3) obtain t1 b where f: "CBB_flush alloc 0 t = (True, t1)" and b: "ct_base t1 = Some b"
    and o: "out = cb_bytes b" and t': "t' = CBB_cleanup t1"
    by (auto simp: CBB_finish_def cb_bytes_def split: prod.splits bool.splits option.splits if_splits)
  from CBB_flush_ok [OF assms(1,2) f] b o show "spec_flush 0 (ct_view t) = (out, [])"
    by (cases "ct_chain t1") (auto simp: ct_view_def)
  show "ct_base t' = None" by (simp add: t' CBB_cleanup_def)
qed

section \<open>Properties\<close>

text \<open>A builder on a fixed buffer of six bytes, for concrete runs.\<close>

definition small_cbb :: cbb_tree where
  "small_cbb = \<lparr>ct_base = Some \<lparr>cb_buf = [0, 0, 0, 0, 0, 0], cb_len = 0, cb_cap = 6, cb_can_resize = False, cb_error = False\<rparr>,
     ct_chain = [\<lparr>cbb_offset = 0, cbb_pending_len_len = 0, cbb_pending_is_asn1 = False\<rparr>]\<rparr>"

lemma small_cbb_ok: "ct_inv small_cbb" "ct_view small_cbb = ([], [])"
  by (simp_all add: small_cbb_def ct_inv_def ct_view_def cb_ok_def cb_bytes_def SIZE_BOUND_def)

lemmas cbb_run = CBB_add_u8_def cbb_op_def CBB_flush_def cbb_buffer_add_u_def cbb_buffer_add_def cbb_buffer_reserve_def
  cbb_base_len_def cbb_push_child_def size_add_def SIZE_BOUND_def Let_def

lemma malloc_none: "malloc_ok (\<lambda>_. None)"
  by (simp add: malloc_ok_def)

text \<open>
  C6: opening a child with \<open>CBB_add_asn1\<close>, writing anything into it and closing it again appends
  exactly the DER element with that tag and those contents: the one placeholder byte grows to the shortest
  length form. A child too long for the length form is refused.
\<close>

theorem asn1_child_is_element:
  assumes "malloc_ok alloc" and "ct_inv t" and "CBB_add_asn1 alloc d tag t = (True, t1)"
    and "appends t1 (Suc d) body t2" and "CBB_flush alloc d t2 = (True, t3)"
  shows "appends t d (der_element tag body) t3 \<and> length body \<le> 0xfffffffe"
  using appends_asn1 [OF assms] by simp

theorem asn1_child_is_element_witness:
  "\<exists>t1 t2 t3. CBB_add_asn1 (\<lambda>_. None) 0 CBS_ASN1_OCTETSTRING small_cbb = (True, t1) \<and> CBB_add_u8 (\<lambda>_. None) 1 7 t1 = (True, t2) \<and>
    CBB_flush (\<lambda>_. None) 0 t2 = (True, t3) \<and> fst (ct_view t3) = [4, 1, 7]"
proof -
  have "\<exists>t1 t2 t3. CBB_add_asn1 (\<lambda>_. None) 0 CBS_ASN1_OCTETSTRING small_cbb = (True, t1) \<and>
      CBB_add_u8 (\<lambda>_. None) 1 7 t1 = (True, t2) \<and> CBB_flush (\<lambda>_. None) 0 t2 = (True, t3)"
    by (simp add: CBB_add_asn1_def small_cbb_def CBS_ASN1_OCTETSTRING_def CBS_ASN1_TAG_SHIFT_def CBS_ASN1_TAG_NUMBER_MASK_def
        cbb_write_prefix_def cbb_run)
  then obtain t1 t2 t3 where r: "CBB_add_asn1 (\<lambda>_. None) 0 CBS_ASN1_OCTETSTRING small_cbb = (True, t1)"
    "CBB_add_u8 (\<lambda>_. None) (Suc 0) 7 t1 = (True, t2)" "CBB_flush (\<lambda>_. None) 0 t2 = (True, t3)" by auto
  have "ct_inv t1" using CBB_add_asn1_opens [OF malloc_none small_cbb_ok(1) r(1)] by (rule opens_inv)
  from appends_u8 [OF malloc_none this r(2)] have "appends t1 (Suc 0) [7] t2" .
  from asn1_child_is_element [OF malloc_none small_cbb_ok(1) r(1) this r(3)]
  have "fst (ct_view t3) = der_element CBS_ASN1_OCTETSTRING [7]"
    by (simp add: appends_def fst_spec_append spec_flush_def small_cbb_ok(2))
  then have "fst (ct_view t3) = [4, 1, 7]"
    by (simp add: der_element_def der_header_def der_tag_def der_length_def tag_bits_def tag_number_def
        CBS_ASN1_OCTETSTRING_def CBS_ASN1_TAG_SHIFT_def CBS_ASN1_TAG_NUMBER_MASK_def)
  with r show ?thesis by auto
qed

text \<open>
  A child with a one, two or three byte length prefix is written as its length, most
  significant byte first, and its contents; contents the prefix cannot express make the flush fail.
\<close>

theorem length_prefix_is_exact:
  assumes "malloc_ok alloc" and "ct_inv t" and "1 \<le> k" and "k \<le> 3" and "cbb_add_length_prefixed alloc k d t = (True, t1)"
    and "appends t1 (Suc d) body t2" and "CBB_flush alloc d t2 = (True, t3)"
  shows "appends t d (be_bytes k (length body) @ body) t3 \<and> length body < 256 ^ k"
  using appends_length_prefixed [OF assms] by simp

theorem length_prefix_is_exact_witness:
  "\<exists>t1 t2 t3. cbb_add_length_prefixed (\<lambda>_. None) 1 0 small_cbb = (True, t1) \<and> CBB_add_u8 (\<lambda>_. None) 1 7 t1 = (True, t2) \<and>
    CBB_flush (\<lambda>_. None) 0 t2 = (True, t3) \<and> fst (ct_view t3) = [1, 7]"
proof -
  have "\<exists>t1 t2 t3. cbb_add_length_prefixed (\<lambda>_. None) 1 0 small_cbb = (True, t1) \<and>
      CBB_add_u8 (\<lambda>_. None) 1 7 t1 = (True, t2) \<and> CBB_flush (\<lambda>_. None) 0 t2 = (True, t3)"
    by (simp add: cbb_add_length_prefixed_def small_cbb_def cbb_write_prefix_def cbb_run store_at_def)
  then obtain t1 t2 t3 where r: "cbb_add_length_prefixed (\<lambda>_. None) 1 0 small_cbb = (True, t1)"
    "CBB_add_u8 (\<lambda>_. None) (Suc 0) 7 t1 = (True, t2)" "CBB_flush (\<lambda>_. None) 0 t2 = (True, t3)" by auto
  have "ct_inv t1" using cbb_add_length_prefixed_opens [OF malloc_none small_cbb_ok(1) _ _ r(1)] by (simp add: opens_inv)
  from appends_u8 [OF malloc_none this r(2)] have "appends t1 (Suc 0) [7] t2" .
  from length_prefix_is_exact [OF malloc_none small_cbb_ok(1) _ _ r(1) this r(3)]
  have "fst (ct_view t3) = be_bytes 1 (length ([7] :: u8 list)) @ [7]"
    by (simp add: appends_def fst_spec_append spec_flush_def small_cbb_ok(2))
  then have "fst (ct_view t3) = [1, 7]" by simp
  with r show ?thesis by auto
qed

end
