(* ===== verification/CBB_Progress.thy ===== *)
theory CBB_Progress imports CBB_Encoding begin

text \<open>
  When the builder fails and when it succeeds: a failed builder stays failed (\<open>cbb_failed\<close>), and one that can grow, with
  memory to be had and sizes that do not wrap (\<open>roomy\<close>), accepts everything that is written to it.
\<close>

section \<open>Failure is sticky\<close>

definition cbb_failed :: "cbb_tree \<Rightarrow> bool" where
  "cbb_failed t \<longleftrightarrow> (case ct_base t of None \<Rightarrow> False | Some b \<Rightarrow> cb_error b)"

lemma cbb_write_prefix_fail: "cbb_write_prefix alloc b c start = (False, b') \<Longrightarrow> cb_error b'"
  by (auto simp: cbb_write_prefix_def cbb_fail_def Let_def
      split: if_splits prod.splits bool.splits)

lemma cbb_flush_children_fail:
  "cbb_flush_children alloc b cs = (False, b', cs') \<Longrightarrow> cb_error b'"
  by (induction cs arbitrary: b' cs')
    (auto simp: Let_def split: if_splits prod.splits bool.splits dest: cbb_write_prefix_fail)

lemma CBB_flush_fail:
  assumes "CBB_flush alloc d t = (False, t')" and "ct_base t \<noteq> None" and "d < length (ct_chain t)"
  shows "cbb_failed t'"
  using assms
  by (auto simp: CBB_flush_def cbb_failed_def split: option.splits if_splits prod.splits dest: cbb_flush_children_fail)

lemma CBB_flush_base: "CBB_flush alloc d t = (ok, t') \<Longrightarrow> ct_base t \<noteq> None \<Longrightarrow> ct_base t' \<noteq> None"
  by (auto simp: CBB_flush_def split: option.splits if_splits prod.splits)

lemma cbb_op_fail:
  assumes "cbb_op alloc d t f = (False, t')" and "ct_base t \<noteq> None" and "d < length (ct_chain t)"
    and "\<And>b b'. f b = (False, b') \<Longrightarrow> cb_error b'"
  shows "cbb_failed t'"
  using assms CBB_flush_fail [OF _ assms(2,3), of alloc] CBB_flush_base [of alloc d t]
  by (auto simp: cbb_op_def cbb_failed_def split: prod.splits bool.splits option.splits)

lemma cbb_buffer_add_u_fail: "cbb_buffer_add_u alloc b v k = (False, b') \<Longrightarrow> cb_error b'"
  by (auto simp: cbb_buffer_add_u_def cbb_fail_def split: if_splits prod.splits bool.splits dest: cbb_buffer_add_fail)

lemma CBB_add_bytes_fail:
  assumes "CBB_add_bytes alloc d data t = (False, t')" and "ct_base t \<noteq> None" and "d < length (ct_chain t)"
  shows "cbb_failed t'"
  by (rule cbb_op_fail [OF assms(1) [unfolded CBB_add_bytes_def] assms(2,3)])
    (auto split: prod.splits bool.splits dest: cbb_buffer_add_fail)

lemma CBB_add_u8_fail:
  assumes "CBB_add_u8 alloc d v t = (False, t')" and "ct_base t \<noteq> None" and "d < length (ct_chain t)"
  shows "cbb_failed t'"
  by (rule cbb_op_fail [OF assms(1) [unfolded CBB_add_u8_def] assms(2,3)]) (rule cbb_buffer_add_u_fail)

lemma cbb_failed_flush: "cbb_failed t \<Longrightarrow> CBB_flush alloc d t = (False, t)"
  by (auto simp: cbb_failed_def CBB_flush_def split: option.splits)

lemma cbb_failed_ops:
  assumes "cbb_failed t"
  shows "cbb_op alloc d t f = (False, t)" and "CBB_add_bytes alloc d data t = (False, t)"
    and "CBB_add_u8 alloc d v t = (False, t)" and "cbb_add_length_prefixed alloc k d t = (False, t)"
    and "CBB_add_asn1 alloc d tag t = (False, t)" and "CBB_finish alloc d t want = (None, t)"
  using cbb_failed_flush [OF assms]
  by (simp_all add: cbb_op_def CBB_add_bytes_def CBB_add_u8_def cbb_add_length_prefixed_def CBB_add_asn1_def
      CBB_finish_def)

section \<open>A resizable builder with memory left does not fail\<close>

definition alloc_total :: "allocator \<Rightarrow> bool" where
  "alloc_total alloc \<longleftrightarrow> (\<forall>n < SIZE_BOUND. alloc n \<noteq> None)"

lemma cbb_buffer_add_live:
  assumes "alloc_total alloc" and "cb_can_resize b" and "cb_len b + n < SIZE_BOUND"
  shows "fst (cbb_buffer_add alloc b n)"
proof -
  let ?n = "size_add (cb_len b) n" and ?c = "size_mul (cb_cap b) 2"
  let ?cap = "if ?c < cb_cap b \<or> ?c < ?n then ?n else ?c"
  have n: "?n = cb_len b + n" using assms(3) by (rule size_add_id)
  have "?cap < SIZE_BOUND" using n assms(3) by (simp add: size_mul_def SIZE_BOUND_def)
  with assms(1) obtain blk where "alloc ?cap = Some blk" by (auto simp: alloc_total_def)
  then show ?thesis using n assms(2)
    by (auto simp: cbb_buffer_add_def cbb_buffer_reserve_def Let_def payload_realloc_def split: prod.splits bool.splits if_splits)
qed

lemma snd_put_be_loop: "snd (put_be_loop k off v blk) = v div 256 ^ k"
  by (induction k arbitrary: v blk) (simp_all add: div_mult2_eq)

lemma cbb_write_prefix_live:
  assumes "alloc_total alloc" and "malloc_ok alloc" and "cb_ok b" and "1 \<le> cbb_pending_len_len c" and "cb_can_resize b"
    and "cbb_pending_is_asn1 c \<longrightarrow> cbb_pending_len_len c = 1"
    and "start = cbb_offset c + cbb_pending_len_len c" and "start \<le> cb_len b"
    and "prefix_fits c (cb_len b - start)" and "cb_len b + 4 < SIZE_BOUND"
  shows "fst (cbb_write_prefix alloc b c start)"
proof (cases "cbb_pending_is_asn1 c")
  case False
  with cbb_write_prefix_fixed [OF assms(3) False assms(7,8), of alloc] assms(9)
  show ?thesis by (simp add: prefix_fits_def)
next
  case True
  with assms(6,7) have start: "start = cbb_offset c + 1" by simp
  let ?n = "cb_len b - start" let ?e = "len_octets ?n"
  show ?thesis
  proof (cases "?n < 128")
    case short: True
    from cbb_write_prefix_short [OF assms(3) True start assms(8) short, of alloc] show ?thesis by simp
  next
    case long: False
    have e: "1 \<le> ?e" "?e \<le> 4" by (rule len_octets_bounds)+
    with assms(10) have fit: "cb_len b + ?e < SIZE_BOUND" "?e < SIZE_BOUND" by auto
    from cbb_buffer_add_live [OF assms(1,5) fit(1)] obtain b1 where add: "cbb_buffer_add alloc b ?e = (True, b1)"
      by (cases "cbb_buffer_add alloc b ?e") auto
    note b1 = cbb_buffer_add_ok [OF assms(2,3) fit(2) add]
    have n: "?n \<le> 0xfffffffe" using assms(9) True by (simp add: prefix_fits_def)
    have "?n div 256 ^ ?e = 0" using n len_octets_fits [of ?n] by (simp add: div_eq_0_iff)
    then have "snd (put_be_loop ?e off ?n blk) = 0" for off blk by (simp add: snd_put_be_loop)
    then show ?thesis using True long e add n
      by (simp add: cbb_write_prefix_def Let_def length_form_eq case_prod_beta del: of_nat_add)
  qed
qed

lemma length_closed_bytes:
  "chain_ok p (length bs) cs \<Longrightarrow> length (closed_bytes p bs cs) + p \<le> length bs + 4 * length cs"
proof (induction cs arbitrary: p)
  case (Cons c cs)
  let ?start = "cbb_offset c + cbb_pending_len_len c"
  have ch: "chain_ok ?start (length bs) cs" "p \<le> cbb_offset c" "1 \<le> cbb_pending_len_len c"
    "cbb_pending_is_asn1 c \<longrightarrow> cbb_pending_len_len c = 1" using Cons.prems by auto
  have "length (prefix_bytes c n) \<le> cbb_pending_len_len c + 4" for n
    using ch(3) length_der_length(2) [of n] by (simp add: prefix_bytes_def)
  from this [of "length (closed_bytes ?start bs cs)"] Cons.IH [OF ch(1)] ch(2) show ?case
    using chain_ok_le [OF ch(1)] by (simp add: Let_def)
qed simp

lemma cbb_flush_children_live:
  assumes "alloc_total alloc" and "malloc_ok alloc" and "cb_ok b" and "chain_ok p (cb_len b) cs"
    and "cb_can_resize b" and "closed_fits (cb_bytes b) cs" and "cb_len b + 4 * length cs < SIZE_BOUND"
  shows "fst (cbb_flush_children alloc b cs)"
  using assms(4,6,7)
proof (induction cs arbitrary: p)
  case (Cons c cs)
  let ?start = "cbb_offset c + cbb_pending_len_len c"
  from Cons.prems(1) have c: "p \<le> cbb_offset c" "1 \<le> cbb_pending_len_len c"
    "cbb_pending_is_asn1 c \<longrightarrow> cbb_pending_len_len c = 1" "chain_ok ?start (cb_len b) cs" by auto
  have le: "?start \<le> cb_len b" using c(4) by (rule chain_ok_le)
  have sz: "size_add (cbb_offset c) (cbb_pending_len_len c) = ?start"
    using le assms(3) by (intro size_add_id) (simp add: cb_ok_def)
  from Cons.IH [OF c(4)] Cons.prems obtain b1 cs1 where f: "cbb_flush_children alloc b cs = (True, b1, cs1)"
    by (cases "cbb_flush_children alloc b cs") auto
  note b1 = cbb_flush_children_ok [OF assms(2,3) c(4) f]
  have lbs: "length (cb_bytes b) = cb_len b" by (rule length_cb_bytes [OF assms(3)])
  let ?body = "closed_bytes ?start (cb_bytes b) cs"
  have n: "cb_len b1 = ?start + length ?body"
    using b1(3) le lbs length_cb_bytes [OF b1(2)] by simp
  have "cb_len b1 + 4 < SIZE_BOUND"
    using length_closed_bytes [of ?start "cb_bytes b" cs] c(4) lbs n Cons.prems(3) by simp
  moreover have "prefix_fits c (cb_len b1 - ?start)" using Cons.prems(2) n by simp
  ultimately have "fst (cbb_write_prefix alloc b1 c ?start)"
    using b1(6) assms(5) n by (intro cbb_write_prefix_live [OF assms(1,2) b1(2) c(2) _ c(3) refl]) simp_all
  then show ?case using sz f c(2) n by (auto simp: Let_def split: prod.splits bool.splits)
qed simp

lemma CBB_flush_live:
  assumes "alloc_total alloc" and "malloc_ok alloc" and "ct_inv t" and "d < length (ct_chain t)"
    and "map_option cb_can_resize (ct_base t) = Some True"
    and "closed_fits (fst (ct_view t)) (drop d (snd (ct_view t)))"
    and "length (fst (ct_view t)) + 4 * length (ct_chain t) < SIZE_BOUND"
  shows "fst (CBB_flush alloc d t)"
proof -
  from assms(3) obtain b top cs where t: "ct_base t = Some b" "ct_chain t = top # cs" "cb_ok b" "\<not> cb_error b"
    "chain_ok 0 (cb_len b) cs" "ct_view t = (cb_bytes b, cs)" by (rule ct_invE)
  have ch: "chain_ok (chain_start 0 (take d cs)) (cb_len b) (drop d cs)"
    using t(5) chain_ok_append [of 0 "cb_len b" "take d cs" "drop d cs"] by auto
  have "fst (cbb_flush_children alloc b (drop d cs))"
    using t assms(5-7) length_cb_bytes [OF t(3)]
    by (intro cbb_flush_children_live [OF assms(1,2) t(3) ch]) auto
  with t assms(4) show ?thesis by (auto simp: CBB_flush_def split: prod.splits)
qed

lemma CBB_add_bytes_live:
  assumes "alloc_total alloc" and "malloc_ok alloc" and "ct_inv t" and "d < length (ct_chain t)"
    and "map_option cb_can_resize (ct_base t) = Some True"
    and "closed_fits (fst (ct_view t)) (drop d (snd (ct_view t)))"
    and "length (fst (ct_view t)) + 4 * length (ct_chain t) + length data < SIZE_BOUND"
  shows "fst (CBB_add_bytes alloc d data t)"
proof -
  from CBB_flush_live [OF assms(1-6)] assms(7) obtain t1 where f: "CBB_flush alloc d t = (True, t1)"
    by (cases "CBB_flush alloc d t") auto
  note t1 = CBB_flush_ok [OF assms(2,3) f]
  from t1(1) obtain b cs where b: "ct_base t1 = Some b" "cb_ok b" "ct_view t1 = (cb_bytes b, cs)" by (rule ct_invE)
  from assms(3) obtain b0 top cs0 where t: "ct_chain t = top # cs0"
    "chain_ok 0 (cb_len b0) cs0" "ct_view t = (cb_bytes b0, cs0)" "cb_ok b0" by (rule ct_invE)
  let ?p = "chain_start 0 (take d cs0)"
  have ch: "chain_ok ?p (length (cb_bytes b0)) (drop d cs0)"
    using t(2,4) chain_ok_append [of 0 "cb_len b0" "take d cs0" "drop d cs0"] length_cb_bytes by simp
  have "cb_bytes b = take ?p (cb_bytes b0) @ closed_bytes ?p (cb_bytes b0) (drop d cs0)"
    using t1(2) b(3) t(3) by (simp add: spec_flush_def Let_def)
  then have "length (cb_bytes b) \<le> length (cb_bytes b0) + 4 * length cs0"
    using length_closed_bytes [OF ch] chain_ok_le [OF ch] by simp
  with assms(7) t b have "cb_len b + length data < SIZE_BOUND" using length_cb_bytes [OF b(2)] by simp
  moreover have "cb_can_resize b" using t1(5) assms(5) b(1) by simp
  ultimately have "fst (cbb_buffer_add alloc b (length data))" by (intro cbb_buffer_add_live [OF assms(1)])
  then show ?thesis using f b(1) by (auto simp: CBB_add_bytes_def cbb_op_def split: prod.splits bool.splits)
qed

section \<open>Builders with room\<close>

text \<open>
  A resizable builder without open children at depth \<open>d\<close> that can take \<open>n\<close> more bytes. Every append of
  the builder succeeds on it.
\<close>

definition roomy :: "nat \<Rightarrow> nat \<Rightarrow> cbb_tree \<Rightarrow> bool" where
  "roomy d n t \<longleftrightarrow> ct_inv t \<and> length (ct_chain t) = Suc d \<and>
    map_option cb_can_resize (ct_base t) = Some True \<and> length (fst (ct_view t)) + n < SIZE_BOUND"

lemma roomy_mono: "roomy d n t \<Longrightarrow> m \<le> n \<Longrightarrow> roomy d m t"
  by (simp add: roomy_def)

lemma roomy_op:
  assumes "malloc_ok alloc" and "roomy d (length xs + n) t"
    and "\<And>b. cb_ok b \<Longrightarrow> cb_can_resize b \<Longrightarrow> cb_len b + length xs < SIZE_BOUND \<Longrightarrow> fst (f b)"
    and "\<And>b b'. cb_ok b \<Longrightarrow> f b = (True, b') \<Longrightarrow>
      cb_ok b' \<and> cb_bytes b' = cb_bytes b @ xs \<and> cb_error b' = cb_error b \<and> cb_can_resize b' = cb_can_resize b"
  shows "\<exists>t'. cbb_op alloc d t f = (True, t') \<and> appends t d xs t' \<and> roomy d n t'"
proof -
  from assms(2) have t: "ct_inv t" "length (ct_chain t) = Suc d"
    "map_option cb_can_resize (ct_base t) = Some True" "length (fst (ct_view t)) + (length xs + n) < SIZE_BOUND"
    by (auto simp: roomy_def)
  from t(1) obtain b where b: "ct_base t = Some b" "cb_ok b" "\<not> cb_error b" "fst (ct_view t) = cb_bytes b"
    by (rule ct_invE) auto
  have "cb_len b + length xs < SIZE_BOUND" using t(4) b(4) length_cb_bytes [OF b(2)] by simp
  with assms(3) [OF b(2)] t(3) b(1) obtain b' where f: "f b = (True, b')" by (cases "f b") auto
  have "CBB_flush alloc d t = (True, t)" using b t(2) by (simp add: CBB_flush_def)
  then have op: "cbb_op alloc d t f = (True, t\<lparr>ct_base := Some b'\<rparr>)" using b f by (simp add: cbb_op_def)
  note a = cbb_op_append [OF assms(1) t(1) op assms(4)]
  have "snd (ct_view t) = tl (ct_chain t)" by (simp add: ct_view_def)
  then have "spec_flush d (ct_view t) = ct_view t" using t(2) by (intro spec_flush_idem) simp
  then have "length (fst (spec_append d xs (ct_view t))) + n < SIZE_BOUND"
    using t(4) by (simp add: spec_append_def)
  then have "roomy d n (t\<lparr>ct_base := Some b'\<rparr>)"
    unfolding roomy_def using a(1-3) a(4) [unfolded t(3)] by (simp only: simp_thms)
  moreover have "appends t d xs (t\<lparr>ct_base := Some b'\<rparr>)" unfolding appends_def using a(1-3) by blast
  ultimately show ?thesis using op by blast
qed

lemma roomy_bytes:
  assumes "malloc_ok alloc" and "alloc_total alloc" and "roomy d (length data + n) t"
  shows "\<exists>t'. CBB_add_bytes alloc d data t = (True, t') \<and> appends t d data t' \<and> roomy d n t'"
  unfolding CBB_add_bytes_def
proof (rule roomy_op [OF assms(1,3)])
  let ?f = "\<lambda>base. case cbb_buffer_add alloc base (length data) of
        (False, b) \<Rightarrow> (False, b)
      | (True, b) \<Rightarrow> (True, b\<lparr>cb_buf := store_at (cb_len base) data (cb_buf b)\<rparr>)"
  show "fst (?f b)" if "cb_can_resize b" "cb_len b + length data < SIZE_BOUND" for b
    using cbb_buffer_add_live [OF assms(2) that] by (auto split: prod.splits bool.splits)
  show "cb_ok b' \<and> cb_bytes b' = cb_bytes b @ data \<and> cb_error b' = cb_error b \<and> cb_can_resize b' = cb_can_resize b"
    if "cb_ok b" "?f b = (True, b')" for b b'
  proof -
    from that(2) obtain b1 where add: "cbb_buffer_add alloc b (length data) = (True, b1)"
      and b': "b' = b1\<lparr>cb_buf := store_at (cb_len b) data (cb_buf b1)\<rparr>"
      by (auto split: prod.splits bool.splits)
    have "length data < SIZE_BOUND" using assms(3) by (simp add: roomy_def)
    note a = cbb_buffer_add_ok [OF assms(1) that(1) this add]
    from cb_store_append [OF a(1-3) that(1)] a show ?thesis by (simp add: b')
  qed
qed

lemma roomy_u8:
  assumes "malloc_ok alloc" and "alloc_total alloc" and "roomy d (Suc n) t"
  shows "\<exists>t'. CBB_add_u8 alloc d v t = (True, t') \<and> appends t d [v] t' \<and> roomy d n t'"
  unfolding CBB_add_u8_def
proof (rule roomy_op [OF assms(1)])
  have one: "be_bytes 1 (unat (ucast v :: u32)) = [v]" by (simp add: be_bytes_1 unat_ucast_u8)
  show "roomy d (length [v] + n) t" using assms(3) by simp
  show "fst (cbb_buffer_add_u alloc b (ucast v) 1)"
    if "cb_can_resize b" "cb_len b + length [v] < SIZE_BOUND" for b
  proof -
    have "fst (cbb_buffer_add alloc b 1)" using cbb_buffer_add_live [OF assms(2) that(1)] that(2) by simp
    moreover have "snd (put_be_loop 1 off (unat (ucast v :: u32)) blk) = 0" for off blk
      using div_less [OF unat_u8_bound [of v]] by (simp add: snd_put_be_loop unat_ucast_u8)
    ultimately show ?thesis by (auto simp: cbb_buffer_add_u_def case_prod_beta split: prod.splits bool.splits)
  qed
  show "cb_ok b' \<and> cb_bytes b' = cb_bytes b @ [v] \<and> cb_error b' = cb_error b \<and> cb_can_resize b' = cb_can_resize b"
    if "cb_ok b" "cbb_buffer_add_u alloc b (ucast v) 1 = (True, b')" for b b'
    using cbb_buffer_add_u_ok [OF assms(1) that(1) _ that(2)] one by (simp add: SIZE_BOUND_def)
qed

lemma roomy_base128_loop:
  assumes "malloc_ok alloc" and "alloc_total alloc"
  shows "roomy d (k + n) t \<Longrightarrow> \<exists>t'. add_base128_loop alloc d v k t = (True, t') \<and> roomy d n t'"
proof (induction k arbitrary: t)
  case (Suc k)
  define b where "b = (let byte = ucast (drop_bit (7 * k) v AND 0x7f) :: u8 in if k \<noteq> 0 then byte OR 0x80 else byte)"
  from roomy_u8 [OF assms, of d "k + n" t b] Suc.prems obtain t1 where
    "CBB_add_u8 alloc d b t = (True, t1)" "roomy d (k + n) t1" by auto
  moreover from this Suc.IH obtain t' where "add_base128_loop alloc d v k t1 = (True, t')" "roomy d n t'" by blast
  ultimately show ?case unfolding b_def Let_def by (simp add: Let_def)
qed simp

lemma length_base128: "length (base128 n) = (if base128_len n = 0 then 1 else base128_len n)"
proof -
  have "length (base128_digits n k) = k" for k by (induction k) simp_all
  then show ?thesis using base128_digits_eq [of n] by metis
qed

lemma roomy_base128:
  assumes "malloc_ok alloc" and "alloc_total alloc" and "roomy d (length (base128 (unat v)) + n) t"
  shows "\<exists>t'. add_base128_integer alloc d v t = (True, t') \<and> appends t d (base128 (unat v)) t' \<and> roomy d n t'"
proof -
  from roomy_base128_loop [OF assms(1,2), of d "length (base128 (unat v))" n t v] assms(3) obtain t' where
    "add_base128_loop alloc d v (length (base128 (unat v))) t = (True, t')" and r: "roomy d n t'" by auto
  then have a: "add_base128_integer alloc d v t = (True, t')"
    by (simp add: add_base128_integer_def length_base128)
  have "ct_inv t" using assms(3) by (simp add: roomy_def)
  from appends_base128 [OF assms(1) this a] a r show ?thesis by blast
qed

section \<open>Properties\<close>




text \<open>An allocator that always succeeds, for concrete runs.\<close>

definition calloc :: allocator where
  "calloc n = Some (replicate n 0)"

lemma calloc_ok: "malloc_ok calloc" "alloc_total calloc"
  by (simp_all add: calloc_def malloc_ok_def alloc_total_def)

definition empty_cbb :: cbb_tree where
  "empty_cbb = \<lparr>ct_base = Some \<lparr>cb_buf = [], cb_len = 0, cb_cap = 0, cb_can_resize = True, cb_error = False\<rparr>,
     ct_chain = [\<lparr>cbb_offset = 0, cbb_pending_len_len = 0, cbb_pending_is_asn1 = False\<rparr>]\<rparr>"

lemma roomy_empty_cbb: "n < SIZE_BOUND \<Longrightarrow> roomy 0 n empty_cbb"
  by (simp add: roomy_def empty_cbb_def ct_inv_def ct_view_def cb_ok_def cb_bytes_def SIZE_BOUND_def)

lemma empty_cbb_view: "ct_view empty_cbb = ([], [])" "ct_inv empty_cbb"
  by (simp_all add: empty_cbb_def ct_view_def ct_inv_def cb_ok_def cb_bytes_def SIZE_BOUND_def)


end
