(* ===== verification/OID.thy ===== *)
theory OID imports CBB_Progress begin

text \<open>
  Object identifiers as text: \<open>parse_dotted_decimal\<close> and \<open>CBB_add_asn1_oid_from_text\<close> of
  crypto/bytestring/cbb.c, \<open>add_decimal\<close> and \<open>CBS_asn1_oid_to_text\<close> of crypto/bytestring/cbs.c. Text is
  the list of its bytes; 46 is the dot and 48 to 57 are the digits. The lemmas show that the parser
  accepts exactly the canonical decimal forms and that the two directions invert each other.
\<close>

section \<open>The code\<close>

definition UINT64_MAX :: u64 where
  "UINT64_MAX = 0xffffffffffffffff"

fun parse_dotted_loop :: "u64 \<Rightarrow> bool \<Rightarrow> u64 cbs_op" where
  "parse_dotted_loop out seen_digit [] = (if seen_digit then Some out else None, [])"
| "parse_dotted_loop out seen_digit (u # cbs) =
    (if u = 46 \<and> cbs \<noteq> [] then (if seen_digit then Some out else None, cbs)
     else if u < 48 \<or> u > 57 \<or> (seen_digit \<and> out = 0) \<or> out > UINT64_MAX div 10 \<or>
             out * 10 > UINT64_MAX - ucast (u - 48)
     then (None, cbs)
     else parse_dotted_loop (out * 10 + ucast (u - 48)) True cbs)"

definition parse_dotted_decimal :: "u64 cbs_op" where
  "parse_dotted_decimal cbs = parse_dotted_loop 0 False cbs"

lemma parse_dotted_loop_shorter:
  "parse_dotted_loop out seen cbs = (r, rest) \<Longrightarrow> cbs \<noteq> [] \<Longrightarrow> length rest < length cbs"
proof (induction out seen cbs rule: parse_dotted_loop.induct)
  case (2 out seen u cbs)
  then show ?case by (cases cbs) (auto split: if_splits)
qed simp

text \<open>The \<open>while (CBS_len(&cbs) > 0)\<close> loop over the components after the first two.\<close>

function oid_components_loop :: "allocator \<Rightarrow> nat \<Rightarrow> CBS \<Rightarrow> cbb_tree \<Rightarrow> bool \<times> cbb_tree" where
  "oid_components_loop alloc d cbs t =
    (if CBS_len cbs > 0
     then (case parse_dotted_decimal cbs of
             (None, _) \<Rightarrow> (False, t)
           | (Some a, cbs') \<Rightarrow>
              (case add_base128_integer alloc d a t of
                 (False, t') \<Rightarrow> (False, t')
               | (True, t') \<Rightarrow> oid_components_loop alloc d cbs' t'))
     else (True, t))"
  by pat_completeness auto
termination
  by (relation "measure (\<lambda>(_, _, cbs, _). length cbs)")
    (auto simp: parse_dotted_decimal_def CBS_len_def dest!: sym [THEN parse_dotted_loop_shorter])

declare oid_components_loop.simps [simp del]

definition CBB_add_asn1_oid_from_text :: "allocator \<Rightarrow> nat \<Rightarrow> u8 list \<Rightarrow> cbb_tree \<Rightarrow> bool \<times> cbb_tree" where
  "CBB_add_asn1_oid_from_text alloc d txt t =
    (case CBB_flush alloc d t of
       (False, t1) \<Rightarrow> (False, t1)
     | (True, t1) \<Rightarrow>
        (case parse_dotted_decimal (CBS_init txt (length txt)) of
           (None, _) \<Rightarrow> (False, t1)
         | (Some a, cbs) \<Rightarrow>
            (case parse_dotted_decimal cbs of
               (None, _) \<Rightarrow> (False, t1)
             | (Some b, cbs') \<Rightarrow>
                (if a > 2 \<or> (a < 2 \<and> b > 39) \<or> b > UINT64_MAX - 80 then (False, t1)
                 else (case add_base128_integer alloc d (40 * a + b) t1 of
                         (False, t2) \<Rightarrow> (False, t2)
                       | (True, t2) \<Rightarrow> oid_components_loop alloc d cbs' t2)))))"

text \<open>The decimal digits \<open>BIO_snprintf\<close> prints for \<open>%llu\<close>; \<open>buf\<close> has room for 23 of them.\<close>

fun decimal :: "nat \<Rightarrow> u8 list" where
  "decimal n = (if n < 10 then [word_of_nat (48 + n)] else decimal (n div 10) @ [word_of_nat (48 + n mod 10)])"

declare decimal.simps [simp del]

definition DECIMAL_SIZE_u64 :: nat where
  "DECIMAL_SIZE_u64 = (8 * 8 + 2) div 3 + 1"

definition add_decimal :: "allocator \<Rightarrow> nat \<Rightarrow> u64 \<Rightarrow> cbb_tree \<Rightarrow> bool \<times> cbb_tree" where
  "add_decimal alloc d v t = CBB_add_bytes alloc d (take DECIMAL_SIZE_u64 (decimal (unat v))) t"

lemma parse_base128_loop_shorter:
  "parse_base128_loop v cbs = (Some r, rest) \<Longrightarrow> length rest < length cbs"
proof (induction cbs arbitrary: v)
  case (Cons b cbs)
  have "length rest \<le> length cbs"
    using Cons.prems Cons.IH [THEN less_imp_le]
    by (simp only: parse_base128_loop.simps Let_def split: if_splits) simp_all
  then show ?case by simp
qed simp

function oid_text_loop :: "allocator \<Rightarrow> nat \<Rightarrow> CBS \<Rightarrow> cbb_tree \<Rightarrow> bool \<times> cbb_tree" where
  "oid_text_loop alloc d copy t =
    (if CBS_len copy \<noteq> 0
     then (case parse_base128_integer copy of
             (None, _) \<Rightarrow> (False, t)
           | (Some v, copy') \<Rightarrow>
              (case CBB_add_u8 alloc d 46 t of
                 (False, t1) \<Rightarrow> (False, t1)
               | (True, t1) \<Rightarrow>
                  (case add_decimal alloc d v t1 of
                     (False, t2) \<Rightarrow> (False, t2)
                   | (True, t2) \<Rightarrow> oid_text_loop alloc d copy' t2)))
     else (True, t))"
  by pat_completeness auto
termination
  by (relation "measure (\<lambda>(_, _, copy, _). length copy)")
    (auto simp: parse_base128_integer_def dest!: sym [THEN parse_base128_loop_shorter])

declare oid_text_loop.simps [simp del]

definition CBS_asn1_oid_to_text :: "allocator \<Rightarrow> CBS \<Rightarrow> u8 list option" where
  "CBS_asn1_oid_to_text alloc cbs =
    (case CBB_init alloc 32 of
       None \<Rightarrow> None
     | Some cbb \<Rightarrow>
        (case parse_base128_integer cbs of
           (None, _) \<Rightarrow> None
         | (Some v, copy) \<Rightarrow>
            (case (if v \<ge> 80
                   then (case CBB_add_bytes alloc 0 [50, 46] cbb of
                           (False, t) \<Rightarrow> (False, t)
                         | (True, t) \<Rightarrow> add_decimal alloc 0 (v - 80) t)
                   else (case add_decimal alloc 0 (v div 40) cbb of
                           (False, t) \<Rightarrow> (False, t)
                         | (True, t) \<Rightarrow>
                            (case CBB_add_u8 alloc 0 46 t of
                               (False, t') \<Rightarrow> (False, t')
                             | (True, t') \<Rightarrow> add_decimal alloc 0 (v mod 40) t'))) of
               (False, _) \<Rightarrow> None
             | (True, t) \<Rightarrow>
                (case oid_text_loop alloc 0 copy t of
                   (False, _) \<Rightarrow> None
                 | (True, t) \<Rightarrow>
                    (case CBB_add_u8 alloc 0 0 t of
                       (False, _) \<Rightarrow> None
                     | (True, t) \<Rightarrow> fst (CBB_finish alloc 0 t True))))))"

section \<open>Decimal numerals\<close>

definition digit_val :: "u8 \<Rightarrow> nat" where
  "digit_val u = unat u - 48"

definition is_digit :: "u8 \<Rightarrow> bool" where
  "is_digit u \<longleftrightarrow> 48 \<le> unat u \<and> unat u \<le> 57"

definition dec_val :: "nat \<Rightarrow> u8 list \<Rightarrow> nat" where
  "dec_val m ds = foldl (\<lambda>a d. 10 * a + digit_val d) m ds"

lemma dec_val_simps [simp]:
  "dec_val m [] = m" "dec_val m (d # ds) = dec_val (10 * m + digit_val d) ds"
  "dec_val m (ds @ [d]) = 10 * dec_val m ds + digit_val d"
  by (simp_all add: dec_val_def)

lemma dec_val_mono: "m \<le> dec_val m ds"
proof (induction ds arbitrary: m)
  case (Cons d ds)
  show ?case using Cons [of "10 * m + digit_val d"] by simp
qed simp

lemma unat_digit: "n < 10 \<Longrightarrow> unat (word_of_nat (48 + n) :: u8) = 48 + n"
  by (simp add: unat_of_nat del: of_nat_add)

lemma decimal_props: "decimal n \<noteq> [] \<and> list_all is_digit (decimal n) \<and> dec_val 0 (decimal n) = n \<and>
  (hd (decimal n) = 48 \<longrightarrow> n = 0)"
proof (induction n rule: decimal.induct)
  case (1 n)
  show ?case
  proof (cases "n < 10")
    case True
    then have d: "decimal n = [word_of_nat (48 + n)]" by (simp add: decimal.simps)
    have "(word_of_nat (48 + n) :: u8) = 48 \<Longrightarrow> n = 0"
      using unat_digit [OF True] by simp
    with unat_digit [OF True] True show ?thesis by (auto simp: d is_digit_def digit_val_def simp del: of_nat_add)
  next
    case False
    let ?d = "word_of_nat (48 + n mod 10) :: u8"
    have d: "decimal n = decimal (n div 10) @ [?d]" using False by (subst decimal.simps) simp
    have u: "unat ?d = 48 + n mod 10" by (rule unat_digit) simp
    have dig: "is_digit ?d" "digit_val ?d = n mod 10"
      using u mod_less_divisor [of 10 n] unfolding is_digit_def digit_val_def by linarith+
    from 1 [OF False] False show ?thesis unfolding d by (auto simp: dig hd_append simp del: of_nat_add)
  qed
qed

lemma digit_of_val: "is_digit d \<Longrightarrow> word_of_nat (48 + digit_val d) = d"
  by (simp add: is_digit_def digit_val_def del: of_nat_add)

lemma decimal_dec_val:
  "ds \<noteq> [] \<Longrightarrow> list_all is_digit ds \<Longrightarrow> (hd ds = 48 \<longrightarrow> length ds = 1) \<Longrightarrow> decimal (dec_val 0 ds) = ds"
proof (induction ds rule: rev_induct)
  case (snoc d ds)
  have lt: "digit_val d < 10" using snoc.prems by (auto simp: digit_val_def is_digit_def)
  show ?case
  proof (cases "ds = []")
    case True
    with lt snoc.prems show ?thesis by (subst decimal.simps) (simp add: digit_of_val del: of_nat_add)
  next
    case False
    then have IH: "decimal (dec_val 0 ds) = ds" using snoc by (auto simp: Suc_length_conv)
    have "dec_val 0 ds \<noteq> 0"
    proof
      assume "dec_val 0 ds = 0"
      then have "ds = [48]" using IH by (simp add: decimal.simps)
      with snoc.prems show False by simp
    qed
    with lt have "\<not> dec_val 0 (ds @ [d]) < 10" "dec_val 0 (ds @ [d]) div 10 = dec_val 0 ds"
      "dec_val 0 (ds @ [d]) mod 10 = digit_val d" by auto
    with IH snoc.prems show ?thesis
      by (subst decimal.simps) (simp add: digit_of_val del: of_nat_add dec_val_simps)
  qed
qed simp

lemma length_decimal: "n < 10 ^ Suc k \<Longrightarrow> length (decimal n) \<le> Suc k"
proof (induction k arbitrary: n)
  case (Suc k)
  show ?case
  proof (cases "n < 10")
    case False
    have "n div 10 < 10 ^ Suc k" using Suc.prems by auto
    from Suc.IH [OF this] False show ?thesis by (subst decimal.simps) simp
  qed (simp add: decimal.simps)
qed (simp add: decimal.simps)

lemma length_decimal_u64: "length (decimal (unat (v :: u64))) \<le> 20"
proof -
  have "unat v < 2 ^ 64" using unat_u64_bound [of v] by simp
  then have "unat v < 10 ^ Suc 19" by simp
  from length_decimal [OF this] show ?thesis by simp
qed

section \<open>The parser accepts exactly the numerals\<close>

lemma unat_u64_of_nat: "m < 2 ^ 64 \<Longrightarrow> unat (word_of_nat m :: u64) = m"
  by (simp add: unat_of_nat)

lemma unat_digit_u64: "is_digit u \<Longrightarrow> unat (ucast (u - 48) :: u64) = digit_val u"
proof -
  assume "is_digit u"
  then have "48 \<le> u" by (simp add: is_digit_def word_le_nat_alt)
  then have "unat (u - 48) = unat u - 48" using \<open>is_digit u\<close> by (simp add: unat_sub_if' is_digit_def)
  moreover have "unat (u - 48) < 256" by (rule unat_u8_bound)
  ultimately show ?thesis by (simp add: digit_val_def unsigned_ucast_eq take_bit_nat_eq_self_iff)
qed

lemma parse_dotted_step:
  assumes "m < 2 ^ 64" and "u \<noteq> 46 \<or> cbs = []"
  shows "parse_dotted_loop (word_of_nat m) seen (u # cbs) =
    (if is_digit u \<and> \<not> (seen \<and> m = 0) \<and> 10 * m + digit_val u < 2 ^ 64
     then parse_dotted_loop (word_of_nat (10 * m + digit_val u)) True cbs else (None, cbs))"
proof -
  let ?m = "word_of_nat m :: u64"
  have m: "unat ?m = m" using assms(1) by (rule unat_u64_of_nat)
  have dig: "is_digit u \<longleftrightarrow> \<not> (u < 48 \<or> u > 57)" by (auto simp: is_digit_def word_less_nat_alt)
  show ?thesis
  proof (cases "is_digit u")
    case True
    have d: "unat (ucast (u - 48) :: u64) = digit_val u" using True by (rule unat_digit_u64)
    have d9: "digit_val u \<le> 9" using True unfolding is_digit_def digit_val_def by linarith
    have z: "?m = 0 \<longleftrightarrow> m = 0" using m by (auto simp: unat_eq_zero [symmetric] simp del: unat_eq_zero)
    have big: "(?m > UINT64_MAX div 10 \<or> ?m * 10 > UINT64_MAX - ucast (u - 48)) \<longleftrightarrow> \<not> 10 * m + digit_val u < 2 ^ 64"
    proof (cases "m \<le> (2 ^ 64 - 1) div 10")
      case True
      then have "unat (?m * 10) = 10 * m" using m by (simp add: unat_word_ariths)
      moreover have "unat (UINT64_MAX - ucast (u - 48)) = 2 ^ 64 - 1 - digit_val u"
        using d d9 by (simp add: UINT64_MAX_def unat_sub_if')
      moreover have "unat (UINT64_MAX div 10) = (2 ^ 64 - 1) div 10" by (simp add: UINT64_MAX_def unat_div)
      ultimately show ?thesis using m True d9 unfolding word_less_nat_alt by auto
    next
      case False
      moreover have "unat (UINT64_MAX div 10) = (2 ^ 64 - 1) div 10" by (simp add: UINT64_MAX_def unat_div)
      ultimately show ?thesis using m unfolding word_less_nat_alt by auto
    qed
    have step: "?m * 10 + ucast (u - 48) = word_of_nat (10 * m + digit_val u)"
    proof -
      have "(ucast (u - 48) :: u64) = word_of_nat (digit_val u)" using word_of_nat_unat d by metis
      then show ?thesis by (simp add: mult.commute)
    qed
    show ?thesis using assms(2) True dig z big step by (auto simp del: of_nat_add of_nat_mult)
  next
    case False
    with dig assms(2) show ?thesis by auto
  qed
qed

lemma parse_dotted_digits:
  assumes "list_all is_digit ds" and "dec_val m ds < 2 ^ 64" and "seen \<and> m = 0 \<longrightarrow> ds = []"
    and "m = 0 \<and> \<not> seen \<and> ds \<noteq> [] \<and> hd ds = 48 \<longrightarrow> length ds = 1"
  shows "parse_dotted_loop (word_of_nat m) seen (ds @ rest) =
    parse_dotted_loop (word_of_nat (dec_val m ds)) (seen \<or> ds \<noteq> []) rest"
  using assms
proof (induction ds arbitrary: m seen)
  case (Cons d ds)
  have d: "is_digit d" using Cons.prems by simp
  have lt: "10 * m + digit_val d < 2 ^ 64"
    using Cons.prems(2) dec_val_mono [of "10 * m + digit_val d" ds] by simp
  moreover have "d \<noteq> 46" using d by (auto simp: is_digit_def)
  ultimately have "parse_dotted_loop (word_of_nat m) seen (d # ds @ rest) =
      parse_dotted_loop (word_of_nat (10 * m + digit_val d)) True (ds @ rest)"
    using parse_dotted_step [of m d "ds @ rest" seen] d Cons.prems(3) by auto
  also have "\<dots> = parse_dotted_loop (word_of_nat (dec_val (10 * m + digit_val d) ds)) (True \<or> ds \<noteq> []) rest"
  proof (rule Cons.IH)
    have "digit_val d = 0 \<Longrightarrow> d = 48" using d digit_of_val [OF d] by simp
    then show "True \<and> 10 * m + digit_val d = 0 \<longrightarrow> ds = []" using Cons.prems(3,4) by auto
  qed (use Cons.prems in auto)
  finally show ?case by simp
qed simp

lemma parse_dotted_decimal_decimal:
  assumes "n < 2 ^ 64"
  shows "parse_dotted_decimal (decimal n) = (Some (word_of_nat n), [])"
    and "rest \<noteq> [] \<Longrightarrow> parse_dotted_decimal (decimal n @ 46 # rest) = (Some (word_of_nat n), rest)"
proof -
  have "hd (decimal n) = 48 \<longrightarrow> length (decimal n) = 1"
    using decimal_props [of n] by (auto simp: decimal.simps [of 0])
  then have "parse_dotted_loop 0 False (decimal n @ rest) = parse_dotted_loop (word_of_nat n) True rest" for rest
    using parse_dotted_digits [of "decimal n" 0 False rest] decimal_props [of n] assms by simp
  from this [of "[]"] this [of "46 # rest"] show "parse_dotted_decimal (decimal n) = (Some (word_of_nat n), [])"
    and "rest \<noteq> [] \<Longrightarrow> parse_dotted_decimal (decimal n @ 46 # rest) = (Some (word_of_nat n), rest)"
    by (simp_all add: parse_dotted_decimal_def)
qed

lemma parse_dotted_loop_sound:
  assumes "parse_dotted_loop (word_of_nat m) seen cbs = (Some v, rest)" and "m < 2 ^ 64"
  shows "\<exists>ds. list_all is_digit ds \<and> dec_val m ds = unat v \<and> (seen \<and> m = 0 \<longrightarrow> ds = []) \<and> (seen \<or> ds \<noteq> []) \<and>
    (m = 0 \<and> \<not> seen \<and> ds \<noteq> [] \<and> hd ds = 48 \<longrightarrow> length ds = 1) \<and>
    (cbs = ds \<and> rest = [] \<or> cbs = ds @ 46 # rest \<and> rest \<noteq> [])"
  using assms
proof (induction cbs arbitrary: m seen)
  case Nil
  then show ?case by (auto intro!: exI [of _ "[]"] simp: unat_u64_of_nat split: if_splits)
next
  case (Cons u cbs)
  show ?case
  proof (cases "u = 46 \<and> cbs \<noteq> []")
    case True
    with Cons.prems show ?thesis by (intro exI [of _ "[]"]) (auto simp: unat_u64_of_nat split: if_splits)
  next
    case False
    then have "parse_dotted_loop (word_of_nat m) seen (u # cbs) =
      (if is_digit u \<and> \<not> (seen \<and> m = 0) \<and> 10 * m + digit_val u < 2 ^ 64
       then parse_dotted_loop (word_of_nat (10 * m + digit_val u)) True cbs else (None, cbs))"
      by (intro parse_dotted_step [OF Cons.prems(2)]) auto
    with Cons.prems(1) have u: "is_digit u" "\<not> (seen \<and> m = 0)" "10 * m + digit_val u < 2 ^ 64"
      and r: "parse_dotted_loop (word_of_nat (10 * m + digit_val u)) True cbs = (Some v, rest)"
      by (auto split: if_splits)
    from Cons.IH [OF r u(3)] obtain ds where ds: "list_all is_digit ds" "dec_val (10 * m + digit_val u) ds = unat v"
      "10 * m + digit_val u = 0 \<longrightarrow> ds = []" "cbs = ds \<and> rest = [] \<or> cbs = ds @ 46 # rest \<and> rest \<noteq> []" by auto
    have "m = 0 \<and> u = 48 \<longrightarrow> ds = []" using ds(3) by (auto simp: digit_val_def)
    with ds u show ?thesis by (intro exI [of _ "u # ds"]) auto
  qed
qed

lemma parse_dotted_decimal_sound:
  assumes "parse_dotted_decimal cbs = (Some v, rest)"
  shows "cbs = decimal (unat v) \<and> rest = [] \<or> cbs = decimal (unat v) @ 46 # rest \<and> rest \<noteq> []"
proof -
  from parse_dotted_loop_sound [of 0 False cbs v rest] assms [unfolded parse_dotted_decimal_def]
  obtain ds where "list_all is_digit ds" "dec_val 0 ds = unat v" "ds \<noteq> []" "hd ds = 48 \<longrightarrow> length ds = 1"
    and c: "cbs = ds \<and> rest = [] \<or> cbs = ds @ 46 # rest \<and> rest \<noteq> []" by auto
  then have "decimal (unat v) = ds" using decimal_dec_val [of ds] by simp
  with c show ?thesis by simp
qed

section \<open>Printing numbers\<close>

lemma roomy_decimal:
  assumes "malloc_ok alloc" and "alloc_total alloc" and "roomy d (20 + n) t"
  shows "\<exists>t'. add_decimal alloc d v t = (True, t') \<and> appends t d (decimal (unat v)) t' \<and> roomy d n t'"
proof -
  have l: "length (decimal (unat v)) \<le> 20" by (rule length_decimal_u64)
  then have "take DECIMAL_SIZE_u64 (decimal (unat v)) = decimal (unat v)" by (simp add: DECIMAL_SIZE_u64_def)
  moreover have "roomy d (length (decimal (unat v)) + n) t" using assms(3) l roomy_mono by simp
  ultimately show ?thesis using roomy_bytes [OF assms(1,2)] by (simp add: add_decimal_def)
qed

section \<open>Object identifiers\<close>

fun oid_text :: "u64 list \<Rightarrow> u8 list" where
  "oid_text [] = []"
| "oid_text [a] = decimal (unat a)"
| "oid_text (a # b # cs) = decimal (unat a) @ 46 # oid_text (b # cs)"

text \<open>The identifiers X.690 can encode whose first octets fit 64 bits.\<close>

fun oid_ok :: "u64 list \<Rightarrow> bool" where
  "oid_ok (a # b # cs) \<longleftrightarrow> a \<le> 2 \<and> (a < 2 \<longrightarrow> b \<le> 39) \<and> b \<le> UINT64_MAX - 80"
| "oid_ok _ \<longleftrightarrow> False"

fun oid_bytes :: "u64 list \<Rightarrow> u8 list" where
  "oid_bytes (a # b # cs) = concat (map (\<lambda>c. base128 (unat c)) ((40 * a + b) # cs))"
| "oid_bytes _ = []"

lemma decimal_ne [simp]: "decimal n \<noteq> []"
  using decimal_props by blast

lemma oid_text_Nil_iff [simp]: "oid_text cs = [] \<longleftrightarrow> cs = []"
  by (cases cs rule: oid_text.cases) simp_all

lemma oid_text_Cons: "oid_text (a # cs) = decimal (unat a) @ (if cs = [] then [] else 46 # oid_text cs)"
  by (cases cs) simp_all

lemma parse_dotted_oid_text: "parse_dotted_decimal (oid_text (a # cs)) = (Some a, oid_text cs)"
  using parse_dotted_decimal_decimal(1) [of "unat a"] parse_dotted_decimal_decimal(2) [of "unat a" "oid_text cs"]
    unat_u64_bound [of a]
  by (simp add: oid_text_Cons word_of_nat_unat)

lemma parse_dotted_text:
  assumes "parse_dotted_decimal cbs = (Some a, rest)" and "rest = oid_text cs"
  shows "cbs = oid_text (a # cs)"
  using parse_dotted_decimal_sound [OF assms(1)] assms(2) by (auto simp: oid_text_Cons)

lemma oid_components_loop_sound:
  assumes "malloc_ok alloc" and "ct_inv t" and "length (ct_chain t) = Suc d"
    and "oid_components_loop alloc d cbs t = (True, t')"
  shows "\<exists>cs. cbs = oid_text cs \<and> appends t d (concat (map (\<lambda>c. base128 (unat c)) cs)) t'"
  using assms(2-4)
proof (induction "length cbs" arbitrary: cbs t rule: less_induct)
  case less
  show ?case
  proof (cases "cbs = []")
    case True
    have "snd (ct_view t) = tl (ct_chain t)" by (simp add: ct_view_def)
    then have "spec_flush d (ct_view t) = ct_view t" using less.prems(2) by (intro spec_flush_idem) simp
    with True less.prems show ?thesis
      by (intro exI [of _ "[]"]) (simp add: oid_components_loop.simps CBS_len_def appends_def spec_append_Nil)
  next
    case False
    with less.prems(3) obtain a rest t1 where p: "parse_dotted_decimal cbs = (Some a, rest)"
      and b: "add_base128_integer alloc d a t = (True, t1)" and r: "oid_components_loop alloc d rest t1 = (True, t')"
      by (subst (asm) oid_components_loop.simps)
        (auto simp: CBS_len_def split: prod.splits option.splits bool.splits)
    note a = appends_base128 [OF assms(1) less.prems(1) b]
    have "length rest < length cbs" using p False parse_dotted_loop_shorter by (auto simp: parse_dotted_decimal_def)
    moreover have "ct_inv t1" "length (ct_chain t1) = Suc d" using a by (auto simp: appends_def)
    ultimately obtain cs where "rest = oid_text cs" "appends t1 d (concat (map (\<lambda>c. base128 (unat c)) cs)) t'"
      using less.hyps r by blast
    with parse_dotted_text [OF p] appends_trans [OF a] show ?thesis by (intro exI [of _ "a # cs"]) simp
  qed
qed

lemma oid_components_loop_live:
  assumes "malloc_ok alloc" and "alloc_total alloc"
  shows "roomy d (length (concat (map (\<lambda>c. base128 (unat c)) cs)) + n) t \<Longrightarrow>
    \<exists>t'. oid_components_loop alloc d (oid_text cs) t = (True, t') \<and> roomy d n t'"
proof (induction cs arbitrary: t)
  case Nil
  then show ?case by (simp add: oid_components_loop.simps CBS_len_def)
next
  case (Cons a cs)
  let ?n = "length (concat (map (\<lambda>c. base128 (unat c)) cs)) + n"
  have "roomy d (length (base128 (unat a)) + ?n) t" using Cons.prems by (simp add: add.assoc)
  from roomy_base128 [OF assms this] obtain t1 where "add_base128_integer alloc d a t = (True, t1)" "roomy d ?n t1"
    by blast
  moreover from Cons.IH [OF this(2)] obtain t' where
    "oid_components_loop alloc d (oid_text cs) t1 = (True, t')" "roomy d n t'" by blast
  ultimately show ?case
    by (subst oid_components_loop.simps) (simp add: CBS_len_def parse_dotted_oid_text)
qed

lemma CBB_add_asn1_oid_from_text_sound:
  assumes "malloc_ok alloc" and "ct_inv t" and "CBB_add_asn1_oid_from_text alloc d txt t = (True, t')"
  shows "\<exists>cs. oid_ok cs \<and> txt = oid_text cs \<and> appends t d (oid_bytes cs) t'"
proof -
  from assms(3) obtain t1 a cbs b cbs' t2 where fl: "CBB_flush alloc d t = (True, t1)"
    and a: "parse_dotted_decimal txt = (Some a, cbs)" and b: "parse_dotted_decimal cbs = (Some b, cbs')"
    and c: "\<not> (a > 2 \<or> (a < 2 \<and> b > 39) \<or> b > UINT64_MAX - 80)"
    and ab: "add_base128_integer alloc d (40 * a + b) t1 = (True, t2)"
    and r: "oid_components_loop alloc d cbs' t2 = (True, t')"
    by (auto simp: CBB_add_asn1_oid_from_text_def CBS_init_def split: prod.splits option.splits bool.splits if_splits)
  note a0 = appends_flush [OF assms(1,2) fl]
  note a1 = appends_base128 [OF assms(1) appends_inv [OF a0] ab]
  have "ct_inv t2" "length (ct_chain t2) = Suc d" using a1 by (auto simp: appends_def)
  from oid_components_loop_sound [OF assms(1) this r] obtain cs where
    cs: "cbs' = oid_text cs" "appends t2 d (concat (map (\<lambda>c. base128 (unat c)) cs)) t'" by blast
  have "txt = oid_text (a # b # cs)" using parse_dotted_text [OF a parse_dotted_text [OF b cs(1)]] .
  moreover have "appends t d (oid_bytes (a # b # cs)) t'"
    using appends_trans [OF appends_trans [OF a0 a1] cs(2)] by simp
  moreover have "oid_ok (a # b # cs)" using c by (auto simp: linorder_not_less)
  ultimately show ?thesis by blast
qed

lemma CBB_add_asn1_oid_from_text_live:
  assumes "malloc_ok alloc" and "alloc_total alloc" and "oid_ok cs"
    and "roomy d (length (oid_bytes cs) + n) t"
  shows "\<exists>t'. CBB_add_asn1_oid_from_text alloc d (oid_text cs) t = (True, t') \<and> roomy d n t'"
proof -
  from assms(3) obtain a b ds where cs: "cs = a # b # ds" by (cases cs rule: oid_ok.cases) auto
  let ?n = "length (concat (map (\<lambda>c. base128 (unat c)) ds)) + n"
  have "roomy d (length (base128 (unat (40 * a + b))) + ?n) t" using assms(4) by (simp add: cs add.assoc)
  from roomy_base128 [OF assms(1,2) this] obtain t1 where
    t1: "add_base128_integer alloc d (40 * a + b) t = (True, t1)" "roomy d ?n t1" by blast
  from oid_components_loop_live [OF assms(1,2) t1(2)] obtain t' where
    t': "oid_components_loop alloc d (oid_text ds) t1 = (True, t')" "roomy d n t'" by blast
  have "CBB_flush alloc d t = (True, t)"
    using assms(4) by (auto simp: roomy_def CBB_flush_def ct_inv_def split: option.splits)
  moreover have "\<not> (a > 2 \<or> (a < 2 \<and> b > 39) \<or> b > UINT64_MAX - 80)" using assms(3) by (auto simp: cs linorder_not_less)
  ultimately show ?thesis using t1 t'
    by (simp add: CBB_add_asn1_oid_from_text_def CBS_init_def cs parse_dotted_oid_text del: oid_text.simps)
qed

section \<open>Printing\<close>

lemma oid_text_loop_live:
  assumes "malloc_ok alloc" and "alloc_total alloc"
  shows "roomy d (21 * length (cs :: u64 list) + n) t \<Longrightarrow>
    \<exists>t'. oid_text_loop alloc d (concat (map (\<lambda>c. base128 (unat c)) cs)) t = (True, t') \<and> roomy d n t' \<and>
      appends t d (concat (map (\<lambda>c. 46 # decimal (unat c)) cs)) t'"
proof (induction cs arbitrary: t)
  case Nil
  have "snd (ct_view t) = tl (ct_chain t)" by (simp add: ct_view_def)
  then have "spec_flush d (ct_view t) = ct_view t" using Nil by (intro spec_flush_idem) (simp add: roomy_def)
  with Nil show ?case by (simp add: oid_text_loop.simps CBS_len_def appends_def spec_append_Nil roomy_def)
next
  case (Cons c cs)
  let ?m = "21 * length cs + n" and ?rest = "concat (map (\<lambda>c. base128 (unat c)) cs)"
  have "roomy d (Suc (20 + ?m)) t" using Cons.prems by (simp add: algebra_simps)
  from roomy_u8 [OF assms this, of 46] obtain t1 where
    t1: "CBB_add_u8 alloc d 46 t = (True, t1)" "appends t d [46] t1" "roomy d (20 + ?m) t1" by blast
  from roomy_decimal [OF assms t1(3), of c] obtain t2 where
    t2: "add_decimal alloc d c t1 = (True, t2)" "appends t1 d (decimal (unat c)) t2" "roomy d ?m t2" by blast
  from Cons.IH [OF t2(3)] obtain t' where t': "oid_text_loop alloc d ?rest t2 = (True, t')" "roomy d n t'"
    "appends t2 d (concat (map (\<lambda>c. 46 # decimal (unat c)) cs)) t'" by blast
  have p: "parse_base128_integer (base128 (unat c) @ ?rest) = (Some c, ?rest)"
    using parse_base128_integer_base128 [of "unat c"] unat_u64_bound [of c] by (simp add: word_of_nat_unat)
  have "CBS_len (base128 (unat c) @ ?rest) \<noteq> 0" by (simp add: CBS_len_def base128_def)
  then have "oid_text_loop alloc d (base128 (unat c) @ ?rest) t = (True, t')"
    using p t1 t2 t' by (subst oid_text_loop.simps) simp
  with t' appends_trans [OF appends_trans [OF t1(2) t2(2)] t'(3)] show ?case by simp
qed

lemma oid_text_loop_sound:
  "oid_text_loop alloc d cbs t = (True, t') \<Longrightarrow> \<exists>cs :: u64 list. cbs = concat (map (\<lambda>c. base128 (unat c)) cs)"
proof (induction "length cbs" arbitrary: cbs t rule: less_induct)
  case less
  show ?case
  proof (cases "cbs = []")
    case False
    with less.prems obtain v rest t2 where p: "parse_base128_integer cbs = (Some v, rest)"
      and r: "oid_text_loop alloc d rest t2 = (True, t')"
      using oid_text_loop.simps [of alloc d cbs t]
      by (simp add: CBS_len_def split: prod.splits option.splits bool.splits)
    have cbs: "cbs = base128 (unat v) @ rest" using p by (rule parse_base128_integer_sound)
    then have "length rest < length cbs" by (simp add: base128_def)
    with less.hyps r obtain cs :: "u64 list" where "rest = concat (map (\<lambda>c. base128 (unat c)) cs)" by blast
    with cbs show ?thesis by (intro exI [of _ "v # cs"]) simp
  qed (auto intro: exI [of _ "[]"])
qed

text \<open>The first two components from the first octets.\<close>

definition oid_first :: "u64 \<Rightarrow> u64 \<times> u64" where
  "oid_first v = (if v \<ge> 80 then (2, v - 80) else (v div 40, v mod 40))"

lemma oid_first_ok:
  "oid_ok (fst (oid_first v) # snd (oid_first v) # cs)" "40 * fst (oid_first v) + snd (oid_first v) = v"
proof -
  have "\<not> 80 \<le> v \<Longrightarrow> v div 40 < 2"
    by (simp add: word_less_nat_alt word_le_nat_alt unat_div div_less_iff_less_mult)
  moreover have "v mod 40 \<le> 39" by (simp add: word_le_nat_alt unat_mod)
  moreover have "80 \<le> v \<Longrightarrow> v - 80 \<le> UINT64_MAX - 80"
    using unat_u64_bound [of v] by (simp add: UINT64_MAX_def word_le_nat_alt unat_sub_if')
  moreover have "(39 :: u64) \<le> UINT64_MAX - 80" by (simp add: UINT64_MAX_def)
  ultimately show "oid_ok (fst (oid_first v) # snd (oid_first v) # cs)"
    by (auto simp: oid_first_def)
  have "40 * (v div 40) + v mod 40 = v"
    by (rule word_unat_eq_iff [THEN iffD2]) (use unat_u64_bound [of v] in \<open>simp add: unat_word_ariths unat_div unat_mod\<close>)
  then show "40 * fst (oid_first v) + snd (oid_first v) = v" by (simp add: oid_first_def)
qed

lemma oid_first_unique: "oid_ok (a # b # cs) \<Longrightarrow> oid_first (40 * a + b) = (a, b)"
proof -
  assume ok: "oid_ok (a # b # cs)"
  have a2: "unat a \<le> 2" using ok by (simp add: word_le_nat_alt)
  have b: "unat b \<le> 2 ^ 64 - 81" "unat a < 2 \<Longrightarrow> unat b \<le> 39"
    using ok by (simp_all add: UINT64_MAX_def word_le_nat_alt word_less_nat_alt)
  have m: "unat (40 * a) = 40 * unat a" using a2 by (simp add: unat_word_ariths)
  have v: "unat (40 * a + b) = 40 * unat a + unat b" using a2 b(1) m by (simp add: unat_word_ariths)
  show ?thesis
  proof (cases "unat a = 2")
    case True
    then have "a = 2" by (simp add: word_unat_eq_iff)
    moreover have "80 \<le> 40 * a + b" using v True by (simp add: word_le_nat_alt)
    ultimately show ?thesis by (simp add: oid_first_def)
  next
    case False
    with a2 have a: "unat a < 2" by simp
    note b39 = b(2) [OF a]
    have "\<not> 80 \<le> 40 * a + b" unfolding word_le_nat_alt v using a b39 by simp
    moreover have "(40 * a + b) div 40 = a" "(40 * a + b) mod 40 = b"
      unfolding word_unat_eq_iff unat_div unat_mod v using b39 by simp_all
    ultimately show ?thesis by (simp add: oid_first_def)
  qed
qed

text \<open>What \<open>CBS_asn1_oid_to_text\<close> writes for the first octets.\<close>

definition oid_first_print :: "allocator \<Rightarrow> u64 \<Rightarrow> cbb_tree \<Rightarrow> bool \<times> cbb_tree" where
  "oid_first_print alloc v cbb =
    (if v \<ge> 80
     then (case CBB_add_bytes alloc 0 [50, 46] cbb of
             (False, t) \<Rightarrow> (False, t)
           | (True, t) \<Rightarrow> add_decimal alloc 0 (v - 80) t)
     else (case add_decimal alloc 0 (v div 40) cbb of
             (False, t) \<Rightarrow> (False, t)
           | (True, t) \<Rightarrow>
              (case CBB_add_u8 alloc 0 46 t of
                 (False, t') \<Rightarrow> (False, t')
               | (True, t') \<Rightarrow> add_decimal alloc 0 (v mod 40) t')))"

lemma oid_first_print_live:
  assumes "malloc_ok alloc" and "alloc_total alloc" and "roomy 0 (41 + n) t"
  shows "\<exists>t'. oid_first_print alloc v t = (True, t') \<and> roomy 0 n t' \<and>
    appends t 0 (decimal (unat (fst (oid_first v))) @ 46 # decimal (unat (snd (oid_first v)))) t'"
proof (cases "v \<ge> 80")
  case True
  have "roomy 0 (length [50, 46 :: u8] + (20 + n)) t" by (rule roomy_mono [OF assms(3)]) simp
  from roomy_bytes [OF assms(1,2) this] obtain t1 where
    t1: "CBB_add_bytes alloc 0 [50, 46] t = (True, t1)" "appends t 0 [50, 46] t1" "roomy 0 (20 + n) t1" by blast
  from roomy_decimal [OF assms(1,2) t1(3), of "v - 80"] obtain t2 where
    "add_decimal alloc 0 (v - 80) t1 = (True, t2)" "appends t1 0 (decimal (unat (v - 80))) t2" "roomy 0 n t2" by blast
  moreover have "decimal 2 = [50]" by (simp add: decimal.simps)
  ultimately show ?thesis using True t1 appends_trans [OF t1(2)]
    by (auto simp: oid_first_print_def oid_first_def)
next
  case False
  have "roomy 0 (20 + Suc (20 + n)) t" using assms(3) by (simp add: algebra_simps)
  from roomy_decimal [OF assms(1,2) this, of "v div 40"] obtain t1 where
    t1: "add_decimal alloc 0 (v div 40) t = (True, t1)" "appends t 0 (decimal (unat (v div 40))) t1"
      "roomy 0 (Suc (20 + n)) t1" by blast
  from roomy_u8 [OF assms(1,2) t1(3), of 46] obtain t2 where
    t2: "CBB_add_u8 alloc 0 46 t1 = (True, t2)" "appends t1 0 [46] t2" "roomy 0 (20 + n) t2" by blast
  from roomy_decimal [OF assms(1,2) t2(3), of "v mod 40"] obtain t3 where
    t3: "add_decimal alloc 0 (v mod 40) t2 = (True, t3)" "appends t2 0 (decimal (unat (v mod 40))) t3" "roomy 0 n t3"
    by blast
  show ?thesis using False t1 t2 t3 appends_trans [OF t1(2) appends_trans [OF t2(2) t3(2)]]
    by (simp add: oid_first_print_def oid_first_def)
qed

lemma oid_to_text_alt:
  "CBS_asn1_oid_to_text alloc cbs =
    (case CBB_init alloc 32 of
       None \<Rightarrow> None
     | Some cbb \<Rightarrow>
        (case parse_base128_integer cbs of
           (None, _) \<Rightarrow> None
         | (Some v, copy) \<Rightarrow>
            (case oid_first_print alloc v cbb of
               (False, _) \<Rightarrow> None
             | (True, t) \<Rightarrow>
                (case oid_text_loop alloc 0 copy t of
                   (False, _) \<Rightarrow> None
                 | (True, t) \<Rightarrow>
                    (case CBB_add_u8 alloc 0 0 t of
                       (False, _) \<Rightarrow> None
                     | (True, t) \<Rightarrow> fst (CBB_finish alloc 0 t True))))))"
  unfolding CBS_asn1_oid_to_text_def oid_first_print_def ..

lemma oid_text_arcs: "oid_text (a # b # cs) =
  decimal (unat a) @ 46 # decimal (unat b) @ concat (map (\<lambda>c. 46 # decimal (unat c)) cs)"
proof -
  have "oid_text (b # cs) = decimal (unat b) @ concat (map (\<lambda>c. 46 # decimal (unat c)) cs)" for b
    by (induction cs arbitrary: b) simp_all
  then show ?thesis by simp
qed

lemma CBS_asn1_oid_to_text_live:
  assumes "malloc_ok alloc" and "alloc_total alloc" and "oid_ok cs" and "21 * length cs < SIZE_BOUND"
  shows "CBS_asn1_oid_to_text alloc (oid_bytes cs) = Some (oid_text cs @ [0])"
proof -
  from assms(3) obtain a b ds where cs: "cs = a # b # ds" by (cases cs rule: oid_ok.cases) auto
  let ?v = "40 * a + b" and ?ds = "concat (map (\<lambda>c. base128 (unat c)) ds)"
  let ?n = "21 * length ds + 1"
  have fs: "oid_first ?v = (a, b)" using assms(3) by (simp add: cs oid_first_unique)
  have "alloc 32 \<noteq> None" using assms(2) by (simp add: alloc_total_def SIZE_BOUND_def)
  then obtain t0 where i: "CBB_init alloc 32 = Some t0"
    by (auto simp: CBB_init_def cbb_init_def SIZEOF_CBB_BUFFER_def)
  have "(32 :: nat) < SIZE_BOUND" by (simp add: SIZE_BOUND_def)
  note t0 = CBB_init_ok [OF assms(1) i this]
  have "roomy 0 (41 + ?n) t0" using t0 assms(4) by (simp add: roomy_def cs)
  from oid_first_print_live [OF assms(1,2) this, of ?v] obtain t1 where
    t1: "oid_first_print alloc ?v t0 = (True, t1)" "roomy 0 ?n t1"
      "appends t0 0 (decimal (unat a) @ 46 # decimal (unat b)) t1" by (auto simp: fs)
  from oid_text_loop_live [OF assms(1,2) t1(2)] obtain t2 where
    t2: "oid_text_loop alloc 0 ?ds t1 = (True, t2)" "roomy 0 1 t2"
      "appends t1 0 (concat (map (\<lambda>c. 46 # decimal (unat c)) ds)) t2" by blast
  from t2(2) have "roomy 0 (Suc 0) t2" by simp
  from roomy_u8 [OF assms(1,2) this, of 0] obtain t3 where
    t3: "CBB_add_u8 alloc 0 0 t2 = (True, t3)" "appends t2 0 [0] t3" "roomy 0 0 t3" by blast
  have "appends t0 0 (oid_text cs @ [0]) t3"
    using appends_trans [OF appends_trans [OF t1(3) t2(3)] t3(2)] by (simp only: cs oid_text_arcs) simp
  then have v3: "ct_view t3 = (oid_text cs @ [0], [])" by (simp add: appends_def t0(2) spec_append_def spec_flush_def)
  have "CBB_finish alloc 0 t3 True = (Some (oid_text cs @ [0]), CBB_cleanup t3)"
  proof -
    from t3(3) have r: "ct_inv t3" "length (ct_chain t3) = Suc 0" by (auto simp: roomy_def)
    from r(1) obtain b where b: "ct_base t3 = Some b" "\<not> cb_error b" "ct_view t3 = (cb_bytes b, tl (ct_chain t3))"
      by (rule ct_invE) (auto simp: ct_view_def)
    then have "CBB_flush alloc 0 t3 = (True, t3)" using r by (simp add: CBB_flush_def)
    with b v3 show ?thesis by (simp add: CBB_finish_def cb_bytes_def)
  qed
  moreover have "parse_base128_integer (base128 (unat ?v) @ ?ds) = (Some ?v, ?ds)"
    using parse_base128_integer_base128 [of "unat ?v"] unat_u64_bound [of ?v] by (simp add: word_of_nat_unat)
  ultimately show ?thesis unfolding oid_to_text_alt using i t1 t2 t3 by (simp add: cs)
qed

lemma CBS_asn1_oid_to_text_sound:
  assumes "CBS_asn1_oid_to_text alloc cbs = Some txt"
  shows "\<exists>cs. oid_ok cs \<and> cbs = oid_bytes cs"
proof -
  from assms obtain v copy t t' where p: "parse_base128_integer cbs = (Some v, copy)"
    and l: "oid_text_loop alloc 0 copy t = (True, t')"
    unfolding oid_to_text_alt by (simp split: option.splits prod.splits bool.splits)
  from oid_text_loop_sound [OF l] obtain ds :: "u64 list" where
    ds: "copy = concat (map (\<lambda>c. base128 (unat c)) ds)" by blast
  obtain a b where f: "oid_first v = (a, b)" by force
  from oid_first_ok(1) [of v ds] oid_first_ok(2) [of v] f have "oid_ok (a # b # ds)" "40 * a + b = v" by simp_all
  moreover have "cbs = oid_bytes (a # b # ds)"
    using parse_base128_integer_sound [OF p] ds calculation(2) by simp
  ultimately show ?thesis by blast
qed

section \<open>Properties\<close>

lemma length_oid_bytes: "oid_ok cs \<Longrightarrow> length cs \<le> length (oid_bytes cs) + 1"
proof -
  have "length ds \<le> length (concat (map (\<lambda>c :: u64. base128 (unat c)) ds))" for ds
    by (induction ds) (simp_all add: base128_def)
  note len = this
  assume "oid_ok cs"
  then obtain a b cs' where cs: "cs = a # b # cs'" by (cases cs rule: oid_ok.cases) auto
  show "length cs \<le> length (oid_bytes cs) + 1" using len [of "(40 * a + b) # cs'"] by (simp add: cs)
qed

lemma oid_ok_length: "oid_ok cs \<Longrightarrow> 21 * (length (oid_bytes cs) + 1) < SIZE_BOUND \<Longrightarrow> 21 * length cs < SIZE_BOUND"
  using length_oid_bytes [of cs] by simp

lemma oid_text_inj: "oid_text cs = oid_text ds \<Longrightarrow> cs = ds"
proof (induction cs arbitrary: ds)
  case Nil
  then show ?case by (metis oid_text.simps(1) oid_text_Nil_iff)
next
  case (Cons a cs)
  then obtain b ds' where ds: "ds = b # ds'" by (cases ds) (auto simp: oid_text_Cons)
  with Cons.prems parse_dotted_oid_text [of a cs] parse_dotted_oid_text [of b ds'] have "a = b" "oid_text cs = oid_text ds'" by simp_all
  with Cons.IH ds show ?case by simp
qed

text \<open>
  C7: \<open>CBS_asn1_oid_to_text\<close> prints exactly the contents that are the DER encoding of an object
  identifier whose arcs fit 64 bits, and prints it in dotted decimal with a terminator. Every other input, with
  padded or truncated arcs, is rejected.
\<close>

theorem oid_to_text_exact:
  assumes "malloc_ok alloc" and "alloc_total alloc" and "21 * (length cbs + 1) < SIZE_BOUND"
  shows "CBS_asn1_oid_to_text alloc cbs = Some txt \<longleftrightarrow> (\<exists>cs. oid_ok cs \<and> cbs = oid_bytes cs \<and> txt = oid_text cs @ [0])"
proof
  assume s: "CBS_asn1_oid_to_text alloc cbs = Some txt"
  from CBS_asn1_oid_to_text_sound [OF this] obtain cs where cs: "oid_ok cs" "cbs = oid_bytes cs" by blast
  with oid_ok_length [OF cs(1)] assms have "CBS_asn1_oid_to_text alloc cbs = Some (oid_text cs @ [0])"
    by (simp add: CBS_asn1_oid_to_text_live)
  with s cs show "\<exists>cs. oid_ok cs \<and> cbs = oid_bytes cs \<and> txt = oid_text cs @ [0]" by auto
next
  assume "\<exists>cs. oid_ok cs \<and> cbs = oid_bytes cs \<and> txt = oid_text cs @ [0]"
  then show "CBS_asn1_oid_to_text alloc cbs = Some txt" using assms oid_ok_length by (auto simp: CBS_asn1_oid_to_text_live)
qed

theorem oid_to_text_exact_witness: "CBS_asn1_oid_to_text calloc [42, 3] = Some (map (\<lambda>c. word_of_nat (of_char c)) ''1.2.3'' @ [0])"
proof -
  have "oid_bytes [1, 2, 3] = [42, 3]" by (simp add: base128_def)
  moreover have "oid_text [1, 2, 3] = map (\<lambda>c. word_of_nat (of_char c)) ''1.2.3''" by (simp add: decimal.simps of_char_def)
  moreover have "oid_ok [1, 2, 3]" by (simp add: UINT64_MAX_def)
  ultimately show ?thesis
    using oid_to_text_exact [OF calloc_ok, of "[42, 3]" "map (\<lambda>c. word_of_nat (of_char c)) ''1.2.3'' @ [0]"]
    by (simp only: SIZE_BOUND_def) (force simp del: oid_bytes.simps oid_text.simps oid_ok.simps)
qed

text \<open>
  C20: a text that \<open>CBB_add_asn1_oid_from_text\<close> accepts is what \<open>CBS_asn1_oid_to_text\<close> prints for the
  bytes it wrote: the accepted texts are the canonical ones.
\<close>

theorem oid_text_roundtrip:
  assumes "malloc_ok alloc" and "alloc_total alloc" and "CBB_init alloc cap = Some t" and "cap < SIZE_BOUND"
    and "CBB_add_asn1_oid_from_text alloc 0 txt t = (True, t1)" and "CBB_finish alloc 0 t1 want = (Some out, t2)"
    and "21 * (length out + 1) < SIZE_BOUND"
  shows "CBS_asn1_oid_to_text alloc out = Some (txt @ [0])"
proof -
  note i = CBB_init_ok [OF assms(1,3,4)]
  from CBB_add_asn1_oid_from_text_sound [OF assms(1) i(1) assms(5)] obtain cs where
    cs: "oid_ok cs" "txt = oid_text cs" "appends t 0 (oid_bytes cs) t1" by blast
  have "spec_flush 0 (ct_view t1) = (out, [])" using CBB_finish_ok(1) [OF assms(1) appends_inv [OF cs(3)] assms(6)] .
  then have "out = oid_bytes cs" using cs(3) i(2) by (simp add: appends_def spec_flush_append) (simp add: spec_append_def spec_flush_def)
  with CBS_asn1_oid_to_text_live [OF assms(1,2) cs(1)] oid_ok_length [OF cs(1)] assms(7) cs(2) show ?thesis by simp
qed

theorem oid_text_roundtrip_witness:
  "\<exists>t1 t2. CBB_add_asn1_oid_from_text calloc 0 (oid_text [1, 2, 3]) empty_cbb = (True, t1) \<and>
    CBB_finish calloc 0 t1 True = (Some [42, 3], t2) \<and> CBS_asn1_oid_to_text calloc [42, 3] = Some (oid_text [1, 2, 3] @ [0])"
proof -
  have init: "CBB_init calloc 0 = Some empty_cbb" by (simp add: CBB_init_def cbb_init_def calloc_def empty_cbb_def)
  have ok: "oid_ok [1, 2, 3]" and b: "oid_bytes [1, 2, 3] = [42, 3]" by (simp_all add: UINT64_MAX_def base128_def)
  have "roomy 0 (length (oid_bytes [1, 2, 3]) + 0) empty_cbb"
    by (rule roomy_empty_cbb) (simp only: b SIZE_BOUND_def, simp)
  from CBB_add_asn1_oid_from_text_live [OF calloc_ok ok this] obtain t1 where
    t1: "CBB_add_asn1_oid_from_text calloc 0 (oid_text [1, 2, 3]) empty_cbb = (True, t1)" "roomy 0 0 t1" by blast
  from CBB_add_asn1_oid_from_text_sound [OF calloc_ok(1) empty_cbb_view(2) t1(1)] oid_text_inj
  have a: "appends empty_cbb 0 [42, 3] t1" using b by metis
  then have v: "ct_inv t1" "ct_view t1 = ([42, 3], [])" "length (ct_chain t1) = 1"
    by (simp_all add: appends_def spec_append_def spec_flush_def empty_cbb_view)
  then obtain base where base: "ct_base t1 = Some base" "\<not> cb_error base" "take (cb_len base) (cb_buf base) = [42, 3]"
    by (auto simp: ct_inv_def ct_view_def cb_bytes_def split: option.splits)
  have r: "CBB_finish calloc 0 t1 True = (Some [42, 3], CBB_cleanup t1)"
    using v(3) base by (simp add: CBB_finish_def CBB_flush_def CBB_cleanup_def)
  have "CBS_asn1_oid_to_text calloc [42, 3] = Some (oid_text [1, 2, 3] @ [0])"
    using oid_text_roundtrip [OF calloc_ok init _ t1(1) r] by (simp add: SIZE_BOUND_def)
  with t1(1) r show ?thesis by blast
qed

end
