(* ===== verification/Sort_Search.thy ===== *)
theory Sort_Search imports Prelude "HOL-Library.Multiset" begin

text \<open>
  \<open>qsort\<close> and \<open>bsearch\<close> of the C library over a comparison function, and the contract of such a function.
  The contract is the locale \<open>comparator\<close>: the sign of a comparison is a total preorder. Its lemmas say
  that the sort sorts and that the search finds exactly when there is something to find; the SET OF
  comparison and the comparison functions of stacks are its clients.
\<close>

section \<open>The library functions\<close>

text \<open>\<open>qsort\<close> sorts by its comparison function; which sort it is does not show beyond the order of equals.\<close>

fun qsort_insert :: "('a \<Rightarrow> 'a \<Rightarrow> int) \<Rightarrow> 'a \<Rightarrow> 'a list \<Rightarrow> 'a list" where
  "qsort_insert cmp x [] = [x]"
| "qsort_insert cmp x (y # ys) = (if cmp x y \<le> 0 then x # y # ys else y # qsort_insert cmp x ys)"

definition qsort :: "('a \<Rightarrow> 'a \<Rightarrow> int) \<Rightarrow> 'a list \<Rightarrow> 'a list" where
  "qsort cmp xs = foldr (qsort_insert cmp) xs []"

text \<open>\<open>bsearch\<close>: the index of an element that compares equal to the key, found by halving.\<close>

function bsearch_loop :: "('a \<Rightarrow> 'a \<Rightarrow> int) \<Rightarrow> 'a \<Rightarrow> 'a list \<Rightarrow> nat \<Rightarrow> nat \<Rightarrow> nat option" where
  "bsearch_loop cmp key xs lo hi =
    (if lo < hi
     then let mid = lo + (hi - lo) div 2; c = cmp key (xs ! mid)
          in if c = 0 then Some mid
             else if c < 0 then bsearch_loop cmp key xs lo mid
             else bsearch_loop cmp key xs (mid + 1) hi
     else None)"
  by pat_completeness auto
termination by (relation "measure (\<lambda>(cmp, key, xs, lo, hi). hi - lo)") auto

declare bsearch_loop.simps [simp del]

definition bsearch :: "('a \<Rightarrow> 'a \<Rightarrow> int) \<Rightarrow> 'a \<Rightarrow> 'a list \<Rightarrow> nat option" where
  "bsearch cmp key xs = bsearch_loop cmp key xs 0 (length xs)"

lemma mset_qsort: "mset (qsort cmp xs) = mset xs"
proof -
  have "mset (qsort_insert cmp x ys) = add_mset x (mset ys)" for x ys by (induction ys) simp_all
  then show ?thesis by (induction xs) (simp_all add: qsort_def)
qed

lemma length_qsort [simp]: "length (qsort cmp xs) = length xs"
  using mset_eq_length [OF mset_qsort] .

lemma set_qsort [simp]: "set (qsort cmp xs) = set xs"
  using mset_eq_setD [OF mset_qsort] .

section \<open>The contract of a comparison function\<close>

locale comparator =
  fixes cmp :: "'a \<Rightarrow> 'a \<Rightarrow> int"
  assumes cmp_sgn: "sgn (cmp x y) = - sgn (cmp y x)"
    and cmp_trans: "cmp x y \<le> 0 \<Longrightarrow> cmp y z \<le> 0 \<Longrightarrow> cmp x z \<le> 0"
begin

lemma cmp_swap: "cmp x y \<le> 0 \<longleftrightarrow> 0 \<le> cmp y x" "cmp x y = 0 \<longleftrightarrow> cmp y x = 0" "cmp x y < 0 \<longleftrightarrow> 0 < cmp y x"
  using cmp_sgn [of x y] by (auto simp: sgn_if split: if_splits)

lemma cmp_total: "cmp x y \<le> 0 \<or> cmp y x \<le> 0"
  using cmp_swap(1) [of x y] by linarith

lemma sorted_qsort: "sorted_wrt (\<lambda>x y. cmp x y \<le> 0) (qsort cmp xs)"
proof -
  have m: "set (qsort_insert cmp x ys) = insert x (set ys)" for x ys by (induction ys) auto
  have "sorted_wrt (\<lambda>x y. cmp x y \<le> 0) ys \<Longrightarrow> sorted_wrt (\<lambda>x y. cmp x y \<le> 0) (qsort_insert cmp x ys)" for x ys
  proof (induction ys)
    case (Cons y ys)
    then show ?case using cmp_total [of x y] by (auto simp: m intro: cmp_trans)
  qed simp
  then show ?thesis by (induction xs) (simp_all add: qsort_def)
qed

text \<open>The keys below and above a probe: elements that equal the key are never outside the bounds.\<close>

lemma bsearch_loop_correct:
  assumes "sorted_wrt (\<lambda>x y. cmp x y \<le> 0) xs" and "hi \<le> length xs"
    and "\<forall>i < lo. 0 < cmp key (xs ! i)" and "\<forall>i. hi \<le> i \<longrightarrow> i < length xs \<longrightarrow> cmp key (xs ! i) < 0"
  shows "case bsearch_loop cmp key xs lo hi of
      Some i \<Rightarrow> i < length xs \<and> cmp key (xs ! i) = 0
    | None \<Rightarrow> \<forall>x \<in> set xs. cmp key x \<noteq> 0"
  using assms(2-4)
proof (induction "hi - lo" arbitrary: lo hi rule: less_induct)
  case less
  let ?mid = "lo + (hi - lo) div 2"
  have le: "cmp (xs ! i) (xs ! j) \<le> 0" if "i < j" "j < length xs" for i j
    using assms(1) that by (simp add: sorted_wrt_iff_nth_less)
  show ?case
  proof (cases "lo < hi")
    case False
    then have "cmp key (xs ! i) \<noteq> 0" if "i < length xs" for i
      using less.prems(2,3) that by (metis less_irrefl not_less order_trans)
    with False show ?thesis by (auto simp: bsearch_loop.simps [of _ _ _ lo hi] in_set_conv_nth)
  next
    case True
    then have mid: "lo \<le> ?mid" "?mid < hi" by simp_all
    consider "cmp key (xs ! ?mid) = 0" | "cmp key (xs ! ?mid) < 0" | "0 < cmp key (xs ! ?mid)" by linarith
    then show ?thesis
    proof cases
      case 1
      then show ?thesis using True mid less.prems(1) by (simp add: bsearch_loop.simps [of _ _ _ lo hi] Let_def)
    next
      case 2
      have "cmp key (xs ! i) < 0" if i: "?mid \<le> i" "i < length xs" for i
      proof (cases "i = ?mid")
        case False
        then have "cmp (xs ! ?mid) (xs ! i) \<le> 0" using le [of ?mid i] i by simp
        moreover have "\<not> cmp (xs ! ?mid) key \<le> 0" using 2 cmp_swap(3) [of key "xs ! ?mid"] by simp
        ultimately show ?thesis using cmp_trans [of "xs ! ?mid" "xs ! i" key] cmp_swap(1) [of "xs ! i" key] by linarith
      qed (use 2 in simp)
      moreover have "bsearch_loop cmp key xs lo hi = bsearch_loop cmp key xs lo ?mid"
        using True 2 by (simp add: bsearch_loop.simps [of _ _ _ lo hi] Let_def)
      moreover have "?mid - lo < hi - lo" "?mid \<le> length xs" using mid less.prems(1) by simp_all
      ultimately show ?thesis using less.hyps [of ?mid lo] less.prems(2) by presburger
    next
      case 3
      have "0 < cmp key (xs ! i)" if i: "i < ?mid + 1" for i
      proof (cases "i = ?mid")
        case False
        then have "cmp (xs ! i) (xs ! ?mid) \<le> 0" using le [of i ?mid] i mid less.prems(1) by simp
        then show ?thesis using 3 cmp_trans [of key "xs ! i" "xs ! ?mid"] by linarith
      qed (use 3 in simp)
      moreover have "bsearch_loop cmp key xs lo hi = bsearch_loop cmp key xs (?mid + 1) hi"
        using True 3 by (simp add: bsearch_loop.simps [of _ _ _ lo hi] Let_def)
      moreover have "hi - (?mid + 1) < hi - lo" using mid by linarith
      ultimately show ?thesis using less.hyps [of hi "?mid + 1"] less.prems(1,3) by presburger
    qed
  qed
qed

lemma bsearch_correct:
  assumes "sorted_wrt (\<lambda>x y. cmp x y \<le> 0) xs"
  shows "bsearch cmp key xs = Some i \<Longrightarrow> i < length xs \<and> cmp key (xs ! i) = 0"
    and "bsearch cmp key xs = None \<Longrightarrow> \<forall>x \<in> set xs. cmp key x \<noteq> 0"
  using bsearch_loop_correct [OF assms, of "length xs" 0 key] by (simp_all add: bsearch_def)

text \<open>A match with no match just before it is the first.\<close>

lemma first_match:
  assumes "sorted_wrt (\<lambda>x y. cmp x y \<le> 0) xs" and "f < length xs" and "cmp key (xs ! f) = 0"
    and "0 < f \<Longrightarrow> cmp key (xs ! (f - 1)) \<noteq> 0"
  shows "\<forall>j < f. cmp key (xs ! j) \<noteq> 0"
proof (intro allI impI notI)
  fix j
  assume j: "j < f" and eq: "cmp key (xs ! j) = 0"
  have le: "cmp (xs ! i) (xs ! k) \<le> 0" if "i < k" "k < length xs" for i k
    using assms(1) that by (simp add: sorted_wrt_iff_nth_less)
  have "cmp (xs ! (f - 1)) key \<le> 0"
    using cmp_trans [OF le [of "f - 1" f], of key] cmp_swap(2) [of key "xs ! f"] assms(2,3) j by simp
  moreover have "cmp key (xs ! (f - 1)) \<le> 0"
  proof (cases "j = f - 1")
    case False
    then show ?thesis using cmp_trans [of key "xs ! j" "xs ! (f - 1)"] le [of j "f - 1"] eq j assms(2) by simp
  qed (use eq in simp)
  ultimately show False using cmp_swap(1) [of "xs ! (f - 1)" key] assms(4) j by simp
qed

end

end
