(* ===== verification/SetOf.thy ===== *)
theory SetOf imports CBB_Progress Sort_Search begin

text \<open>
  DER SET OF: \<open>compare_set_of_element\<close> and \<open>CBB_flush_asn1_set_of\<close> of crypto/bytestring/cbb.c. The
  lemmas show that the comparison is a total order on encodings, that the result holds the same
  elements in ascending order, and that a different sorting routine would give the same bytes.
\<close>

section \<open>The code\<close>

text \<open>\<open>memcmp\<close> on two blocks of the same length: the sign of the first difference.\<close>

fun memcmp :: "u8 list \<Rightarrow> u8 list \<Rightarrow> int" where
  "memcmp (a # as) (b # bs) = (if a = b then memcmp as bs else if a < b then -1 else 1)"
| "memcmp _ _ = 0"

definition compare_set_of_element :: "CBS \<Rightarrow> CBS \<Rightarrow> int" where
  "compare_set_of_element a b =
    (let a_len = CBS_len a; b_len = CBS_len b;
         min_len = (if a_len < b_len then a_len else b_len);
         ret = memcmp (take min_len (CBS_data a)) (take min_len (CBS_data b))
     in if ret \<noteq> 0 then ret else if a_len = b_len then 0 else if a_len < b_len then -1 else 1)"

lemma element_shorter:
  "CBS_get_any_asn1_element cbs = (Some (out, tag, hl), rest) \<Longrightarrow> length rest < length cbs"
  using CBS_get_any_asn1_element_iff [of cbs out tag hl rest] length_der_tag(1) [of tag]
  by (auto simp: der_element_def der_header_def)

text \<open>The loop \<open>while (CBS_len(&cbs) != 0)\<close>: the elements it finds, or \<open>None\<close> when one does not parse.\<close>

function set_of_children :: "CBS \<Rightarrow> CBS list option" where
  "set_of_children cbs =
    (if CBS_len cbs \<noteq> 0
     then (case CBS_get_any_asn1_element cbs of
             (None, _) \<Rightarrow> None
           | (Some (out, tag, hl), rest) \<Rightarrow> map_option (Cons out) (set_of_children rest))
     else Some [])"
  by pat_completeness auto
termination
  by (relation "measure length") (auto dest!: sym [THEN element_shorter])

declare set_of_children.simps [simp del]

fun set_of_write :: "allocator \<Rightarrow> nat \<Rightarrow> CBS list \<Rightarrow> cbb_tree \<Rightarrow> bool \<times> cbb_tree" where
  "set_of_write alloc d [] t = (True, t)"
| "set_of_write alloc d (c # cs) t =
    (case CBB_add_bytes alloc d c t of
       (False, t') \<Rightarrow> (False, t')
     | (True, t') \<Rightarrow> set_of_write alloc d cs t')"

definition SIZEOF_CBS :: nat where
  "SIZEOF_CBS = 16"

definition CBB_flush_asn1_set_of :: "allocator \<Rightarrow> nat \<Rightarrow> cbb_tree \<Rightarrow> bool \<times> cbb_tree" where
  "CBB_flush_asn1_set_of alloc d t =
    (case CBB_flush alloc d t of
       (False, t1) \<Rightarrow> (False, t1)
     | (True, t1) \<Rightarrow>
        (case set_of_children (CBS_init (CBB_data d t1) (CBB_len d t1)) of
           None \<Rightarrow> (False, t1)
         | Some cs \<Rightarrow>
            (let num_children = length cs
             in if num_children < 2 then (True, t1)
                else if num_children > SIZE_MAX div SIZEOF_CBS then (False, t1)
                else (case (BUF_memdup alloc (take (CBB_len d t1) (CBB_data d t1)), alloc (num_children * SIZEOF_CBS)) of
                        (Some b, Some _) \<Rightarrow>
                          (case set_of_children (CBS_init b (CBB_len d t1)) of
                             None \<Rightarrow> (False, t1)
                           | Some children \<Rightarrow>
                              (let c = ct_chain t1 ! d;
                                   t2 = t1\<lparr>ct_base := map_option (\<lambda>base. base\<lparr>cb_len := cbb_offset c + cbb_pending_len_len c\<rparr>) (ct_base t1)\<rparr>
                               in set_of_write alloc d (qsort compare_set_of_element children) t2))
                      | _ \<Rightarrow> (False, t1)))))"

section \<open>The order\<close>

text \<open>X.690 11.6: lexicographic, a proper prefix first.\<close>

fun der_less_eq :: "u8 list \<Rightarrow> u8 list \<Rightarrow> bool" where
  "der_less_eq [] bs = True"
| "der_less_eq (a # as) [] = False"
| "der_less_eq (a # as) (b # bs) = (a < b \<or> (a = b \<and> der_less_eq as bs))"

lemma der_less_eq_refl: "der_less_eq a a"
  by (induction a) simp_all

lemma der_less_eq_trans: "der_less_eq a b \<Longrightarrow> der_less_eq b c \<Longrightarrow> der_less_eq a c"
proof (induction a arbitrary: b c)
  case (Cons x xs)
  from Cons.prems(1) obtain y ys where b: "b = y # ys" by (cases b) auto
  with Cons.prems(2) obtain z zs where c: "c = z # zs" by (cases c) auto
  show ?case using Cons.prems Cons.IH [of ys zs] by (auto simp: b c)
qed simp

lemma der_less_eq_antisym: "der_less_eq a b \<Longrightarrow> der_less_eq b a \<Longrightarrow> a = b"
  by (induction a b rule: der_less_eq.induct) (auto elim: der_less_eq.elims)

lemma der_less_eq_linear: "der_less_eq a b \<or> der_less_eq b a"
  by (induction a b rule: der_less_eq.induct) auto

lemma compare_set_of_element_iff: "compare_set_of_element a b \<le> 0 \<longleftrightarrow> der_less_eq a b"
proof -
  let ?m = "\<lambda>a b. min (length a) (length b)"
  have c: "compare_set_of_element a b =
    (let r = memcmp (take (?m a b) a) (take (?m a b) b)
     in if r \<noteq> 0 then r else if length a = length b then 0 else if length a < length b then -1 else 1)" for a b
    by (simp add: compare_set_of_element_def CBS_len_def CBS_data_def Let_def min_def)
  show ?thesis unfolding c
    by (induction a b rule: der_less_eq.induct) (auto simp: Let_def)
qed

section \<open>Sorting\<close>

lemma compare_set_of_element_zero: "compare_set_of_element a b = 0 \<longleftrightarrow> a = b"
proof -
  have m: "memcmp x y = 0 \<longleftrightarrow> x = y" if "length x = length y" for x y
    using that by (induction x y rule: memcmp.induct) auto
  have "take (min (length a) (length b)) a = a" "take (min (length a) (length b)) b = b" if "length a = length b"
    using that by simp_all
  then show ?thesis
    by (auto simp: compare_set_of_element_def CBS_len_def CBS_data_def Let_def m split: if_splits)
qed

interpretation set_of: comparator compare_set_of_element
proof
  fix x y z
  show "sgn (compare_set_of_element x y) = - sgn (compare_set_of_element y x)"
    using der_less_eq_linear [of x y] der_less_eq_antisym [of x y] compare_set_of_element_iff [of x y]
      compare_set_of_element_iff [of y x] compare_set_of_element_zero [of x y] compare_set_of_element_zero [of y x]
    by (auto simp: sgn_if)
  show "compare_set_of_element x y \<le> 0 \<Longrightarrow> compare_set_of_element y z \<le> 0 \<Longrightarrow> compare_set_of_element x z \<le> 0"
    unfolding compare_set_of_element_iff by (rule der_less_eq_trans)
qed

lemma der_sorted_qsort: "sorted_wrt der_less_eq (qsort compare_set_of_element xs)"
  using set_of.sorted_qsort [of xs] by (simp add: compare_set_of_element_iff)

text \<open>The sorted form is unique, so \<open>qsort\<close>'s freedom in how it sorts does not show.\<close>

lemma der_sorted_unique:
  "mset xs = mset ys \<Longrightarrow> sorted_wrt der_less_eq xs \<Longrightarrow> sorted_wrt der_less_eq ys \<Longrightarrow> xs = ys"
proof (induction xs arbitrary: ys)
  case (Cons x xs)
  then obtain y ys' where ys: "ys = y # ys'" by (cases ys) auto
  have "x \<in> set ys" "y \<in> set (x # xs)"
    using Cons.prems(1) mset_eq_setD [of "x # xs" ys] by (auto simp: ys)
  then have "x = y" using Cons.prems(2,3) ys der_less_eq_antisym by (auto simp: der_less_eq_refl)
  with Cons ys show ?case by simp
qed simp

section \<open>Flushing a SET OF\<close>

lemma set_of_children_iff:
  "set_of_children cbs = Some es \<longleftrightarrow>
    cbs = concat es \<and> (\<forall>e \<in> set es. \<exists>tag c. e = der_element tag c \<and> length c < 2 ^ 32)"
proof (induction es arbitrary: cbs)
  case Nil
  show ?case by (subst set_of_children.simps) (auto simp: CBS_len_def split: prod.splits option.splits)
next
  case (Cons e es)
  have ne: "der_element tag c \<noteq> []" for tag c
    using length_der_tag(1) [of tag] by (auto simp: der_element_def der_header_def)
  show ?case
  proof
    assume "set_of_children cbs = Some (e # es)"
    then obtain tag hl rest where g: "CBS_get_any_asn1_element cbs = (Some (e, tag, hl), rest)"
      and r: "set_of_children rest = Some es"
      by (subst (asm) set_of_children.simps) (auto split: if_splits prod.splits option.splits)
    from g have "\<exists>c. cbs = e @ rest \<and> e = der_element tag c \<and> length c < 2 ^ 32"
      by (simp only: CBS_get_any_asn1_element_iff) blast
    moreover from r have "rest = concat es \<and> (\<forall>e \<in> set es. \<exists>tag c. e = der_element tag c \<and> length c < 2 ^ 32)"
      using Cons.IH by blast
    ultimately show "cbs = concat (e # es) \<and> (\<forall>e \<in> set (e # es). \<exists>tag c. e = der_element tag c \<and> length c < 2 ^ 32)"
      by auto
  next
    assume r: "cbs = concat (e # es) \<and> (\<forall>e \<in> set (e # es). \<exists>tag c. e = der_element tag c \<and> length c < 2 ^ 32)"
    then obtain tag c where e: "e = der_element tag c" "length c < 2 ^ 32" by auto
    have g: "CBS_get_any_asn1_element cbs = (Some (e, tag, length (der_header tag (length c))), concat es)"
      unfolding CBS_get_any_asn1_element_iff using r e by auto
    have "set_of_children (concat es) = Some es" using r by (simp add: Cons.IH)
    moreover have "CBS_len cbs \<noteq> 0" using r e ne by (auto simp: CBS_len_def)
    ultimately show "set_of_children cbs = Some (e # es)" using g by (subst set_of_children.simps) simp
  qed
qed

lemma set_of_write_appends:
  assumes "malloc_ok alloc" and "ct_inv t" and "length (ct_chain t) = Suc d"
    and "\<forall>c \<in> set cs. length c < SIZE_BOUND" and "set_of_write alloc d cs t = (True, t')"
  shows "appends t d (concat cs) t'"
  using assms(2-5)
proof (induction cs arbitrary: t)
  case Nil
  have "snd (ct_view t) = tl (ct_chain t)" by (simp add: ct_view_def)
  then have "spec_flush d (ct_view t) = ct_view t" using Nil.prems(2) by (intro spec_flush_idem) simp
  with Nil show ?case by (simp add: appends_def spec_append_Nil)
next
  case (Cons c cs)
  from Cons.prems(4) obtain t1 where b: "CBB_add_bytes alloc d c t = (True, t1)"
    and r: "set_of_write alloc d cs t1 = (True, t')" by (auto split: prod.splits bool.splits)
  have "length c < SIZE_BOUND" using Cons.prems(3) by simp
  note a = appends_bytes [OF assms(1) Cons.prems(1) this b]
  have "ct_inv t1" "length (ct_chain t1) = Suc d" using a by (auto simp: appends_def)
  from appends_trans [OF a Cons.IH [OF this _ r]] Cons.prems(3) show ?case by simp
qed

text \<open>A CBB opened at depth \<open>d\<close> whose contents are \<open>body\<close>.\<close>

lemma opened_contents:
  assumes "opens t d xs k asn1 t1" and "appends t1 (Suc d) body t2"
  obtains b start where "ct_base t2 = Some b" and "cb_ok b" and "\<not> cb_error b"
    and "start = cbb_offset (ct_chain t2 ! Suc d) + cbb_pending_len_len (ct_chain t2 ! Suc d)"
    and "start = length (fst (ct_view t1))" and "cb_bytes b = fst (ct_view t1) @ body"
    and "length (ct_chain t2) = Suc (Suc d)" and "tl (ct_chain t2) = snd (ct_view t1)"
    and "chain_ok 0 start (snd (ct_view t1))"
proof -
  let ?s = "spec_append d xs (ct_view t)"
  let ?c = "\<lparr>cbb_offset = length (fst ?s), cbb_pending_len_len = k, cbb_pending_is_asn1 = asn1\<rparr>"
  have v1: "ct_view t1 = (fst ?s @ replicate k 0, take d (snd ?s) @ [?c])" and l1: "length (ct_chain t1) = Suc (Suc d)"
    using assms(1) by (simp_all add: opens_def spec_open_def spec_flush_append)
  have "length (snd (ct_view t1)) = Suc d" using l1 by (simp add: ct_view_def)
  then have lt: "length (take d (snd ?s)) = d" and f1: "spec_flush (Suc d) (ct_view t1) = ct_view t1"
    by (simp_all add: v1 spec_flush_idem)
  have v2: "ct_view t2 = (fst (ct_view t1) @ body, snd (ct_view t1))" and i2: "ct_inv t2"
    and l2: "length (ct_chain t2) = Suc (Suc d)"
    using assms(2) \<open>length (snd (ct_view t1)) = Suc d\<close> by (simp_all add: appends_def spec_append_def f1)
  from i2 obtain b top cs where t2: "ct_base t2 = Some b" "ct_chain t2 = top # cs" "cb_ok b" "\<not> cb_error b"
    "chain_ok 0 (cb_len b) cs" "ct_view t2 = (cb_bytes b, cs)" by (rule ct_invE)
  have cs: "cs = take d (snd ?s) @ [?c]" using v2 t2(6) v1 by simp
  then have "ct_chain t2 ! Suc d = ?c" using t2(2) lt by (simp add: nth_append)
  moreover have "chain_ok 0 (length (fst (ct_view t1))) (snd (ct_view t1))"
    using t2(5) unfolding cs by (simp add: chain_ok_append v1)
  ultimately show thesis using t2 v2 l2 by (intro that [of b "length (fst (ct_view t1))"]) (simp_all add: v1)
qed

lemma CBB_flush_asn1_set_of_appends:
  assumes "malloc_ok alloc" and "opens t d xs k asn1 t1" and "appends t1 (Suc d) (concat es) t2"
    and "\<forall>e \<in> set es. \<exists>tag c. e = der_element tag c \<and> length c < 2 ^ 32"
    and "CBB_flush_asn1_set_of alloc (Suc d) t2 = (True, t3)"
  shows "appends t1 (Suc d) (concat (qsort compare_set_of_element es)) t3"
proof -
  from assms(2,3) obtain b start where t2: "ct_base t2 = Some b" "cb_ok b" "\<not> cb_error b"
    "start = cbb_offset (ct_chain t2 ! Suc d) + cbb_pending_len_len (ct_chain t2 ! Suc d)"
    "start = length (fst (ct_view t1))" "cb_bytes b = fst (ct_view t1) @ concat es"
    "length (ct_chain t2) = Suc (Suc d)" "tl (ct_chain t2) = snd (ct_view t1)"
    "chain_ok 0 start (snd (ct_view t1))" by (rule opened_contents)
  have fl: "CBB_flush alloc (Suc d) t2 = (True, t2)" using t2(1,3,7) by (simp add: CBB_flush_def)
  have len: "CBB_len (Suc d) t2 = length (concat es)"
    using t2(1,4,5,6) length_cb_bytes [OF t2(2)] by (simp add: CBB_len_def)
  have data: "take (length (concat es)) (CBB_data (Suc d) t2) = concat es"
  proof -
    have "take (length (concat es)) (CBB_data (Suc d) t2) = drop start (take (start + length (concat es)) (cb_buf b))"
      using t2(1,4) by (simp add: CBB_data_def take_drop add.commute)
    also have "start + length (concat es) = cb_len b" using t2(5,6) length_cb_bytes [OF t2(2)] by simp
    finally show ?thesis using t2(5,6) by (simp add: cb_bytes_def)
  qed
  have ch: "set_of_children (concat es) = Some es" using assms(4) by (simp add: set_of_children_iff)
  show ?thesis
  proof (cases "length es < 2")
    case True
    then have "qsort compare_set_of_element es = es" by (cases es) (auto simp: qsort_def)
    moreover have "t3 = t2" using assms(5) fl len data ch True by (simp add: CBB_flush_asn1_set_of_def CBS_init_def)
    ultimately show ?thesis using assms(3) by simp
  next
    case False
    let ?t = "t2\<lparr>ct_base := Some (b\<lparr>cb_len := start\<rparr>)\<rparr>"
    have "set_of_write alloc (Suc d) (qsort compare_set_of_element es) ?t = (True, t3)"
    proof -
      have "store_at 0 (concat es) blk = concat es" if "alloc (length (concat es)) = Some blk" for blk
        using malloc_okD [OF assms(1) that] by (simp add: store_at_def)
      then show ?thesis using assms(5) fl len data ch False t2(1) t2(4) [symmetric]
        by (simp add: CBB_flush_asn1_set_of_def CBS_init_def BUF_memdup_def Let_def split: if_splits option.splits)
    qed
    moreover have "ct_inv ?t" and view: "ct_view ?t = ct_view t1"
    proof -
      have le: "start \<le> cb_len b" using t2(5,6) length_cb_bytes [OF t2(2)] by simp
      then show "ct_inv ?t" using t2 by (cases "ct_chain t2") (auto simp: ct_inv_def cb_ok_def)
      have "take start (cb_buf b) = take start (cb_bytes b)" using le by (simp add: cb_bytes_def min_def)
      also have "\<dots> = fst (ct_view t1)" unfolding t2(5,6) by simp
      finally have "cb_bytes (b\<lparr>cb_len := start\<rparr>) = fst (ct_view t1)" by (simp add: cb_bytes_def)
      moreover have "ct_view ?t = (cb_bytes (b\<lparr>cb_len := start\<rparr>), tl (ct_chain t2))"
        by (simp add: ct_view_def)
      ultimately show "ct_view ?t = ct_view t1" using t2(8) by simp
    qed
    moreover have "\<forall>e \<in> set (qsort compare_set_of_element es). length e < SIZE_BOUND"
    proof -
      have "set (qsort compare_set_of_element es) = set es" by (rule mset_eq_setD) (rule mset_qsort)
      moreover have "length e \<le> length (concat es)" if "e \<in> set es" for e
        using that by (induction es) auto
      moreover have "length (concat es) < SIZE_BOUND"
        using t2(2,6) length_cb_bytes [OF t2(2)] by (simp add: cb_ok_def)
      ultimately show ?thesis by (auto intro: le_less_trans simp del: length_concat)
    qed
    ultimately have "appends ?t (Suc d) (concat (qsort compare_set_of_element es)) t3"
      using set_of_write_appends [OF assms(1)] t2(7) by simp
    then show ?thesis using view by (simp add: appends_def)
  qed
qed

section \<open>Properties\<close>

text \<open>
  C8: \<open>CBB_flush_asn1_set_of\<close> on an open child whose contents are DER elements leaves the same elements, as a
  multiset, in the ascending order X.690 asks of a SET OF; no other arrangement of them is in that order.
\<close>

theorem set_of_sorts:
  assumes "malloc_ok alloc" and "opens t d xs k asn1 t1" and "appends t1 (Suc d) (concat es) t2"
    and "\<forall>e \<in> set es. \<exists>tag c. e = der_element tag c \<and> length c < 2 ^ 32"
    and "CBB_flush_asn1_set_of alloc (Suc d) t2 = (True, t3)"
  shows "\<exists>es'. appends t1 (Suc d) (concat es') t3 \<and> mset es' = mset es \<and> sorted_wrt der_less_eq es' \<and>
    (\<forall>es''. mset es'' = mset es \<longrightarrow> sorted_wrt der_less_eq es'' \<longrightarrow> es'' = es')"
proof (intro exI conjI allI impI)
  show "appends t1 (Suc d) (concat (qsort compare_set_of_element es)) t3" using assms by (rule CBB_flush_asn1_set_of_appends)
  show "mset (qsort compare_set_of_element es) = mset es" by (rule mset_qsort)
  show "sorted_wrt der_less_eq (qsort compare_set_of_element es)" by (rule der_sorted_qsort)
  show "es'' = qsort compare_set_of_element es" if "mset es'' = mset es" "sorted_wrt der_less_eq es''" for es''
    using der_sorted_unique [of es'' "qsort compare_set_of_element es"] that by (simp add: mset_qsort der_sorted_qsort)
qed

definition set_cbb :: "u8 list \<Rightarrow> nat \<Rightarrow> cbb_tree" where
  "set_cbb buf len = \<lparr>ct_base = Some \<lparr>cb_buf = buf, cb_len = len, cb_cap = length buf, cb_can_resize = False, cb_error = False\<rparr>,
     ct_chain = [\<lparr>cbb_offset = 0, cbb_pending_len_len = 0, cbb_pending_is_asn1 = False\<rparr>,
       \<lparr>cbb_offset = 0, cbb_pending_len_len = 1, cbb_pending_is_asn1 = True\<rparr>]\<rparr>"

theorem set_of_sorts_witness:
  "\<exists>t3. CBB_flush_asn1_set_of calloc 1 (set_cbb [0, 2, 0, 1, 0, 0] 5) = (True, t3) \<and>
    (\<exists>es'. appends (set_cbb [0, 0, 0, 0, 0, 0] 1) 1 (concat es') t3 \<and> mset es' = {#[2, 0], [1, 0]#} \<and> sorted_wrt der_less_eq es')"
proof -
  let ?es = "[[2, 0], [1, 0]] :: u8 list list" and ?t2 = "set_cbb [0, 2, 0, 1, 0, 0] 5"
  have el: "der_element 2 [] = [2, 0]" "der_element 1 [] = [1, 0]"
    by (simp_all add: der_element_def der_header_def der_tag_def der_length_def tag_bits_def tag_number_def
        CBS_ASN1_TAG_SHIFT_def CBS_ASN1_TAG_NUMBER_MASK_def)
  have o: "opens small_cbb 0 [] 1 True (set_cbb [0, 0, 0, 0, 0, 0] 1)"
    by (simp add: opens_def set_cbb_def ct_inv_def cb_ok_def SIZE_BOUND_def small_cbb_ok spec_open_def spec_append_def spec_flush_def)
      (simp add: ct_view_def cb_bytes_def)
  have a: "appends (set_cbb [0, 0, 0, 0, 0, 0] 1) 1 (concat ?es) ?t2"
    by (simp add: appends_def set_cbb_def ct_inv_def cb_ok_def SIZE_BOUND_def ct_view_def cb_bytes_def spec_append_def spec_flush_def Let_def)
  have e: "\<forall>e \<in> set ?es. \<exists>tag c. e = der_element tag c \<and> length c < 2 ^ 32"
    using el by (metis (no_types, lifting) length_0_conv list.set_cases set_ConsD emptyE list.set(1) zero_less_power zero_less_numeral)
  have ch: "set_of_children [2, 0, 1, 0] = Some ?es" unfolding set_of_children_iff using e by simp
  have "\<exists>t3. CBB_flush_asn1_set_of calloc 1 ?t2 = (True, t3)"
    by (simp add: CBB_flush_asn1_set_of_def cbb_run set_cbb_def CBB_data_def CBB_len_def CBS_init_def ch BUF_memdup_def calloc_def
        SIZE_MAX_def SIZEOF_CBS_def store_at_def CBB_add_bytes_def qsort_def compare_set_of_element_def CBS_len_def CBS_data_def)
  then obtain t3 where f: "CBB_flush_asn1_set_of calloc (Suc 0) ?t2 = (True, t3)" by auto
  from set_of_sorts [OF calloc_ok(1) o _ e f] a f show ?thesis by auto
qed

end
