(* ===== verification/Streams.thy ===== *)
theory Streams imports Prelude begin

text \<open>
  Buffering by whole blocks, the contract the streaming interfaces of the library share: input
  arrives in pieces of any length, whole blocks are processed at once and the rest waits. The locale
  states what one update does; its lemmas show that the pieces do not matter.
\<close>

section \<open>Whole blocks and the rest\<close>

definition blocks :: "nat \<Rightarrow> 'a list \<Rightarrow> 'a list list" where
  "blocks n xs = map (\<lambda>i. take n (drop (i * n) xs)) [0..<length xs div n]"

definition tail_of :: "nat \<Rightarrow> 'a list \<Rightarrow> 'a list" where
  "tail_of n xs = drop (length xs div n * n) xs"

lemma blocks_short [simp]: "length xs < n \<Longrightarrow> blocks n xs = []" "length xs < n \<Longrightarrow> tail_of n xs = xs"
  by (simp_all add: blocks_def tail_of_def)

lemma blocks_step:
  assumes "0 < n" and "n \<le> length xs"
  shows "blocks n xs = take n xs # blocks n (drop n xs)" and "tail_of n xs = tail_of n (drop n xs)"
proof -
  have d: "length xs div n = Suc ((length xs - n) div n)" using assms by (simp add: div_if)
  have "map (\<lambda>i. take n (drop (i * n) xs)) [0..<Suc k] =
      take n xs # map (\<lambda>i. take n (drop (i * n) (drop n xs))) [0..<k]" for k
    by (simp add: map_upt_Suc add.commute del: upt_Suc)
  then show "blocks n xs = take n xs # blocks n (drop n xs)" unfolding blocks_def d by simp
  show "tail_of n xs = tail_of n (drop n xs)" unfolding tail_of_def by (simp add: d add.commute)
qed

lemma blocks_Cons:
  assumes "0 < n" and "length b = n"
  shows "blocks n (b @ xs) = b # blocks n xs" and "tail_of n (b @ xs) = tail_of n xs"
  using assms blocks_step [of n "b @ xs"] by simp_all

lemma length_tail_of: "0 < n \<Longrightarrow> length (tail_of n xs) < n"
  by (simp add: tail_of_def minus_div_mult_eq_mod)

lemma length_blocks [simp]: "length (blocks n xs) = length xs div n"
  by (simp add: blocks_def)

lemma blocks_length:
  assumes "b \<in> set (blocks n xs)"
  shows "length b = n"
proof -
  from assms obtain i where i: "i < length xs div n" and b: "b = take n (drop (i * n) xs)"
    by (auto simp: blocks_def)
  have "Suc i * n \<le> length xs div n * n" using i by (intro mult_le_mono1) simp
  also have "\<dots> \<le> length xs" by (rule div_times_less_eq_dividend)
  finally have "i * n + n \<le> length xs" by simp
  then show ?thesis by (simp add: b)
qed

lemma blocks_append:
  assumes "0 < n"
  shows "blocks n (xs @ ys) = blocks n xs @ blocks n (tail_of n xs @ ys)"
    and "tail_of n (xs @ ys) = tail_of n (tail_of n xs @ ys)"
proof -
  have "blocks n (xs @ ys) = blocks n xs @ blocks n (tail_of n xs @ ys) \<and>
    tail_of n (xs @ ys) = tail_of n (tail_of n xs @ ys)"
  proof (induction "length xs" arbitrary: xs rule: less_induct)
    case less
    show ?case
    proof (cases "length xs < n")
      case False
      then have le: "n \<le> length xs" by simp
      have "length (drop n xs) < length xs" using assms le by simp
      from less [OF this] have IH: "blocks n (drop n xs @ ys) = blocks n (drop n xs) @ blocks n (tail_of n (drop n xs) @ ys)"
        "tail_of n (drop n xs @ ys) = tail_of n (tail_of n (drop n xs) @ ys)" by auto
      have x: "xs @ ys = take n xs @ (drop n xs @ ys)" by simp
      have l: "length (take n xs) = n" using le by simp
      show ?thesis unfolding x blocks_Cons [OF assms l] IH using blocks_step [OF assms le] by simp
    qed simp
  qed
  then show "blocks n (xs @ ys) = blocks n xs @ blocks n (tail_of n xs @ ys)"
    and "tail_of n (xs @ ys) = tail_of n (tail_of n xs @ ys)" by auto
qed

lemma concat_blocks: "0 < n \<Longrightarrow> concat (blocks n xs) @ tail_of n xs = xs"
proof (induction "length xs" arbitrary: xs rule: less_induct)
  case less
  show ?case
  proof (cases "length xs < n")
    case False
    then have "length (drop n xs) < length xs" using less.prems by simp
    from less.hyps [OF this less.prems] show ?thesis
      using blocks_step [OF less.prems, of xs] False by simp
  qed simp
qed

section \<open>The contract\<close>

locale block_stream =
  fixes n :: nat
    and inv :: "'s \<Rightarrow> bool"
    and pending :: "'s \<Rightarrow> 'a list"
    and acc :: "'s \<Rightarrow> 'h"
    and absorb :: "'h \<Rightarrow> 'a list \<Rightarrow> 'h"
    and small :: "'a list \<Rightarrow> bool"
    and update :: "'s \<Rightarrow> 'a list \<Rightarrow> 's"
  assumes n_pos: "0 < n"
    and update_inv: "inv s \<Longrightarrow> small xs \<Longrightarrow> inv (update s xs)"
    and update_pending: "inv s \<Longrightarrow> small xs \<Longrightarrow> pending (update s xs) = tail_of n (pending s @ xs)"
    and update_acc: "inv s \<Longrightarrow> small xs \<Longrightarrow> acc (update s xs) = foldl absorb (acc s) (blocks n (pending s @ xs))"
begin

lemma run:
  assumes "inv s" and "list_all small cs" and "length (pending s) < n"
  shows "inv (foldl update s cs)" and "pending (foldl update s cs) = tail_of n (pending s @ concat cs)"
    and "acc (foldl update s cs) = foldl absorb (acc s) (blocks n (pending s @ concat cs))"
proof -
  have "inv (foldl update s cs) \<and> pending (foldl update s cs) = tail_of n (pending s @ concat cs) \<and>
    acc (foldl update s cs) = foldl absorb (acc s) (blocks n (pending s @ concat cs))"
    using assms
  proof (induction cs arbitrary: s)
    case (Cons c cs)
    let ?s = "update s c"
    have c: "small c" and cs: "list_all small cs" using Cons.prems by simp_all
    note u = update_inv [OF Cons.prems(1) c] update_pending [OF Cons.prems(1) c] update_acc [OF Cons.prems(1) c]
    have "length (pending ?s) < n" using u(2) length_tail_of [OF n_pos] by simp
    note IH = Cons.IH [OF u(1) cs this]
    note b = blocks_append [OF n_pos, of "pending s @ c" "concat cs"]
    show ?case using IH b unfolding u(2) u(3) by simp
  qed simp
  then show "inv (foldl update s cs)" and "pending (foldl update s cs) = tail_of n (pending s @ concat cs)"
    and "acc (foldl update s cs) = foldl absorb (acc s) (blocks n (pending s @ concat cs))" by auto
qed

text \<open>How the input is cut into pieces does not matter.\<close>

lemma chunking:
  assumes "inv s" and "length (pending s) < n" and "list_all small cs" and "list_all small ds" and "concat cs = concat ds"
  shows "pending (foldl update s cs) = pending (foldl update s ds)" and "acc (foldl update s cs) = acc (foldl update s ds)"
  using run [OF assms(1,3,2)] run [OF assms(1,4,2)] assms(5) by simp_all

end

end
