(* ===== verification/Constant_Time.thy ===== *)
theory Constant_Time imports Prelude begin

text \<open>
  The constant-time primitives of crypto/internal.h, on a 64-bit \<open>crypto_word_t\<close>. The masks are all
  ones for true and zero for false; an \<open>int\<close> is a 32-bit word read as two's complement. Each lemma
  says which condition a mask stands for, so that clients reason with \<open>if\<close>.
\<close>

named_theorems ct "constant-time primitives as conditionals"

definition CONSTTIME_TRUE_W :: u64 where
  "CONSTTIME_TRUE_W = NOT 0"

definition CONSTTIME_FALSE_W :: u64 where
  "CONSTTIME_FALSE_W = 0"

definition CONSTTIME_TRUE_8 :: u8 where
  "CONSTTIME_TRUE_8 = 0xff"

definition CONSTTIME_FALSE_8 :: u8 where
  "CONSTTIME_FALSE_8 = 0"

definition constant_time_msb_w :: "u64 \<Rightarrow> u64" where
  "constant_time_msb_w a = 0 - drop_bit 63 a"

definition constant_time_lt_w :: "u64 \<Rightarrow> u64 \<Rightarrow> u64" where
  "constant_time_lt_w a b = constant_time_msb_w (a XOR ((a XOR b) OR ((a - b) XOR a)))"

definition constant_time_lt_8 :: "u64 \<Rightarrow> u64 \<Rightarrow> u8" where
  "constant_time_lt_8 a b = ucast (constant_time_lt_w a b)"

definition constant_time_ge_w :: "u64 \<Rightarrow> u64 \<Rightarrow> u64" where
  "constant_time_ge_w a b = NOT (constant_time_lt_w a b)"

definition constant_time_ge_8 :: "u64 \<Rightarrow> u64 \<Rightarrow> u8" where
  "constant_time_ge_8 a b = ucast (constant_time_ge_w a b)"

definition constant_time_is_zero_w :: "u64 \<Rightarrow> u64" where
  "constant_time_is_zero_w a = constant_time_msb_w (NOT a AND (a - 1))"

definition constant_time_is_zero_8 :: "u64 \<Rightarrow> u8" where
  "constant_time_is_zero_8 a = ucast (constant_time_is_zero_w a)"

definition constant_time_eq_w :: "u64 \<Rightarrow> u64 \<Rightarrow> u64" where
  "constant_time_eq_w a b = constant_time_is_zero_w (a XOR b)"

definition constant_time_eq_8 :: "u64 \<Rightarrow> u64 \<Rightarrow> u8" where
  "constant_time_eq_8 a b = ucast (constant_time_eq_w a b)"

definition constant_time_eq_int :: "32 word \<Rightarrow> 32 word \<Rightarrow> u64" where
  "constant_time_eq_int a b = constant_time_eq_w (scast a) (scast b)"

definition constant_time_eq_int_8 :: "32 word \<Rightarrow> 32 word \<Rightarrow> u8" where
  "constant_time_eq_int_8 a b = constant_time_eq_8 (scast a) (scast b)"

definition constant_time_select_w :: "u64 \<Rightarrow> u64 \<Rightarrow> u64 \<Rightarrow> u64" where
  "constant_time_select_w m a b = (m AND a) OR (NOT m AND b)"

definition constant_time_select_8 :: "u8 \<Rightarrow> u8 \<Rightarrow> u8 \<Rightarrow> u8" where
  "constant_time_select_8 m a b = ucast (constant_time_select_w (ucast m) (ucast a) (ucast b))"

definition constant_time_select_int :: "u64 \<Rightarrow> 32 word \<Rightarrow> 32 word \<Rightarrow> 32 word" where
  "constant_time_select_int m a b = ucast (constant_time_select_w m (scast a) (scast b))"

section \<open>What the masks say\<close>

lemma drop_bit_63: "drop_bit 63 (a :: u64) = (if bit a 63 then 1 else 0)"
proof (rule bit_word_eqI)
  fix n assume "n < LENGTH(64)"
  have "bit a (63 + n) \<Longrightarrow> n = 0" using bit_imp_le_length [of a "63 + n"] by simp
  then show "bit (drop_bit 63 a) n = bit (if bit a 63 then 1 else 0 :: u64) n" by (auto simp: bit_simps)
qed

lemma bit_63_iff: "bit (a :: u64) 63 \<longleftrightarrow> 2 ^ 63 \<le> unat a"
proof -
  have "bit a 63 \<longleftrightarrow> drop_bit 63 a \<noteq> 0" by (simp add: drop_bit_63)
  then show ?thesis by (simp add: drop_bit_zero_iff linorder_not_less)
qed

lemma constant_time_msb_w_if [ct]:
  "constant_time_msb_w a = (if bit a 63 then CONSTTIME_TRUE_W else CONSTTIME_FALSE_W)"
  by (simp add: constant_time_msb_w_def drop_bit_63 CONSTTIME_TRUE_W_def CONSTTIME_FALSE_W_def)

lemma sub_msb:
  assumes "bit (a :: u64) 63 \<longleftrightarrow> bit b 63"
  shows "bit (a - b) 63 \<longleftrightarrow> a < b"
proof -
  have "unat a < 2 ^ 64" "unat b < 2 ^ 64" by (rule unat_u64_bound)+
  with assms show ?thesis
    by (auto simp: bit_63_iff word_less_nat_alt unat_sub_if')
qed

lemma constant_time_lt_w_if [ct]:
  "constant_time_lt_w a b = (if a < b then CONSTTIME_TRUE_W else CONSTTIME_FALSE_W)"
proof -
  have "bit (a XOR ((a XOR b) OR ((a - b) XOR a))) 63 \<longleftrightarrow> a < b"
  proof (cases "bit a 63 \<longleftrightarrow> bit b 63")
    case True
    then show ?thesis using sub_msb [OF True] by (auto simp: bit_simps)
  next
    case False
    then have "a < b \<longleftrightarrow> \<not> bit a 63" by (auto simp: bit_63_iff word_less_nat_alt)
    with False show ?thesis by (auto simp: bit_simps)
  qed
  then show ?thesis by (simp add: constant_time_lt_w_def constant_time_msb_w_if)
qed

lemma constant_time_is_zero_w_if [ct]:
  "constant_time_is_zero_w a = (if a = 0 then CONSTTIME_TRUE_W else CONSTTIME_FALSE_W)"
proof -
  have "bit (NOT a AND (a - 1)) 63 \<longleftrightarrow> a = 0"
  proof (cases "a = 0")
    case False
    then have "unat (a - 1) = unat a - 1" by (rule unat_minus_one)
    then have "bit (a - 1) 63 \<longrightarrow> bit a 63" unfolding bit_63_iff by linarith
    with False show ?thesis by (auto simp: bit_and_iff bit_not_iff)
  qed (simp add: bit_simps)
  then show ?thesis by (simp add: constant_time_is_zero_w_def constant_time_msb_w_if)
qed

lemma true_8: "CONSTTIME_TRUE_8 = - 1"
  by (simp add: CONSTTIME_TRUE_8_def)

lemma ucast_mask_u8 [ct]: "ucast CONSTTIME_TRUE_W = CONSTTIME_TRUE_8" "ucast CONSTTIME_FALSE_W = CONSTTIME_FALSE_8"
proof -
  show "ucast CONSTTIME_TRUE_W = CONSTTIME_TRUE_8"
    unfolding CONSTTIME_TRUE_W_def true_8 by (rule bit_word_eqI) (simp add: bit_simps)
qed (simp add: CONSTTIME_FALSE_W_def CONSTTIME_FALSE_8_def)

lemma not_mask_w [ct]: "NOT CONSTTIME_TRUE_W = CONSTTIME_FALSE_W" "NOT CONSTTIME_FALSE_W = CONSTTIME_TRUE_W"
  by (simp_all add: CONSTTIME_TRUE_W_def CONSTTIME_FALSE_W_def)

lemma constant_time_eq_w_if [ct]:
  "constant_time_eq_w a b = (if a = b then CONSTTIME_TRUE_W else CONSTTIME_FALSE_W)"
  by (simp add: constant_time_eq_w_def constant_time_is_zero_w_if xor_eq_zero_iff)

lemma constant_time_8_if [ct]:
  "constant_time_lt_8 a b = (if a < b then CONSTTIME_TRUE_8 else CONSTTIME_FALSE_8)"
  "constant_time_ge_8 a b = (if b \<le> a then CONSTTIME_TRUE_8 else CONSTTIME_FALSE_8)"
  "constant_time_is_zero_8 a = (if a = 0 then CONSTTIME_TRUE_8 else CONSTTIME_FALSE_8)"
  "constant_time_eq_8 a b = (if a = b then CONSTTIME_TRUE_8 else CONSTTIME_FALSE_8)"
  by (auto simp: constant_time_lt_8_def constant_time_ge_8_def constant_time_ge_w_def constant_time_is_zero_8_def
      constant_time_eq_8_def ct)

lemma constant_time_ge_w_if [ct]:
  "constant_time_ge_w a b = (if b \<le> a then CONSTTIME_TRUE_W else CONSTTIME_FALSE_W)"
  by (auto simp: constant_time_ge_w_def ct)

lemma ucast_scast_int: "ucast (scast a :: u64) = a" for a :: "32 word"
  by (rule bit_word_eqI) (simp add: bit_simps)

lemma constant_time_eq_int_if [ct]:
  "constant_time_eq_int a b = (if a = b then CONSTTIME_TRUE_W else CONSTTIME_FALSE_W)"
  "constant_time_eq_int_8 a b = (if a = b then CONSTTIME_TRUE_8 else CONSTTIME_FALSE_8)"
proof -
  have "(scast a :: u64) = scast b \<longleftrightarrow> a = b" using ucast_scast_int by metis
  then show "constant_time_eq_int a b = (if a = b then CONSTTIME_TRUE_W else CONSTTIME_FALSE_W)"
    "constant_time_eq_int_8 a b = (if a = b then CONSTTIME_TRUE_8 else CONSTTIME_FALSE_8)"
    by (simp_all add: constant_time_eq_int_def constant_time_eq_int_8_def ct)
qed

lemma constant_time_select_w_if [ct]:
  "constant_time_select_w (if c then CONSTTIME_TRUE_W else CONSTTIME_FALSE_W) a b = (if c then a else b)"
  by (simp add: constant_time_select_w_def CONSTTIME_TRUE_W_def CONSTTIME_FALSE_W_def)

lemma constant_time_select_8_if [ct]:
  "constant_time_select_8 (if c then CONSTTIME_TRUE_8 else CONSTTIME_FALSE_8) a b = (if c then a else b)"
proof -
  have "constant_time_select_8 m a b = (m AND a) OR (NOT m AND b)" for m
    unfolding constant_time_select_8_def constant_time_select_w_def by (rule bit_word_eqI) (auto simp: bit_simps)
  then show ?thesis by (simp add: true_8 CONSTTIME_FALSE_8_def)
qed

lemma constant_time_select_int_if [ct]:
  "constant_time_select_int (if c then CONSTTIME_TRUE_W else CONSTTIME_FALSE_W) a b = (if c then a else b)"
  unfolding constant_time_select_int_def constant_time_select_w_if by (simp add: ucast_scast_int)

section \<open>Properties\<close>

text \<open>
  C37: the branch-free comparisons give all ones or zero for the unsigned orders and equality at
  every pair of values, and the selections choose by them.
\<close>

theorem masks_are_conditions:
  "constant_time_lt_w a b = (if a < b then CONSTTIME_TRUE_W else CONSTTIME_FALSE_W) \<and>
   constant_time_ge_w a b = (if b \<le> a then CONSTTIME_TRUE_W else CONSTTIME_FALSE_W) \<and>
   constant_time_eq_w a b = (if a = b then CONSTTIME_TRUE_W else CONSTTIME_FALSE_W) \<and>
   constant_time_eq_int i j = (if i = j then CONSTTIME_TRUE_W else CONSTTIME_FALSE_W) \<and>
   constant_time_select_w (constant_time_lt_w a b) x y = (if a < b then x else y) \<and>
   constant_time_select_8 (constant_time_eq_8 a b) u v = (if a = b then u else v) \<and>
   constant_time_select_int (constant_time_is_zero_w a) i j = (if a = 0 then i else j)"
  by (auto simp: ct)

end
