(* ===== verification/Base64.thy ===== *)
theory Base64 imports Constant_Time begin

text \<open>
  Base64, crypto/base64/base64.c: the constant-time character maps, the block and the streaming
  encoder, the quad, block and streaming decoder. Characters are bytes. A destination buffer is the
  list of the bytes written from its start, with the terminating NUL where the code writes one; the
  line length of the streaming encoder is 48 input bytes, the size of \<open>ctx->data\<close>.
\<close>

section \<open>The code\<close>

subsection \<open>Character maps\<close>

definition constant_time_lt_args_8 :: "u8 \<Rightarrow> u8 \<Rightarrow> u8" where
  "constant_time_lt_args_8 a b = ucast (constant_time_msb_w (ucast a - ucast b))"

definition constant_time_in_range_8 :: "u8 \<Rightarrow> u8 \<Rightarrow> u8 \<Rightarrow> u8" where
  "constant_time_in_range_8 a min_c max_c = constant_time_lt_args_8 (a - min_c) (max_c - min_c + 1)"

definition conv_bin2ascii :: "u8 \<Rightarrow> u8" where
  "conv_bin2ascii a0 =
    (let a = a0 AND 0x3f;
         ret = constant_time_select_8 (constant_time_eq_8 (ucast a) 62) 43 47;
         ret = constant_time_select_8 (constant_time_lt_args_8 a 62) (a - 52 + 48) ret;
         ret = constant_time_select_8 (constant_time_lt_args_8 a 52) (a - 26 + 97) ret
     in constant_time_select_8 (constant_time_lt_args_8 a 26) (a + 65) ret)"

definition base64_ascii_to_bin :: "u8 \<Rightarrow> u8" where
  "base64_ascii_to_bin a =
    (let is_upper = constant_time_in_range_8 a 65 90;
         is_lower = constant_time_in_range_8 a 97 122;
         is_digit = constant_time_in_range_8 a 48 57;
         is_plus = constant_time_eq_8 (ucast a) 43;
         is_slash = constant_time_eq_8 (ucast a) 47;
         is_equals = constant_time_eq_8 (ucast a) 61;
         ret = 0xff;
         ret = constant_time_select_8 is_upper (a - 65) ret;
         ret = constant_time_select_8 is_lower (a - 97 + 26) ret;
         ret = constant_time_select_8 is_digit (a - 48 + 52) ret;
         ret = constant_time_select_8 is_plus 62 ret;
         ret = constant_time_select_8 is_slash 63 ret
     in constant_time_select_8 is_equals 0 ret)"

subsection \<open>Encoding\<close>

definition EVP_EncodedLength :: "nat \<Rightarrow> nat option" where
  "EVP_EncodedLength len =
    (if size_add len 2 < len then None
     else let len = size_add len 2 div 3
     in if (len * 4 mod SIZE_BOUND) div 4 \<noteq> len then None
        else let len = len * 4 mod SIZE_BOUND
        in if size_add len 1 < len then None else Some (size_add len 1))"

text \<open>The loop of \<open>EVP_EncodeBlock\<close>; \<open>EVP_EncodeBlock\<close> returns what it writes, NUL included, and its result.\<close>

fun encode_loop :: "u8 list \<Rightarrow> u8 list" where
  "encode_loop [] = []"
| "encode_loop [a] =
    (let l = push_bit 16 (ucast a) :: u32
     in [conv_bin2ascii (ucast (drop_bit 18 l)), conv_bin2ascii (ucast (drop_bit 12 l)), 61, 61])"
| "encode_loop [a, b] =
    (let l = push_bit 16 (ucast a) OR push_bit 8 (ucast b) :: u32
     in [conv_bin2ascii (ucast (drop_bit 18 l)), conv_bin2ascii (ucast (drop_bit 12 l)),
         conv_bin2ascii (ucast (drop_bit 6 l)), 61])"
| "encode_loop (a # b # c # src) =
    (let l = push_bit 16 (ucast a) OR push_bit 8 (ucast b) OR ucast c :: u32
     in [conv_bin2ascii (ucast (drop_bit 18 l)), conv_bin2ascii (ucast (drop_bit 12 l)),
         conv_bin2ascii (ucast (drop_bit 6 l)), conv_bin2ascii (ucast l)] @ encode_loop src)"

definition EVP_EncodeBlock :: "u8 list \<Rightarrow> u8 list \<times> nat" where
  "EVP_EncodeBlock src = (encode_loop src @ [0], length (encode_loop src))"

record EVP_ENCODE_CTX =
  ec_data_used :: nat
  ec_data :: "u8 list"
  ec_eof_seen :: bool
  ec_error_encountered :: bool

definition EVP_EncodeInit :: EVP_ENCODE_CTX where
  "EVP_EncodeInit = \<lparr>ec_data_used = 0, ec_data = replicate 48 0, ec_eof_seen = False, ec_error_encountered = False\<rparr>"

text \<open>One line: the encoding of a full buffer and a newline. The NUL after it is overwritten by the next.\<close>

definition encode_line :: "u8 list \<Rightarrow> u8 list" where
  "encode_line xs = take (snd (EVP_EncodeBlock xs)) (fst (EVP_EncodeBlock xs)) @ [10]"

text \<open>
  The \<open>while (in_len >= sizeof(ctx->data))\<close> loop: the text written, and \<open>tot\<close> with the input left, or
  \<open>None\<close> when \<open>tot\<close> would wrap.
\<close>

function encode_lines_loop :: "nat \<Rightarrow> u8 list \<Rightarrow> u8 list \<times> (nat \<times> u8 list) option" where
  "encode_lines_loop tot inp =
    (if 48 \<le> length inp
     then (let encoded = snd (EVP_EncodeBlock (take 48 inp));
               line = encode_line (take 48 inp)
           in if size_add (size_add tot encoded) 1 < tot then (line, None)
              else (case encode_lines_loop (size_add tot (encoded + 1)) (drop 48 inp) of
                      (txt, r) \<Rightarrow> (line @ txt, r)))
     else ([], Some (tot, inp)))"
  by pat_completeness auto
termination by (relation "measure (\<lambda>(_, inp). length inp)") auto

declare encode_lines_loop.simps [simp del]

text \<open>The bytes written to \<open>out\<close>, \<open>*out_len\<close>, and the context.\<close>

definition EVP_EncodeUpdate :: "EVP_ENCODE_CTX \<Rightarrow> u8 list \<Rightarrow> u8 list \<times> nat \<times> EVP_ENCODE_CTX" where
  "EVP_EncodeUpdate ctx inp =
    (if length inp = 0 then ([], 0, ctx)
     else if 48 - ec_data_used ctx > length inp
     then ([], 0, ctx\<lparr>ec_data := store_at (ec_data_used ctx) inp (ec_data ctx),
                      ec_data_used := ec_data_used ctx + length inp\<rparr>)
     else let (txt0, total0, ctx1, inp1) =
            (if ec_data_used ctx \<noteq> 0
             then (let todo = 48 - ec_data_used ctx;
                       data = store_at (ec_data_used ctx) (take todo inp) (ec_data ctx);
                       encoded = snd (EVP_EncodeBlock data)
                   in (encode_line data, encoded + 1, ctx\<lparr>ec_data := data, ec_data_used := 0\<rparr>, drop todo inp))
             else ([], 0, ctx, inp))
     in (case encode_lines_loop total0 inp1 of
           (txt, None) \<Rightarrow> (txt0 @ txt @ [0], 0, ctx1)
         | (txt, Some (tot, rest)) \<Rightarrow>
            (if txt0 @ txt = [] then [] else txt0 @ txt @ [0],
             if tot > INT_MAX then 0 else tot,
             ctx1\<lparr>ec_data := store_at 0 rest (ec_data ctx1), ec_data_used := length rest\<rparr>)))"

definition EVP_EncodeFinal :: "EVP_ENCODE_CTX \<Rightarrow> u8 list \<times> nat \<times> EVP_ENCODE_CTX" where
  "EVP_EncodeFinal ctx =
    (if ec_data_used ctx = 0 then ([], 0, ctx)
     else let line = encode_line (take (ec_data_used ctx) (ec_data ctx))
          in (line @ [0], length line, ctx\<lparr>ec_data_used := 0\<rparr>))"

subsection \<open>Decoding\<close>

definition EVP_DecodedLength :: "nat \<Rightarrow> nat option" where
  "EVP_DecodedLength len = (if len mod 4 \<noteq> 0 then None else Some (len div 4 * 3))"

definition EVP_DecodeInit :: EVP_ENCODE_CTX where
  "EVP_DecodeInit = \<lparr>ec_data_used = 0, ec_data = replicate 48 0, ec_eof_seen = False, ec_error_encountered = False\<rparr>"

text \<open>The bytes a quad decodes to.\<close>

fun base64_decode_quad :: "u8 list \<Rightarrow> u8 list option" where
  "base64_decode_quad (in0 # in1 # in2 # in3 # _) =
    (let a = base64_ascii_to_bin in0; b = base64_ascii_to_bin in1;
         c = base64_ascii_to_bin in2; d = base64_ascii_to_bin in3
     in if a = 0xff \<or> b = 0xff \<or> c = 0xff \<or> d = 0xff then None
        else let v = push_bit 18 (ucast a) OR push_bit 12 (ucast b) OR push_bit 6 (ucast c) OR ucast d :: u32;
                 padding_pattern = (of_bool (in0 = 61) * 8 + of_bool (in1 = 61) * 4 +
                                    of_bool (in2 = 61) * 2 + of_bool (in3 = 61) :: nat)
        in if padding_pattern = 0 then Some [ucast (drop_bit 16 v), ucast (drop_bit 8 v), ucast v]
           else if padding_pattern = 1 then Some [ucast (drop_bit 16 v), ucast (drop_bit 8 v)]
           else if padding_pattern = 3 then Some [ucast (drop_bit 16 v)]
           else None)"
| "base64_decode_quad _ = None"

text \<open>
  The loop of \<open>EVP_DecodeUpdate\<close>: \<open>None\<close> for a \<open>return -1\<close> inside it, with the bytes written before.
\<close>

definition is_blank :: "u8 \<Rightarrow> bool" where
  "is_blank c \<longleftrightarrow> c = 32 \<or> c = 9 \<or> c = 13 \<or> c = 10"

fun decode_loop :: "EVP_ENCODE_CTX \<Rightarrow> u8 list \<Rightarrow> bool \<times> u8 list \<times> EVP_ENCODE_CTX" where
  "decode_loop ctx [] = (True, [], ctx)"
| "decode_loop ctx (c # inp) =
    (if is_blank c then decode_loop ctx inp
     else if ec_eof_seen ctx then (False, [], ctx\<lparr>ec_error_encountered := True\<rparr>)
     else let ctx1 = ctx\<lparr>ec_data := (ec_data ctx)[ec_data_used ctx := c], ec_data_used := ec_data_used ctx + 1\<rparr>
     in if ec_data_used ctx1 = 4
        then (case base64_decode_quad (ec_data ctx1) of
                None \<Rightarrow> (False, [], ctx1\<lparr>ec_error_encountered := True\<rparr>)
              | Some bs \<Rightarrow>
                 (case decode_loop (ctx1\<lparr>ec_data_used := 0,
                                       ec_eof_seen := (if length bs < 3 then True else ec_eof_seen ctx1)\<rparr>) inp of
                    (ok, out, ctx2) \<Rightarrow> (ok, bs @ out, ctx2)))
        else decode_loop ctx1 inp)"

text \<open>The result, the bytes written, \<open>*out_len\<close> and the context.\<close>

definition EVP_DecodeUpdate :: "EVP_ENCODE_CTX \<Rightarrow> u8 list \<Rightarrow> int \<times> u8 list \<times> nat \<times> EVP_ENCODE_CTX" where
  "EVP_DecodeUpdate ctx inp =
    (if ec_error_encountered ctx then (-1, [], 0, ctx)
     else (case decode_loop ctx inp of
             (False, out, ctx1) \<Rightarrow> (-1, out, 0, ctx1)
           | (True, out, ctx1) \<Rightarrow>
              (if length out > INT_MAX then (-1, out, 0, ctx1\<lparr>ec_error_encountered := True\<rparr>)
               else (if ec_eof_seen ctx1 then 0 else 1, out, length out, ctx1))))"

definition EVP_DecodeFinal :: "EVP_ENCODE_CTX \<Rightarrow> int" where
  "EVP_DecodeFinal ctx = (if ec_error_encountered ctx \<or> ec_data_used ctx \<noteq> 0 then -1 else 1)"

text \<open>The loop of \<open>EVP_DecodeBase64\<close> over whole quads.\<close>

fun decode_quads :: "u8 list \<Rightarrow> u8 list option" where
  "decode_quads (a # b # c # d # inp) =
    (case base64_decode_quad [a, b, c, d] of
       None \<Rightarrow> None
     | Some bs \<Rightarrow>
        (if length bs \<noteq> 3 \<and> inp \<noteq> [] then None
         else (case decode_quads inp of None \<Rightarrow> None | Some out \<Rightarrow> Some (bs @ out))))"
| "decode_quads _ = Some []"

definition EVP_DecodeBase64 :: "nat \<Rightarrow> u8 list \<Rightarrow> u8 list option" where
  "EVP_DecodeBase64 max_out inp =
    (if length inp mod 4 \<noteq> 0 then None
     else (case EVP_DecodedLength (length inp) of
             None \<Rightarrow> None
           | Some max_len \<Rightarrow> if max_out < max_len then None else decode_quads inp))"

text \<open>\<open>EVP_DecodeBlock\<close> trims, decodes, and pads the output to whole triples; \<open>None\<close> is the result -1.\<close>

definition EVP_DecodeBlock :: "u8 list \<Rightarrow> u8 list option" where
  "EVP_DecodeBlock src0 =
    (let src1 = dropWhile (\<lambda>c. c = 32 \<or> c = 9) src0;
         src = rev (dropWhile is_blank (rev src1))
     in (case EVP_DecodedLength (length src) of
           None \<Rightarrow> None
         | Some dst_len \<Rightarrow>
            (if dst_len > INT_MAX then None
             else (case EVP_DecodeBase64 dst_len src of
                     None \<Rightarrow> None
                   | Some out \<Rightarrow> Some (out @ replicate ((3 - length out mod 3) mod 3) 0)))))"

section \<open>The character maps invert each other\<close>

lemma constant_time_lt_args_8_if:
  "constant_time_lt_args_8 a b = (if a < b then CONSTTIME_TRUE_8 else CONSTTIME_FALSE_8)"
proof -
  have u: "unat (ucast a :: u64) = unat a" "unat (ucast b :: u64) = unat b" by (simp_all add: unat_ucast_u8)
  have "\<not> bit (ucast a :: u64) 63" "\<not> bit (ucast b :: u64) 63"
    unfolding bit_63_iff u using less_le_trans [OF unat_u8_bound, of "2 ^ 63"] by (simp_all add: linorder_not_le)
  then have "bit (ucast a - ucast b :: u64) 63 \<longleftrightarrow> (ucast a :: u64) < ucast b" by (intro sub_msb) simp
  then show ?thesis by (simp add: constant_time_lt_args_8_def ct word_less_nat_alt u)
qed

text \<open>The alphabet.\<close>

definition b64_char :: "nat \<Rightarrow> u8" where
  "b64_char n = (if n < 26 then word_of_nat (65 + n) else if n < 52 then word_of_nat (71 + n)
     else if n < 62 then word_of_nat (n - 4) else if n = 62 then 43 else 47)"

lemma conv_bin2ascii_table: "list_all (\<lambda>n. conv_bin2ascii (word_of_nat n) = b64_char n) [0..<64]"
  by code_simp

lemma conv_bin2ascii_mod: "conv_bin2ascii a = conv_bin2ascii (word_of_nat (unat a mod 64))"
proof -
  have "(0x3f :: u8) = mask 6" by (simp add: mask_eq_exp_minus_1)
  then have "unat (a AND 0x3f) = unat a mod 64" by (simp only: unat_and_mask) simp
  then have "word_of_nat (unat a mod 64) = a AND 0x3f" by (simp only: word_of_nat_unat flip: \<open>unat (a AND 0x3f) = _\<close>)
  then show ?thesis unfolding conv_bin2ascii_def by (simp add: and.assoc)
qed

lemma conv_bin2ascii_char: "conv_bin2ascii a = b64_char (unat a mod 64)"
proof -
  have "unat a mod 64 \<in> set [0..<64]" by simp
  with conv_bin2ascii_table have "conv_bin2ascii (word_of_nat (unat a mod 64)) = b64_char (unat a mod 64)"
    unfolding list_all_iff by blast
  then show ?thesis using conv_bin2ascii_mod by metis
qed

lemma ascii_to_bin_table:
  "list_all (\<lambda>n. base64_ascii_to_bin (b64_char n) = word_of_nat n \<and> b64_char n \<noteq> 61 \<and> \<not> is_blank (b64_char n)) [0..<64]"
  by code_simp

lemma b64_char_props:
  assumes "n < 64"
  shows "base64_ascii_to_bin (b64_char n) = word_of_nat n" and "b64_char n \<noteq> 61" and "\<not> is_blank (b64_char n)"
proof -
  have "n \<in> set [0..<64]" using assms by simp
  with ascii_to_bin_table have "base64_ascii_to_bin (b64_char n) = word_of_nat n \<and> b64_char n \<noteq> 61 \<and> \<not> is_blank (b64_char n)"
    unfolding list_all_iff by blast
  then show "base64_ascii_to_bin (b64_char n) = word_of_nat n" and "b64_char n \<noteq> 61" and "\<not> is_blank (b64_char n)"
    by blast+
qed

lemma ascii_to_bin_conv: "base64_ascii_to_bin (conv_bin2ascii a) = a AND mask 6"
  using b64_char_props(1) [of "unat a mod 64"]
  by (simp add: conv_bin2ascii_char word_unat_eq_iff unat_and_mask unat_of_nat)

lemma conv_bin2ascii_props [simp]: "conv_bin2ascii a \<noteq> 61" "\<not> is_blank (conv_bin2ascii a)"
  using b64_char_props(2,3) [of "unat a mod 64"] by (simp_all add: conv_bin2ascii_char)

lemma and_mask6_not_ff: "(a :: u8) AND mask 6 \<noteq> 0xff"
proof
  assume "a AND mask 6 = 0xff"
  then have "unat (a AND mask 6) = 255" by simp
  then show False by (simp add: unat_and_mask)
qed

lemma ascii_to_bin_equals: "base64_ascii_to_bin 61 = 0"
  by code_simp

lemma sextet: "(ucast ((ucast x :: u8) AND mask 6) :: u32) = take_bit 6 x" for x :: u32
  by (rule bit_word_eqI) (auto simp: bit_simps)

lemma join_bits: "push_bit k (take_bit m (drop_bit k l)) OR take_bit k l = take_bit (k + m) l" for l :: "'a::len word"
  by (rule bit_word_eqI) (auto simp: bit_simps)

lemma quad_bits:
  "push_bit 18 (ucast ((ucast (drop_bit 18 l) :: u8) AND mask 6)) OR push_bit 12 (ucast ((ucast (drop_bit 12 l) :: u8) AND mask 6)) OR
   push_bit 6 (ucast ((ucast (drop_bit 6 l) :: u8) AND mask 6)) OR ucast ((ucast l :: u8) AND mask 6) = take_bit 24 (l :: u32)"
  unfolding sextet or.assoc
  using join_bits [of 6 6 l] join_bits [of 12 6 l] join_bits [of 18 6 l] by simp

text \<open>A triple, packed and unpacked.\<close>

definition pack :: "u8 \<Rightarrow> u8 \<Rightarrow> u8 \<Rightarrow> u32" where
  "pack a b c = push_bit 16 (ucast a) OR push_bit 8 (ucast b) OR ucast c"

lemma bit_u8: "bit (b :: u8) n \<Longrightarrow> n < 8"
  using bit_imp_le_length by fastforce

lemma pack_bytes:
  "ucast (drop_bit 16 (take_bit 24 (pack a b c))) = a"
  "ucast (drop_bit 8 (take_bit 24 (pack a b c))) = b"
  "ucast (take_bit 24 (pack a b c)) = c"
  by (rule bit_word_eqI; auto simp: pack_def bit_simps dest: bit_u8)+

lemma decode_quad_full:
  "base64_decode_quad (conv_bin2ascii (ucast (drop_bit 18 (pack a b c))) # conv_bin2ascii (ucast (drop_bit 12 (pack a b c))) #
     conv_bin2ascii (ucast (drop_bit 6 (pack a b c))) # conv_bin2ascii (ucast (pack a b c)) # rest) = Some [a, b, c]"
  by (simp add: ascii_to_bin_conv and_mask6_not_ff quad_bits pack_bytes Let_def)

lemma decode_quad_two:
  "base64_decode_quad (conv_bin2ascii (ucast (drop_bit 18 (pack a b 0))) # conv_bin2ascii (ucast (drop_bit 12 (pack a b 0))) #
     conv_bin2ascii (ucast (drop_bit 6 (pack a b 0))) # 61 # rest) = Some [a, b]"
proof -
  have "(ucast (pack a b 0) :: u8) AND mask 6 = 0"
    unfolding pack_def by (rule bit_word_eqI) (auto simp: bit_simps)
  then have "push_bit 18 (ucast ((ucast (drop_bit 18 (pack a b 0)) :: u8) AND mask 6)) OR push_bit 12 (ucast ((ucast (drop_bit 12 (pack a b 0)) :: u8) AND mask 6)) OR
     push_bit 6 (ucast ((ucast (drop_bit 6 (pack a b 0)) :: u8) AND mask 6)) = take_bit 24 (pack a b 0)"
    using quad_bits [of "pack a b 0"] by simp
  then show ?thesis by (simp add: ascii_to_bin_conv ascii_to_bin_equals and_mask6_not_ff pack_bytes Let_def)
qed

lemma decode_quad_one:
  "base64_decode_quad (conv_bin2ascii (ucast (drop_bit 18 (pack a 0 0))) # conv_bin2ascii (ucast (drop_bit 12 (pack a 0 0))) #
     61 # 61 # rest) = Some [a]"
proof -
  have "(ucast (pack a 0 0) :: u8) AND mask 6 = 0" "(ucast (drop_bit 6 (pack a 0 0)) :: u8) AND mask 6 = 0"
    unfolding pack_def by (rule bit_word_eqI, auto simp: bit_simps)+
  then have "push_bit 18 (ucast ((ucast (drop_bit 18 (pack a 0 0)) :: u8) AND mask 6)) OR
     push_bit 12 (ucast ((ucast (drop_bit 12 (pack a 0 0)) :: u8) AND mask 6)) = take_bit 24 (pack a 0 0)"
    using quad_bits [of "pack a 0 0"] by simp
  then show ?thesis by (simp add: ascii_to_bin_conv ascii_to_bin_equals and_mask6_not_ff pack_bytes Let_def)
qed

text \<open>The encoder in terms of \<open>pack\<close>.\<close>

definition encode_triple :: "u8 \<Rightarrow> u8 \<Rightarrow> u8 \<Rightarrow> u8 list" where
  "encode_triple a b c = [conv_bin2ascii (ucast (drop_bit 18 (pack a b c))), conv_bin2ascii (ucast (drop_bit 12 (pack a b c))),
     conv_bin2ascii (ucast (drop_bit 6 (pack a b c))), conv_bin2ascii (ucast (pack a b c))]"

lemma encode_loop_pack:
  "encode_loop [] = []"
  "encode_loop [a] = take 2 (encode_triple a 0 0) @ [61, 61]"
  "encode_loop [a, b] = take 3 (encode_triple a b 0) @ [61]"
  "encode_loop (a # b # c # xs) = encode_triple a b c @ encode_loop xs"
  by (simp_all add: encode_triple_def pack_def Let_def eval_nat_numeral)

lemma length_encode_loop: "length (encode_loop xs) = (length xs + 2) div 3 * 4"
proof (induction xs rule: encode_loop.induct)
  case (4 a b c src)
  have "(length src + 5) div 3 = (length src + 2) div 3 + 1" by simp
  with 4 show ?case by (simp add: Let_def add.commute)
qed (simp_all add: Let_def)

lemma decode_quads_encode: "decode_quads (encode_loop xs) = Some xs"
proof (induction xs rule: encode_loop.induct)
  case (4 a b c src)
  then show ?case
    by (simp add: encode_loop_pack encode_triple_def decode_quad_full del: encode_loop.simps base64_decode_quad.simps)
next
  case 1
  show ?case by simp
qed (simp_all add: encode_loop_pack encode_triple_def decode_quad_two decode_quad_one
      del: encode_loop.simps base64_decode_quad.simps)

lemma EVP_DecodeBase64_EncodeBlock:
  assumes "length xs + 2 \<le> max_out"
  shows "EVP_DecodeBase64 max_out (encode_loop xs) = Some xs"
proof -
  have "(length xs + 2) div 3 * 3 \<le> length xs + 2" by simp
  with assms have "\<not> max_out < (length xs + 2) div 3 * 3" by linarith
  then show ?thesis
    by (simp add: EVP_DecodeBase64_def EVP_DecodedLength_def length_encode_loop decode_quads_encode)
qed

lemma EVP_EncodedLength_eq:
  assumes "len < SIZE_BOUND"
  shows "EVP_EncodedLength len = (if (len + 2) div 3 * 4 + 1 < SIZE_BOUND then Some ((len + 2) div 3 * 4 + 1) else None)"
proof (cases "len + 2 < SIZE_BOUND")
  case True
  let ?n = "(len + 2) div 3"
  have s: "size_add len 2 = len + 2" using True by (rule size_add_id)
  show ?thesis
  proof (cases "?n * 4 < SIZE_BOUND")
    case small: True
    then have "?n * 4 + 1 < SIZE_BOUND" by (simp add: SIZE_BOUND_def)
    then show ?thesis using s small by (simp add: EVP_EncodedLength_def size_add_def)
  next
    case False
    have "?n * 4 mod SIZE_BOUND div 4 < ?n" using False True unfolding SIZE_BOUND_def by simp
    then show ?thesis using s False by (simp add: EVP_EncodedLength_def Let_def)
  qed
next
  case False
  then have "size_add len 2 < len" using assms size_add_overflow_iff [of len 2] by (simp add: SIZE_BOUND_def)
  moreover have "\<not> (len + 2) div 3 * 4 + 1 < SIZE_BOUND" using False assms by (simp add: SIZE_BOUND_def)
  ultimately show ?thesis by (simp add: EVP_EncodedLength_def)
qed

section \<open>The decoder accepts exactly the well-formed texts\<close>

text \<open>
  A quad is well formed when it is over the alphabet with padding only in the last one or two places;
  a text is a sequence of unpadded quads with at most one padded quad at its end.
\<close>

definition is_b64 :: "u8 \<Rightarrow> bool" where
  "is_b64 c \<longleftrightarrow> 65 \<le> c \<and> c \<le> 90 \<or> 97 \<le> c \<and> c \<le> 122 \<or> 48 \<le> c \<and> c \<le> 57 \<or> c = 43 \<or> c = 47"

definition quad_ok :: "u8 \<Rightarrow> u8 \<Rightarrow> u8 \<Rightarrow> u8 \<Rightarrow> bool" where
  "quad_ok a b c d \<longleftrightarrow> is_b64 a \<and> is_b64 b \<and>
    (is_b64 c \<and> (is_b64 d \<or> d = 61) \<or> c = 61 \<and> d = 61)"

fun text_ok :: "u8 list \<Rightarrow> bool" where
  "text_ok [] \<longleftrightarrow> True"
| "text_ok (a # b # c # d # inp) \<longleftrightarrow> quad_ok a b c d \<and> (if d = 61 then inp = [] else text_ok inp)"
| "text_ok _ \<longleftrightarrow> False"

lemma constant_time_in_range_8_if:
  assumes "lo \<le> hi" and "unat hi - unat lo < 255"
  shows "constant_time_in_range_8 a lo hi = (if lo \<le> a \<and> a \<le> hi then CONSTTIME_TRUE_8 else CONSTTIME_FALSE_8)"
proof -
  have lo: "unat (hi - lo) = unat hi - unat lo" using assms(1) by (simp add: unat_sub_if' word_le_nat_alt)
  have up: "unat (hi - lo + 1) = unat hi - unat lo + 1" using assms(2) lo by (simp add: unat_word_ariths)
  have le: "unat lo \<le> unat hi" "unat lo < 256" "unat hi < 256" using assms(1) by (auto simp: word_le_nat_alt)
  have "a - lo < hi - lo + 1 \<longleftrightarrow> lo \<le> a \<and> a \<le> hi"
  proof (cases "unat lo \<le> unat a")
    case True
    then have "unat (a - lo) = unat a - unat lo" by (simp add: unat_sub_if')
    with True up le show ?thesis unfolding word_less_nat_alt word_le_nat_alt by presburger
  next
    case False
    then have "unat (a - lo) = unat a + 256 - unat lo" by (simp add: unat_sub_if')
    with False up le show ?thesis unfolding word_less_nat_alt word_le_nat_alt by presburger
  qed
  then show ?thesis by (simp add: constant_time_in_range_8_def constant_time_lt_args_8_if)
qed

lemma ucast_u64_eq_numeral: "(ucast (a :: u8) :: u64) = ucast b \<longleftrightarrow> a = b"
  by (simp add: word_unat_eq_iff unat_ucast_u8)

lemma base64_ascii_to_bin_if:
  "base64_ascii_to_bin c =
    (if c = 61 then 0 else if c = 47 then 63 else if c = 43 then 62
     else if 48 \<le> c \<and> c \<le> 57 then c - 48 + 52
     else if 97 \<le> c \<and> c \<le> 122 then c - 97 + 26
     else if 65 \<le> c \<and> c \<le> 90 then c - 65 else 0xff)"
proof -
  have "(ucast c :: u64) = 43 \<longleftrightarrow> c = 43" "(ucast c :: u64) = 47 \<longleftrightarrow> c = 47" "(ucast c :: u64) = 61 \<longleftrightarrow> c = 61"
    using ucast_u64_eq_numeral [of c 43] ucast_u64_eq_numeral [of c 47] ucast_u64_eq_numeral [of c 61] by simp_all
  moreover have "constant_time_in_range_8 c 65 90 = (if 65 \<le> c \<and> c \<le> 90 then CONSTTIME_TRUE_8 else CONSTTIME_FALSE_8)"
    "constant_time_in_range_8 c 97 122 = (if 97 \<le> c \<and> c \<le> 122 then CONSTTIME_TRUE_8 else CONSTTIME_FALSE_8)"
    "constant_time_in_range_8 c 48 57 = (if 48 \<le> c \<and> c \<le> 57 then CONSTTIME_TRUE_8 else CONSTTIME_FALSE_8)"
    by (rule constant_time_in_range_8_if; simp)+
  ultimately show ?thesis unfolding base64_ascii_to_bin_def Let_def
    by (simp only: constant_time_8_if constant_time_select_8_if)
qed

lemma ascii_to_bin_valid: "base64_ascii_to_bin c \<noteq> 0xff \<longleftrightarrow> c = 61 \<or> is_b64 c"
proof -
  have "c - 48 + 52 \<noteq> 0xff" if "c \<le> 57" "48 \<le> c"
    using that by (auto simp: word_le_nat_alt word_unat_eq_iff unat_word_ariths unat_sub_if')
  moreover have "c - 97 + 26 \<noteq> 0xff" if "c \<le> 122" "97 \<le> c"
    using that by (auto simp: word_le_nat_alt word_unat_eq_iff unat_word_ariths unat_sub_if')
  moreover have "c - 65 \<noteq> 0xff" if "c \<le> 90" "65 \<le> c"
    using that by (auto simp: word_le_nat_alt word_unat_eq_iff unat_word_ariths unat_sub_if')
  ultimately show ?thesis unfolding base64_ascii_to_bin_if is_b64_def by auto
qed

lemma is_b64_equals: "\<not> is_b64 61"
  by (simp add: is_b64_def)

lemma base64_decode_quad_iff:
  "base64_decode_quad [a, b, c, d] \<noteq> None \<longleftrightarrow> quad_ok a b c d"
proof -
  have v: "base64_ascii_to_bin x = 0xff \<longleftrightarrow> x \<noteq> 61 \<and> \<not> is_b64 x" for x using ascii_to_bin_valid [of x] by blast
  show ?thesis
    unfolding base64_decode_quad.simps Let_def v quad_ok_def
    using is_b64_equals by (cases "a = 61"; cases "b = 61"; cases "c = 61"; cases "d = 61") auto
qed

lemma base64_decode_quad_length:
  "base64_decode_quad [a, b, c, d] = Some bs \<Longrightarrow> length bs = 3 \<longleftrightarrow> d \<noteq> 61"
  unfolding base64_decode_quad.simps Let_def
  by (cases "a = 61"; cases "b = 61"; cases "c = 61"; cases "d = 61") (auto split: if_splits)

lemma decode_quads_iff: "length inp mod 4 = 0 \<Longrightarrow> decode_quads inp \<noteq> None \<longleftrightarrow> text_ok inp"
proof (induction inp rule: text_ok.induct)
  case (2 a b c d inp)
  from "2.prems" have len: "length inp mod 4 = 0" by simp
  show ?case
  proof (cases "base64_decode_quad [a, b, c, d]")
    case None
    then show ?thesis using base64_decode_quad_iff [of a b c d] by simp
  next
    case (Some bs)
    then show ?thesis using base64_decode_quad_iff [of a b c d] base64_decode_quad_length [OF Some] "2.IH" [OF _ len]
      by (cases "d = 61") (auto simp del: base64_decode_quad.simps split: option.splits)
  qed
qed simp_all

section \<open>Properties\<close>

text \<open>
  \<open>EVP_EncodeBlock\<close> writes a terminated text and returns its length, and
  \<open>EVP_DecodeBase64\<close> of that text, given room, returns the bytes that were encoded.
\<close>

theorem base64_roundtrip:
  assumes "length xs + 2 \<le> max_out" and "EVP_EncodeBlock xs = (dst, n)"
  shows "EVP_DecodeBase64 max_out (take n dst) = Some xs \<and> length dst = n + 1 \<and> dst ! n = 0"
  using assms(2) EVP_DecodeBase64_EncodeBlock [OF assms(1)] by (auto simp: EVP_EncodeBlock_def)

theorem base64_roundtrip_witness:
  "EVP_EncodeBlock [77, 97] = ([84, 87, 69, 61, 0], 4) \<and> EVP_DecodeBase64 4 [84, 87, 69, 61] = Some [77, 97]"
proof -
  have "EVP_EncodeBlock [77, 97] = ([84, 87, 69, 61, 0], 4)" by code_simp
  with base64_roundtrip [OF _ this, of 4] show ?thesis by simp
qed

text \<open>
  C18: \<open>EVP_DecodeBase64\<close> accepts exactly the texts of whole quads over the alphabet in which padding,
  one or two equal signs, stands only at the very end, and only when the output has room for them.
\<close>

theorem base64_accepts:
  "EVP_DecodeBase64 max_out inp \<noteq> None \<longleftrightarrow>
    length inp mod 4 = 0 \<and> text_ok inp \<and> length inp div 4 * 3 \<le> max_out"
  using decode_quads_iff [of inp]
  by (cases "length inp mod 4 = 0"; cases "max_out < length inp div 4 * 3")
    (simp_all add: EVP_DecodeBase64_def EVP_DecodedLength_def linorder_not_less del: not_None_eq)

text \<open>
  C34: \<open>EVP_EncodedLength\<close> returns the size of the text with its terminator, and fails exactly
  when a \<open>size_t\<close> cannot hold it, in spite of the wrap-around of the sums it computes.
\<close>

theorem encoded_length_exact:
  assumes "length xs < SIZE_BOUND"
  shows "EVP_EncodedLength (length xs) =
    (if length (fst (EVP_EncodeBlock xs)) < SIZE_BOUND then Some (length (fst (EVP_EncodeBlock xs))) else None)"
  using EVP_EncodedLength_eq [OF assms] by (simp add: EVP_EncodeBlock_def length_encode_loop)

theorem encoded_length_exact_witness: "EVP_EncodedLength (length [77 :: u8, 97]) = Some 5"
  using encoded_length_exact [of "[77, 97]"] by (simp add: SIZE_BOUND_def EVP_EncodeBlock_def length_encode_loop)

end
