(* ===== verification/Base64_Stream.thy ===== *)
theory Base64_Stream imports Streams Base64 begin

text \<open>
  The streaming interfaces of base64.c. The encoder meets the block stream contract with 48-byte
  lines; the decoder processes characters one at a time and is compared with the block decoder on the
  encoder's output.
\<close>

section \<open>The encoder\<close>

definition ec_pending :: "EVP_ENCODE_CTX \<Rightarrow> u8 list" where
  "ec_pending ctx = take (ec_data_used ctx) (ec_data ctx)"

definition ec_ok :: "EVP_ENCODE_CTX \<Rightarrow> bool" where
  "ec_ok ctx \<longleftrightarrow> length (ec_data ctx) = 48 \<and> ec_data_used ctx < 48"

lemma encode_line_eq: "encode_line xs = encode_loop xs @ [10]"
  by (simp add: encode_line_def EVP_EncodeBlock_def)

lemma snd_EncodeBlock: "length xs = 48 \<Longrightarrow> snd (EVP_EncodeBlock xs) = 64"
  by (simp add: EVP_EncodeBlock_def length_encode_loop)

lemma encode_lines_loop_eq:
  "tot + 65 * (length inp div 48) < SIZE_BOUND \<Longrightarrow>
    encode_lines_loop tot inp =
      (concat (map encode_line (blocks 48 inp)), Some (tot + 65 * (length inp div 48), tail_of 48 inp))"
proof (induction tot inp rule: encode_lines_loop.induct)
  case (1 tot inp)
  show ?case
  proof (cases "48 \<le> length inp")
    case True
    have d: "length inp div 48 = Suc (length (drop 48 inp) div 48)" using True by (simp add: div_if)
    have n: "tot + 65 + 65 * (length (drop 48 inp) div 48) < SIZE_BOUND" using "1.prems" unfolding d by simp
    then have t: "size_add (size_add tot 64) 1 = tot + 65" "size_add tot (64 + 1) = tot + 65"
      by (simp_all add: size_add_def)
    have e: "snd (EVP_EncodeBlock (take 48 inp)) = 64" using True by (simp add: snd_EncodeBlock)
    have "encode_lines_loop (tot + 65) (drop 48 inp) =
      (concat (map encode_line (blocks 48 (drop 48 inp))),
       Some (tot + 65 + 65 * (length (drop 48 inp) div 48), tail_of 48 (drop 48 inp)))"
      using "1.IH" [OF True refl refl] n e t by simp
    then show ?thesis using True e t d blocks_step [of 48 inp]
      by (subst encode_lines_loop.simps) (simp add: Let_def)
  next
    case False
    then show ?thesis by (simp add: encode_lines_loop.simps)
  qed
qed

text \<open>One update: whole lines go out, the rest is pending.\<close>

lemma length_encode_lines: "length (concat (map encode_line (blocks 48 xs))) = 65 * (length xs div 48)"
proof -
  have "length (encode_line b) = 65" if "b \<in> set (blocks 48 xs)" for b
    using blocks_length [OF that] by (simp add: encode_line_eq length_encode_loop)
  then have "length (concat (map encode_line bs)) = 65 * length bs" if "set bs \<subseteq> set (blocks 48 xs)" for bs
    using that by (induction bs) auto
  from this [OF subset_refl] show ?thesis by simp
qed

text \<open>The tail of \<open>EVP_EncodeUpdate\<close>, after the pending line is complete.\<close>

lemma encode_update_rest:
  assumes "length (ec_data ctx1) = 48" and "length txt0 + 65 * (length inp1 div 48) \<le> INT_MAX"
  defines "txt \<equiv> txt0 @ concat (map encode_line (blocks 48 inp1))"
  shows "(case encode_lines_loop (length txt0) inp1 of
           (txt, None) \<Rightarrow> (txt0 @ txt @ [0], 0, ctx1)
         | (txt, Some (tot, rest)) \<Rightarrow>
            (if txt0 @ txt = [] then [] else txt0 @ txt @ [0],
             if tot > INT_MAX then 0 else tot,
             ctx1\<lparr>ec_data := store_at 0 rest (ec_data ctx1), ec_data_used := length rest\<rparr>)) =
    (if txt = [] then [] else txt @ [0], length txt,
     ctx1\<lparr>ec_data := store_at 0 (tail_of 48 inp1) (ec_data ctx1), ec_data_used := length (tail_of 48 inp1)\<rparr>)"
proof -
  have "length txt0 + 65 * (length inp1 div 48) < SIZE_BOUND"
    using assms(2) by (simp add: INT_MAX_def SIZE_BOUND_def)
  from encode_lines_loop_eq [OF this] assms(2) show ?thesis
    by (simp add: txt_def length_encode_lines del: concat_eq_Nil_conv)
qed

lemma store_at_0_pending:
  assumes "length d = 48"
  shows "take (length (tail_of 48 xs)) (store_at 0 (tail_of 48 xs) d) = tail_of 48 xs"
    and "length (store_at 0 (tail_of 48 xs) d) = 48"
  using length_tail_of [of 48 xs] assms by (simp_all add: store_at_def)

lemma EVP_EncodeUpdate_spec:
  assumes "ec_ok ctx" and "65 * ((length (ec_pending ctx) + length inp) div 48) \<le> INT_MAX"
  defines "txt \<equiv> concat (map encode_line (blocks 48 (ec_pending ctx @ inp)))"
  shows "\<exists>ctx'. EVP_EncodeUpdate ctx inp = (if txt = [] then [] else txt @ [0], length txt, ctx') \<and>
    ec_ok ctx' \<and> ec_pending ctx' = tail_of 48 (ec_pending ctx @ inp)"
proof -
  let ?p = "ec_pending ctx" and ?u = "ec_data_used ctx"
  have len: "length (ec_data ctx) = 48" and u: "?u < 48" and p: "length ?p = ?u"
    using assms(1) by (auto simp: ec_ok_def ec_pending_def)
  consider "inp = []" | "inp \<noteq> []" "?u + length inp < 48" | "48 \<le> ?u + length inp" by linarith
  then show ?thesis
  proof cases
    case 1
    then show ?thesis using p u assms(1) by (auto simp: EVP_EncodeUpdate_def txt_def)
  next
    case 2
    let ?c = "ctx\<lparr>ec_data := store_at ?u inp (ec_data ctx), ec_data_used := ?u + length inp\<rparr>"
    have "ec_ok ?c" "ec_pending ?c = ?p @ inp" using 2 len by (simp_all add: ec_ok_def ec_pending_def)
    moreover have "length inp < 48 - ?u" using 2 by linarith
    then have "EVP_EncodeUpdate ctx inp = ([], 0, ?c)" using 2 by (simp add: EVP_EncodeUpdate_def)
    ultimately show ?thesis using 2 p by (simp add: txt_def)
  next
    case 3
    define todo where "todo = (if ?u = 0 then 0 else 48 - ?u)"
    define d where "d = (if ?u = 0 then ec_data ctx else store_at ?u (take todo inp) (ec_data ctx))"
    define txt0 where "txt0 = (if ?u = 0 then [] else encode_line d)"
    define c1 where "c1 = (if ?u = 0 then ctx else ctx\<lparr>ec_data := d, ec_data_used := 0\<rparr>)"
    have d: "length d = 48" "?u \<noteq> 0 \<Longrightarrow> d = ?p @ take todo inp"
      using 3 len u by (simp_all add: d_def todo_def store_at_def ec_pending_def)
    have c1: "length (ec_data c1) = 48" using d(1) len by (simp add: c1_def)
    have cut: "blocks 48 (?p @ inp) = (if ?u = 0 then [] else [d]) @ blocks 48 (drop todo inp)"
      "tail_of 48 (?p @ inp) = tail_of 48 (drop todo inp)"
    proof -
      have "?p @ inp = d @ drop todo inp" if "?u \<noteq> 0" using d(2) [OF that] by simp
      moreover have "?u = 0 \<Longrightarrow> ?p = [] \<and> todo = 0" using p by (simp add: todo_def)
      ultimately show "blocks 48 (?p @ inp) = (if ?u = 0 then [] else [d]) @ blocks 48 (drop todo inp)"
        "tail_of 48 (?p @ inp) = tail_of 48 (drop todo inp)"
        using blocks_Cons [of 48 d "drop todo inp"] d(1) by (cases "?u = 0"; simp)+
    qed
    have txt_eq: "txt = txt0 @ concat (map encode_line (blocks 48 (drop todo inp)))"
      unfolding txt_def cut txt0_def by simp
    have lt: "length txt0 = (if ?u = 0 then 0 else 65)"
      using d(1) by (simp add: txt0_def encode_line_eq length_encode_loop)
    have fits: "length txt0 + 65 * (length (drop todo inp) div 48) \<le> INT_MAX"
    proof -
      have "length txt = 65 * ((?u + length inp) div 48)"
        unfolding txt_def length_encode_lines using p by simp
      then show ?thesis using assms(2) txt_eq length_encode_lines [of "drop todo inp"] p by simp
    qed
    have "EVP_EncodeUpdate ctx inp =
      (case encode_lines_loop (length txt0) (drop todo inp) of
           (txt, None) \<Rightarrow> (txt0 @ txt @ [0], 0, c1)
         | (txt, Some (tot, rest)) \<Rightarrow>
            (if txt0 @ txt = [] then [] else txt0 @ txt @ [0],
             if tot > INT_MAX then 0 else tot,
             c1\<lparr>ec_data := store_at 0 rest (ec_data c1), ec_data_used := length rest\<rparr>))"
    proof -
      have n: "inp \<noteq> []" "\<not> length inp < 48 - ?u" using 3 u by auto
      show ?thesis
      proof (cases "?u = 0")
        case True
        then have e: "todo = 0" "txt0 = []" "c1 = ctx" by (simp_all add: todo_def txt0_def c1_def)
        show ?thesis unfolding e append_Nil using True n by (simp add: EVP_EncodeUpdate_def Let_def split: prod.splits option.splits)
      next
        case False
        then have e: "todo = 48 - ?u" "txt0 = encode_line d" "c1 = ctx\<lparr>ec_data := d, ec_data_used := 0\<rparr>"
          "store_at ?u (take (48 - ?u) inp) (ec_data ctx) = d"
          by (simp_all add: todo_def txt0_def c1_def d_def)
        with False n lt d(1) show ?thesis
          by (simp add: EVP_EncodeUpdate_def Let_def snd_EncodeBlock split: prod.splits option.splits)
      qed
    qed
    also note encode_update_rest [OF c1 fits]
    finally show ?thesis unfolding txt_eq cut(2)
      using store_at_0_pending [OF c1, of "drop todo inp"] length_tail_of [of 48 "drop todo inp"]
      by (auto simp: ec_ok_def ec_pending_def)
  qed
qed

text \<open>
  The caller's use: \<open>*out_len\<close> bytes of the buffer are appended to the output. Up to
  \<open>ENCODE_CHUNK_MAX\<close> bytes of input the length fits an \<open>int\<close>.
\<close>

definition encode_step :: "EVP_ENCODE_CTX \<times> u8 list \<Rightarrow> u8 list \<Rightarrow> EVP_ENCODE_CTX \<times> u8 list" where
  "encode_step s inp = (case EVP_EncodeUpdate (fst s) inp of (buf, n, ctx) \<Rightarrow> (ctx, snd s @ take n buf))"

definition ENCODE_CHUNK_MAX :: nat where
  "ENCODE_CHUNK_MAX = 1500000000"

lemma encode_step_spec:
  assumes "ec_ok (fst s)" and "length inp \<le> ENCODE_CHUNK_MAX"
  shows "ec_ok (fst (encode_step s inp))"
    and "ec_pending (fst (encode_step s inp)) = tail_of 48 (ec_pending (fst s) @ inp)"
    and "snd (encode_step s inp) = snd s @ concat (map encode_line (blocks 48 (ec_pending (fst s) @ inp)))"
proof -
  have "length (ec_pending (fst s)) < 48" using assms(1) by (simp add: ec_ok_def ec_pending_def)
  with assms(2) have "65 * ((length (ec_pending (fst s)) + length inp) div 48) \<le> INT_MAX"
    unfolding ENCODE_CHUNK_MAX_def INT_MAX_def by (simp add: div_le_mono)
  from EVP_EncodeUpdate_spec [OF assms(1) this] show "ec_ok (fst (encode_step s inp))"
    and "ec_pending (fst (encode_step s inp)) = tail_of 48 (ec_pending (fst s) @ inp)"
    and "snd (encode_step s inp) = snd s @ concat (map encode_line (blocks 48 (ec_pending (fst s) @ inp)))"
    by (auto simp: encode_step_def simp del: concat_eq_Nil_conv split: if_splits)
qed

lemma foldl_append_concat: "foldl (\<lambda>out b. out @ f b) xs bs = xs @ concat (map f bs)"
  by (induction bs arbitrary: xs) simp_all

interpretation enc: block_stream 48 "\<lambda>s. ec_ok (fst s)" "\<lambda>s. ec_pending (fst s)" snd
  "\<lambda>out b. out @ encode_line b" "\<lambda>xs. length xs \<le> ENCODE_CHUNK_MAX" encode_step
  by unfold_locales (simp_all add: encode_step_spec foldl_append_concat)

text \<open>The text of a whole message: lines of 48 input bytes, the last one shorter.\<close>

definition encode_pem :: "u8 list \<Rightarrow> u8 list" where
  "encode_pem xs = concat (map encode_line (blocks 48 xs)) @
    (if tail_of 48 xs = [] then [] else encode_line (tail_of 48 xs))"

definition encode_message :: "u8 list list \<Rightarrow> u8 list" where
  "encode_message cs =
    (case foldl encode_step (EVP_EncodeInit, []) cs of
       (ctx, out) \<Rightarrow> (case EVP_EncodeFinal ctx of (buf, n, _) \<Rightarrow> out @ take n buf))"

lemma encode_message_pem:
  assumes "list_all (\<lambda>c. length c \<le> ENCODE_CHUNK_MAX) cs"
  shows "encode_message cs = encode_pem (concat cs)"
proof -
  obtain ctx out where f: "foldl encode_step (EVP_EncodeInit, []) cs = (ctx, out)" by force
  have i: "ec_ok (fst (EVP_EncodeInit, [] :: u8 list))" "ec_pending EVP_EncodeInit = []"
    by (simp_all add: ec_ok_def EVP_EncodeInit_def ec_pending_def)
  note r = enc.run [OF i(1) assms, unfolded f]
  have p: "ec_pending ctx = tail_of 48 (concat cs)" and o: "out = concat (map encode_line (blocks 48 (concat cs)))"
    and ok: "ec_ok ctx" using r i(2) by (simp_all add: foldl_append_concat)
  have "ec_data_used ctx = 0 \<longleftrightarrow> ec_pending ctx = []" using ok by (auto simp: ec_ok_def ec_pending_def)
  then show ?thesis
    by (auto simp: encode_message_def f encode_pem_def o p [symmetric] EVP_EncodeFinal_def Let_def ec_pending_def)
qed

section \<open>The decoder\<close>

text \<open>Blanks are skipped wherever they are.\<close>

lemma decode_loop_filter: "decode_loop ctx inp = decode_loop ctx (filter (\<lambda>c. \<not> is_blank c) inp)"
  by (induction ctx inp rule: decode_loop.induct) (simp_all add: Let_def cong: option.case_cong)

lemma decode_loop_append:
  "decode_loop ctx (xs @ ys) =
    (case decode_loop ctx xs of
       (False, out, ctx1) \<Rightarrow> (False, out, ctx1)
     | (True, out, ctx1) \<Rightarrow> (case decode_loop ctx1 ys of (ok, out2, ctx2) \<Rightarrow> (ok, out @ out2, ctx2)))"
proof (induction xs arbitrary: ctx)
  case (Cons c xs)
  let ?ctx = "ctx\<lparr>ec_data := (ec_data ctx)[ec_data_used ctx := c], ec_data_used := ec_data_used ctx + 1\<rparr>"
  consider "is_blank c \<or> ec_eof_seen ctx \<or> ec_data_used ctx \<noteq> 3" | "\<not> is_blank c" "\<not> ec_eof_seen ctx" "ec_data_used ctx = 3"
    by blast
  then show ?case
  proof cases
    case 1
    then show ?thesis by (auto simp: Cons Let_def)
  next
    case 2
    then show ?thesis
      by (cases "base64_decode_quad ((ec_data ctx)[3 := c])") (simp_all add: Cons split: prod.splits bool.splits)
  qed
qed (simp split: prod.splits)

lemma decode_quad_take:
  assumes "4 \<le> length xs"
  shows "base64_decode_quad xs = base64_decode_quad (take 4 xs)"
proof -
  from assms obtain a b c d ys where "xs = a # b # c # d # ys"
    by (cases xs rule: base64_decode_quad.cases) auto
  then show ?thesis by simp
qed

text \<open>Four characters that are not blanks, from an empty buffer.\<close>

lemma decode_loop_quad:
  assumes "ec_data_used ctx = 0" and "4 \<le> length (ec_data ctx)" and "\<not> ec_eof_seen ctx"
    and "list_all (\<lambda>c. \<not> is_blank c) [a, b, c, d]"
  defines "ctx1 \<equiv> ctx\<lparr>ec_data := [a, b, c, d] @ drop 4 (ec_data ctx)\<rparr>"
  shows "decode_loop ctx (a # b # c # d # inp) =
    (case base64_decode_quad [a, b, c, d] of
       None \<Rightarrow> (False, [], ctx1\<lparr>ec_data_used := 4, ec_error_encountered := True\<rparr>)
     | Some bs \<Rightarrow>
        (case decode_loop (ctx1\<lparr>ec_eof_seen := length bs < 3\<rparr>) inp of
           (ok, out, ctx2) \<Rightarrow> (ok, bs @ out, ctx2)))"
proof -
  from assms(2) obtain w x y z ds where "ec_data ctx = w # x # y # z # ds"
    by (cases "ec_data ctx" rule: base64_decode_quad.cases) auto
  with assms(1,3) obtain e where ctx: "ctx = \<lparr>ec_data_used = 0, ec_data = w # x # y # z # ds, ec_eof_seen = False,
      ec_error_encountered = e\<rparr>" by (cases ctx) auto
  have q: "base64_decode_quad (a # b # c # d # ds) = base64_decode_quad [a, b, c, d]" by simp
  show ?thesis using assms(4)
    by (cases "base64_decode_quad [a, b, c, d]")
      (simp_all add: ctx1_def ctx Let_def eval_nat_numeral q del: base64_decode_quad.simps)
qed

text \<open>On whole quads the streaming decoder and the block decoder agree.\<close>

lemma decode_loop_quads:
  assumes "ec_data_used ctx = 0" and "length (ec_data ctx) = 48" and "\<not> ec_eof_seen ctx"
    and "list_all (\<lambda>c. \<not> is_blank c) inp" and "length inp mod 4 = 0"
  shows "case decode_loop ctx inp of (ok, out, ctx') \<Rightarrow>
    (ok \<longleftrightarrow> decode_quads inp \<noteq> None) \<and>
    (ok \<longrightarrow> decode_quads inp = Some out \<and> ec_data_used ctx' = 0 \<and> ec_error_encountered ctx' = ec_error_encountered ctx)"
  using assms
proof (induction inp arbitrary: ctx rule: decode_quads.induct)
  case (1 a b c d inp)
  have q: "list_all (\<lambda>c. \<not> is_blank c) [a, b, c, d]" and rest: "list_all (\<lambda>c. \<not> is_blank c) inp" "length inp mod 4 = 0"
    using "1.prems" by simp_all
  note step = decode_loop_quad [OF "1.prems"(1) _ "1.prems"(3) q, of inp, unfolded "1.prems"(2)]
  show ?case
  proof (cases "base64_decode_quad [a, b, c, d]")
    case None
    with step show ?thesis by simp
  next
    case (Some bs)
    let ?ctx = "ctx\<lparr>ec_data := [a, b, c, d] @ drop 4 (ec_data ctx), ec_eof_seen := length bs < 3\<rparr>"
    obtain ok out ctx' where r: "decode_loop ?ctx inp = (ok, out, ctx')" by (cases "decode_loop ?ctx inp") auto
    have l: "decode_loop ctx (a # b # c # d # inp) = (ok, bs @ out, ctx')" using step Some r by simp
    have b3: "length bs < 3 \<longleftrightarrow> length bs \<noteq> 3"
      using Some by (auto simp: Let_def split: if_splits)
    show ?thesis
    proof (cases "length bs = 3")
      case True
      then have "case decode_loop ?ctx inp of (ok, out, ctx') \<Rightarrow>
        (ok \<longleftrightarrow> decode_quads inp \<noteq> None) \<and>
        (ok \<longrightarrow> decode_quads inp = Some out \<and> ec_data_used ctx' = 0 \<and> ec_error_encountered ctx' = ec_error_encountered ?ctx)"
        using "1.prems" rest by (intro "1.IH" [OF Some]) simp_all
      then show ?thesis using l r Some True by (auto simp del: base64_decode_quad.simps)
    next
      case False
      then have e: "ec_eof_seen ?ctx" using b3 by simp
      show ?thesis
      proof (cases inp)
        case Nil
        with l r Some "1.prems"(1) show ?thesis by (auto simp del: base64_decode_quad.simps)
      next
        case (Cons x xs)
        then have "\<not> ok" using r e rest(1) by auto
        with l Some False Cons show ?thesis by (simp del: base64_decode_quad.simps)
      qed
    qed
  qed
qed simp_all

text \<open>An update on text whose characters other than blanks make whole quads.\<close>

definition dc_start :: "EVP_ENCODE_CTX \<Rightarrow> bool" where
  "dc_start ctx \<longleftrightarrow> ec_data_used ctx = 0 \<and> length (ec_data ctx) = 48 \<and> \<not> ec_eof_seen ctx \<and> \<not> ec_error_encountered ctx"

lemma dc_start_init: "dc_start EVP_DecodeInit"
  by (simp add: dc_start_def EVP_DecodeInit_def)

lemma EVP_DecodeUpdate_quads:
  assumes "dc_start ctx" and "length (filter (\<lambda>c. \<not> is_blank c) inp) mod 4 = 0"
    and "decode_quads (filter (\<lambda>c. \<not> is_blank c) inp) = Some out" and "length out \<le> INT_MAX"
  shows "\<exists>r ctx'. EVP_DecodeUpdate ctx inp = (r, out, length out, ctx') \<and> 0 \<le> r \<and> EVP_DecodeFinal ctx' = 1"
proof -
  let ?f = "filter (\<lambda>c. \<not> is_blank c) inp"
  have "list_all (\<lambda>c. \<not> is_blank c) ?f" by (simp add: list_all_iff)
  with decode_loop_quads [OF _ _ _ this assms(2), of ctx] assms(1,3) obtain ctx' where
    l: "decode_loop ctx ?f = (True, out, ctx')" and c: "ec_data_used ctx' = 0" "\<not> ec_error_encountered ctx'"
    by (auto simp: dc_start_def split: prod.splits)
  have "decode_loop ctx inp = (True, out, ctx')" using l decode_loop_filter [of ctx inp] by simp
  with c assms(1,4) show ?thesis by (auto simp: EVP_DecodeUpdate_def EVP_DecodeFinal_def dc_start_def)
qed

lemma EVP_DecodeUpdate_rejects:
  assumes "dc_start ctx" and "length (filter (\<lambda>c. \<not> is_blank c) inp) mod 4 = 0"
    and "decode_quads (filter (\<lambda>c. \<not> is_blank c) inp) = None"
  shows "fst (EVP_DecodeUpdate ctx inp) = -1"
proof -
  let ?f = "filter (\<lambda>c. \<not> is_blank c) inp"
  have "list_all (\<lambda>c. \<not> is_blank c) ?f" by (simp add: list_all_iff)
  with decode_loop_quads [OF _ _ _ this assms(2), of ctx] assms(1,3) have "\<not> fst (decode_loop ctx ?f)"
    by (auto simp: dc_start_def split: prod.splits)
  then show ?thesis using decode_loop_filter [of ctx inp] assms(1)
    by (auto simp: EVP_DecodeUpdate_def dc_start_def split: prod.splits bool.splits)
qed

section \<open>Encoder and decoder\<close>

lemma encode_loop_not_blank: "filter (\<lambda>c. \<not> is_blank c) (encode_loop xs) = encode_loop xs"
proof -
  have "\<not> is_blank 61" by (simp add: is_blank_def)
  then show ?thesis by (induction xs rule: encode_loop.induct) (simp_all add: Let_def)
qed

lemma encode_loop_append: "length xs mod 3 = 0 \<Longrightarrow> encode_loop (xs @ ys) = encode_loop xs @ encode_loop ys"
  by (induction xs rule: encode_loop.induct) (simp_all add: Let_def)

lemma encode_pem_chars: "filter (\<lambda>c. \<not> is_blank c) (encode_pem xs) = encode_loop xs"
proof -
  have nl: "is_blank 10" by (simp add: is_blank_def)
  have "filter (\<lambda>c. \<not> is_blank c) (concat (map encode_line bs)) @ encode_loop ys = encode_loop (concat bs @ ys)"
    if "\<forall>b \<in> set bs. length b = 48" for bs ys
    using that
  proof (induction bs)
    case (Cons b bs)
    then have "encode_loop (b @ concat bs @ ys) = encode_loop b @ encode_loop (concat bs @ ys)"
      by (intro encode_loop_append) simp
    with Cons nl show ?case by (simp add: encode_line_eq encode_loop_not_blank)
  qed simp
  from this [of "blocks 48 xs" "tail_of 48 xs"] concat_blocks [of 48 xs] blocks_length [of _ 48 xs] nl
  show ?thesis by (auto simp: encode_pem_def encode_line_eq encode_loop_not_blank)
qed

lemma decode_encode_pem:
  assumes "length xs \<le> INT_MAX"
  shows "\<exists>r ctx'. EVP_DecodeUpdate EVP_DecodeInit (encode_pem xs) = (r, xs, length xs, ctx') \<and> 0 \<le> r \<and> EVP_DecodeFinal ctx' = 1"
  by (rule EVP_DecodeUpdate_quads [OF dc_start_init])
    (simp_all add: encode_pem_chars length_encode_loop decode_quads_encode assms)

section \<open>Properties\<close>

text \<open>
  C17: however a message is cut into calls of \<open>EVP_EncodeUpdate\<close>, the text written is that of the whole
  message in lines of 48 bytes; \<open>EVP_DecodeUpdate\<close> reads the message back and \<open>EVP_DecodeFinal\<close> reports success.
\<close>

theorem pem_roundtrip:
  assumes "list_all (\<lambda>c. length c \<le> ENCODE_CHUNK_MAX) cs" and "length (concat cs) \<le> INT_MAX"
  shows "encode_message cs = encode_pem (concat cs) \<and>
    (\<exists>r ctx. EVP_DecodeUpdate EVP_DecodeInit (encode_message cs) = (r, concat cs, length (concat cs), ctx) \<and>
      0 \<le> r \<and> EVP_DecodeFinal ctx = 1)"
  using encode_message_pem [OF assms(1)] decode_encode_pem [OF assms(2)] by simp

theorem pem_roundtrip_witness:
  "encode_message [[77], [97]] = [84, 87, 69, 61, 10] \<and> fst (snd (EVP_DecodeUpdate EVP_DecodeInit [84, 87, 69, 61, 10])) = [77, 97]"
proof -
  have "encode_pem [77, 97] = [84, 87, 69, 61, 10]" by code_simp
  with pem_roundtrip [of "[[77], [97]]"] show ?thesis by (auto simp: ENCODE_CHUNK_MAX_def INT_MAX_def)
qed

lemma decode_loop_error: "decode_loop ctx inp = (False, out, ctx') \<Longrightarrow> ec_error_encountered ctx'"
  by (induction ctx inp arbitrary: out rule: decode_loop.induct) (auto simp: Let_def split: if_splits option.splits prod.splits)

lemma EVP_DecodeUpdate_error: "EVP_DecodeUpdate ctx inp = (-1, out, n, ctx') \<Longrightarrow> ec_error_encountered ctx'"
  using decode_loop_error [of ctx inp]
  by (auto simp: EVP_DecodeUpdate_def split: if_splits prod.splits bool.splits)



end
