(* ===== verification/Digest.thy ===== *)
theory Digest imports Streams begin

text \<open>
  The collector shared by the 32-bit message digests, crypto/fipsmodule/digest/md32_common.h. The
  header is a template: its parameters are the block function and the byte order, here the arguments
  \<open>blk\<close> and \<open>big\<close>. The locale \<open>md32\<close> states what the collector relies on of a block function and proves
  once that updates and the final padding compute the Merkle-Damgard iteration over the padded message,
  however the message is cut.
\<close>

section \<open>The code\<close>

definition HASH_CBLOCK :: nat where
  "HASH_CBLOCK = 64"

record HASH_CTX =
  hc_h :: "u32 list"
  hc_Nl :: u32
  hc_Nh :: u32
  hc_data :: "u8 list"
  hc_num :: nat

fun HOST_c2l :: "bool \<Rightarrow> u8 list \<Rightarrow> u32" where
  "HOST_c2l big (a # b # c # d # _) =
    (if big then push_bit 24 (ucast a) OR push_bit 16 (ucast b) OR push_bit 8 (ucast c) OR ucast d
     else ucast a OR push_bit 8 (ucast b) OR push_bit 16 (ucast c) OR push_bit 24 (ucast d))"
| "HOST_c2l big _ = 0"

definition HOST_l2c :: "bool \<Rightarrow> u32 \<Rightarrow> u8 list" where
  "HOST_l2c big l =
    (if big then [ucast (drop_bit 24 l AND 0xff), ucast (drop_bit 16 l AND 0xff), ucast (drop_bit 8 l AND 0xff), ucast (l AND 0xff)]
     else [ucast (l AND 0xff), ucast (drop_bit 8 l AND 0xff), ucast (drop_bit 16 l AND 0xff), ucast (drop_bit 24 l AND 0xff)])"

text \<open>The left rotation every digest file defines for itself.\<close>

definition ROTATE :: "u32 \<Rightarrow> nat \<Rightarrow> u32" where
  "ROTATE a n = push_bit n a OR drop_bit (32 - n) a"

type_synonym block_fun = "u32 list \<Rightarrow> u8 list \<Rightarrow> nat \<Rightarrow> u32 list"

text \<open>The parts of \<open>HASH_UPDATE\<close>: the bit counter, and the blocks once nothing is pending.\<close>

definition hash_count :: "'a HASH_CTX_scheme \<Rightarrow> nat \<Rightarrow> 'a HASH_CTX_scheme" where
  "hash_count c len =
    (let l = hc_Nl c + push_bit 3 (word_of_nat len);
         c1 = (if l < hc_Nl c then c\<lparr>hc_Nh := hc_Nh c + 1\<rparr> else c)
     in c1\<lparr>hc_Nh := hc_Nh c1 + word_of_nat (len div 2 ^ 29), hc_Nl := l\<rparr>)"

definition hash_rest :: "block_fun \<Rightarrow> 'a HASH_CTX_scheme \<Rightarrow> u8 list \<Rightarrow> 'a HASH_CTX_scheme" where
  "hash_rest blk c data =
    (let k = length data div HASH_CBLOCK;
         c' = (if 0 < k then c\<lparr>hc_h := blk (hc_h c) data k\<rparr> else c);
         data' = drop (k * HASH_CBLOCK) data
     in if length data' \<noteq> 0
        then c'\<lparr>hc_num := length data', hc_data := store_at 0 data' (hc_data c')\<rparr> else c')"

definition HASH_UPDATE :: "block_fun \<Rightarrow> 'a HASH_CTX_scheme \<Rightarrow> u8 list \<Rightarrow> 'a HASH_CTX_scheme" where
  "HASH_UPDATE blk c0 data =
    (if length data = 0 then c0
     else let c = hash_count c0 (length data); n = hc_num c
     in if n \<noteq> 0
        then if length data \<ge> HASH_CBLOCK \<or> size_add (length data) n \<ge> HASH_CBLOCK
             then let full = store_at n (take (HASH_CBLOCK - n) data) (hc_data c)
                  in hash_rest blk (c\<lparr>hc_h := blk (hc_h c) full 1, hc_num := 0, hc_data := replicate HASH_CBLOCK 0\<rparr>)
                       (drop (HASH_CBLOCK - n) data)
             else c\<lparr>hc_data := store_at n data (hc_data c), hc_num := n + length data\<rparr>
        else hash_rest blk c data)"

definition HASH_TRANSFORM :: "block_fun \<Rightarrow> 'a HASH_CTX_scheme \<Rightarrow> u8 list \<Rightarrow> 'a HASH_CTX_scheme" where
  "HASH_TRANSFORM blk c data = c\<lparr>hc_h := blk (hc_h c) data 1\<rparr>"

text \<open>The 64-bit length \<open>HASH_FINAL\<close> appends.\<close>

definition hash_lens :: "bool \<Rightarrow> 'a HASH_CTX_scheme \<Rightarrow> u8 list" where
  "hash_lens big c =
    (if big then HOST_l2c big (hc_Nh c) @ HOST_l2c big (hc_Nl c)
     else HOST_l2c big (hc_Nl c) @ HOST_l2c big (hc_Nh c))"

text \<open>\<open>HASH_FINAL\<close> up to \<open>HASH_MAKE_STRING\<close>: the context whose \<open>h\<close> is then written out.\<close>

definition HASH_FINAL :: "block_fun \<Rightarrow> bool \<Rightarrow> 'a HASH_CTX_scheme \<Rightarrow> 'a HASH_CTX_scheme" where
  "HASH_FINAL blk big c0 =
    (let c1 = c0\<lparr>hc_data := (hc_data c0)[hc_num c0 := 0x80]\<rparr>;
         n1 = hc_num c0 + 1;
         (c2, n2) =
           (if n1 > HASH_CBLOCK - 8
            then let full = store_at n1 (replicate (HASH_CBLOCK - n1) 0) (hc_data c1)
                 in (c1\<lparr>hc_data := full, hc_h := blk (hc_h c1) full 1\<rparr>, 0)
            else (c1, n1));
         d = store_at (HASH_CBLOCK - 8) (hash_lens big c2) (store_at n2 (replicate (HASH_CBLOCK - 8 - n2) 0) (hc_data c2))
     in c2\<lparr>hc_h := blk (hc_h c2) d 1, hc_num := 0, hc_data := replicate HASH_CBLOCK 0\<rparr>)"

section \<open>Words and bytes\<close>

lemma and_ff_ucast: "(ucast (l AND 0xff) :: u8) = ucast (l :: u32)"
proof -
  have e: "(0xff :: u32) = mask 8" by (simp add: mask_eq_exp_minus_1)
  show ?thesis unfolding e by (rule bit_word_eqI) (simp add: bit_simps)
qed

lemma length_HOST_l2c [simp]: "length (HOST_l2c big l) = 4"
  by (simp add: HOST_l2c_def)

text \<open>The two orders are those of \<open>be_bytes\<close> and \<open>be_val\<close>, forwards and backwards.\<close>

lemma HOST_l2c_bytes: "HOST_l2c True l = be_bytes 4 (unat l)" "HOST_l2c False l = rev (be_bytes 4 (unat l))"
proof -
  have "unat (ucast (drop_bit k l) :: u8) = unat l div 2 ^ k mod 256" for k
    by (simp only: unsigned_ucast_eq unat_drop_bit take_bit_eq_mod) simp
  then have "(ucast (drop_bit k l) :: u8) = word_of_nat (unat l div 2 ^ k)" for k
    by (simp add: word_unat_eq_iff unat_of_nat)
  note u = this [of 24] this [of 16] this [of 8] this [of 0]
  have four: "(4 :: nat) = Suc (Suc (Suc (Suc 0)))" by simp
  have "be_bytes 4 n = [word_of_nat (n div 2 ^ 24), word_of_nat (n div 2 ^ 16), word_of_nat (n div 2 ^ 8), word_of_nat n]" for n
    unfolding four by (simp only: be_bytes_Cons be_bytes.simps(1)) simp
  with u show "HOST_l2c True l = be_bytes 4 (unat l)" "HOST_l2c False l = rev (be_bytes 4 (unat l))"
    by (simp_all add: HOST_l2c_def and_ff_ucast)
qed

lemma HOST_c2l_val:
  "HOST_c2l True (a # b # c # d # rest) = word_of_nat (be_val [a, b, c, d])"
  "HOST_c2l False (a # b # c # d # rest) = word_of_nat (be_val [d, c, b, a])"
  using foldl_shl8 [of "0 :: u32" "[a, b, c, d]"] foldl_shl8 [of "0 :: u32" "[d, c, b, a]"]
  by (simp_all add: push_bit_or or.assoc or.commute or.left_commute)

section \<open>The bit counter\<close>

lemma unat_u32_bound: "unat (w :: u32) < 2 ^ 32"
  using unsigned_less [of w] by simp

definition bit_count :: "'a HASH_CTX_scheme \<Rightarrow> nat" where
  "bit_count c = unat (hc_Nh c) * 2 ^ 32 + unat (hc_Nl c)"

lemma carry_add:
  fixes nl nh :: "'a::len word" and len :: nat
  assumes w: "LENGTH('a) = 3 + k"
  defines "l \<equiv> nl + push_bit 3 (word_of_nat len)"
  defines "B \<equiv> (2 :: nat) ^ LENGTH('a)"
  shows "unat ((if l < nl then nh + 1 else nh) + word_of_nat (len div 2 ^ k)) * B + unat l =
    (unat nh * B + unat nl + 8 * len) mod (B * B)"
proof -
  have p: "unat (push_bit 3 (word_of_nat len) :: 'a word) = 8 * len mod B"
  proof -
    have "(push_bit 3 (word_of_nat len) :: 'a word) = word_of_nat (8 * len)"
      by (simp add: push_bit_eq_mult mult.commute)
    then show ?thesis by (simp only: unat_of_nat B_def)
  qed
  let ?m = "8 * len mod B" and ?k = "len div 2 ^ k"
  have k: "8 * len = ?k * B + ?m"
  proof -
    have B: "B = 8 * 2 ^ k" by (simp add: B_def w power_add)
    have "8 * len div B = ?k" unfolding B by simp
    then show ?thesis using div_mult_mod_eq [of "8 * len" B] by simp
  qed
  have l: "unat l = (unat nl + ?m) mod B" unfolding l_def by (simp add: unat_word_ariths p B_def)
  have nl: "unat nl < B" unfolding B_def by (rule unsigned_less)
  have m: "?m < B" by (simp add: B_def)
  let ?c = "if B \<le> unat nl + ?m then 1 else 0 :: nat"
  have lc: "unat nl + ?m = ?c * B + unat l" unfolding l by (rule add_carry(1) [OF nl m])
  have c: "l < nl \<longleftrightarrow> B \<le> unat nl + ?m" unfolding word_less_nat_alt l by (rule add_carry(2) [OF nl m])
  have h: "unat ((if l < nl then nh + 1 else nh) + word_of_nat ?k) = (unat nh + ?c + ?k) mod B"
    unfolding c by (simp add: unat_word_ariths unat_of_nat mod_simps B_def)
  have e: "unat nh * B + unat nl + 8 * len = (unat nh + ?c + ?k) * B + unat l"
    using k lc by (simp add: algebra_simps)
  have r: "(x * B + unat l) mod (B * B) = (x mod B) * B + unat l" for x :: nat
  proof -
    have "unat l < B" unfolding B_def by (rule unsigned_less)
    then show ?thesis using mod_mult2_eq [of "x * B + unat l" B B] by simp
  qed
  show ?thesis unfolding h e r ..
qed

section \<open>Updates and padding\<close>

text \<open>
  A context in use: the first \<open>num\<close> bytes of \<open>data\<close> are pending.
\<close>

definition hc_ok :: "'a HASH_CTX_scheme \<Rightarrow> bool" where
  "hc_ok c \<longleftrightarrow> length (hc_data c) = 64 \<and> hc_num c < 64"

definition hc_pending :: "'a HASH_CTX_scheme \<Rightarrow> u8 list" where
  "hc_pending c = take (hc_num c) (hc_data c)"

lemma length_hc_pending: "hc_ok c \<Longrightarrow> length (hc_pending c) = hc_num c"
  by (simp add: hc_ok_def hc_pending_def)

text \<open>The last bytes of the padded message, from the pending ones: FIPS 180-4, section 5.1.1.\<close>

definition md_pad :: "bool \<Rightarrow> u8 list \<Rightarrow> nat \<Rightarrow> u8 list" where
  "md_pad big p bits =
    p @ 0x80 # replicate ((119 - length p) mod 64) 0 @
    (if big then be_bytes 8 bits else rev (be_bytes 8 bits))"

lemma store_at_append: "length q = n \<Longrightarrow> length r = length xs \<Longrightarrow> store_at n xs (q @ r) = q @ xs"
  by (simp add: store_at_def)

lemma be_bytes_split:
  "b < 256 ^ k \<Longrightarrow> be_bytes (m + k) (a * 256 ^ k + b) = be_bytes m a @ be_bytes k b"
proof (induction k arbitrary: b)
  case (Suc k)
  have "(a * 256 ^ Suc k + b) div 256 = a * 256 ^ k + b div 256" by simp
  moreover have "b div 256 < 256 ^ k" using Suc.prems by (simp add: less_mult_imp_div_less mult.commute)
  moreover have "(word_of_nat (a * 256 ^ Suc k + b) :: u8) = word_of_nat b"
  proof -
    have "(256 :: u8) = 0" by simp
    then show ?thesis by (simp only: of_nat_add of_nat_mult of_nat_power of_nat_numeral power_Suc mult_zero_left mult_zero_right add_0)
  qed
  ultimately show ?case using Suc.IH by simp
qed simp

lemma hash_length_bytes:
  "hash_lens big c =
    (if big then be_bytes 8 (bit_count c) else rev (be_bytes 8 (bit_count c)))"
proof -
  have "unat (hc_Nl c) < 256 ^ 4" using unsigned_less [of "hc_Nl c"] by simp
  from be_bytes_split [OF this, of 4 "unat (hc_Nh c)"]
  have "be_bytes 8 (bit_count c) = be_bytes 4 (unat (hc_Nh c)) @ be_bytes 4 (unat (hc_Nl c))"
    by (simp add: bit_count_def)
  then show ?thesis by (simp add: hash_lens_def HOST_l2c_bytes)
qed

lemma hash_lens_update [simp]:
  "hash_lens big (c\<lparr>hc_data := d\<rparr>) = hash_lens big c" "hash_lens big (c\<lparr>hc_h := h\<rparr>) = hash_lens big c"
  by (simp_all add: hash_lens_def)

locale md32 =
  fixes blk :: block_fun and big :: bool
  assumes blk_1: "blk h d 1 = blk h (take 64 d) 1"
    and blk_Suc: "blk h d (Suc (Suc k)) = blk (blk h (take 64 d) 1) (drop 64 d) (Suc k)"
begin

lemma blk_blocks:
  "64 \<le> length d \<Longrightarrow> blk h d (length d div 64) = foldl (\<lambda>h b. blk h b 1) h (blocks 64 d)"
proof (induction "length d" arbitrary: h d rule: less_induct)
  case less
  then have d: "length d div 64 = Suc (length (drop 64 d) div 64)" by (simp add: div_if)
  have b: "blocks 64 d = take 64 d # blocks 64 (drop 64 d)" using less.prems by (simp add: blocks_step)
  show ?case
  proof (cases "64 \<le> length (drop 64 d)")
    case True
    then have k: "length (drop 64 d) div 64 = Suc (length (drop 64 (drop 64 d)) div 64)" by (simp add: div_if)
    have "length (drop 64 d) < length d" using less.prems by simp
    from less.hyps [OF this True] show ?thesis unfolding d b k blk_Suc by (simp add: k)
  next
    case False
    then have "length (drop 64 d) div 64 = 0" "blocks 64 (drop 64 d) = []" by simp_all
    then show ?thesis unfolding d b using blk_1 [of h d] by simp
  qed
qed

text \<open>The second half of an update, on a context with nothing pending.\<close>

lemma hash_rest_spec:
  assumes "length (hc_data c) = 64" and "hc_num c = 0"
  shows "hc_ok (hash_rest blk c data)" and "hc_pending (hash_rest blk c data) = tail_of 64 data"
    and "hc_h (hash_rest blk c data) = foldl (\<lambda>h b. blk h b 1) (hc_h c) (blocks 64 data)"
    and "hc_Nl (hash_rest blk c data) = hc_Nl c" and "hc_Nh (hash_rest blk c data) = hc_Nh c"
proof -
  have t: "drop (length data div 64 * 64) data = tail_of 64 data" by (simp add: tail_of_def)
  have z: "length data \<le> length data div 64 * 64 \<longleftrightarrow> tail_of 64 data = []" by (simp add: tail_of_def)
  have lt: "length (tail_of 64 data) < 64" by (rule length_tail_of) simp
  have h: "(if 0 < length data div 64 then blk (hc_h c) data (length data div 64) else hc_h c) =
      foldl (\<lambda>h b. blk h b 1) (hc_h c) (blocks 64 data)"
    using blk_blocks [of data "hc_h c"] by (auto simp: div_eq_0_iff not_less)
  show "hc_ok (hash_rest blk c data)" and "hc_pending (hash_rest blk c data) = tail_of 64 data"
    and "hc_h (hash_rest blk c data) = foldl (\<lambda>h b. blk h b 1) (hc_h c) (blocks 64 data)"
    and "hc_Nl (hash_rest blk c data) = hc_Nl c" and "hc_Nh (hash_rest blk c data) = hc_Nh c"
    using assms lt h
    by (auto simp: hash_rest_def HASH_CBLOCK_def Let_def t z hc_ok_def hc_pending_def store_at_def)
qed

lemma HASH_UPDATE_spec:
  assumes "hc_ok c" and "length data < SIZE_BOUND"
  shows "hc_ok (HASH_UPDATE blk c data)"
    and "hc_pending (HASH_UPDATE blk c data) = tail_of 64 (hc_pending c @ data)"
    and "hc_h (HASH_UPDATE blk c data) = foldl (\<lambda>h b. blk h b 1) (hc_h c) (blocks 64 (hc_pending c @ data))"
    and "bit_count (HASH_UPDATE blk c data) = (bit_count c + 8 * length data) mod 2 ^ 64"
proof -
  let ?n = "hc_num c" and ?p = "hc_pending c" and ?len = "length data"
  define c2 where "c2 = hash_count c ?len"
  have c: "length (hc_data c) = 64" "?n < 64" and p: "length ?p = ?n"
    using assms(1) length_hc_pending [OF assms(1)] by (simp_all add: hc_ok_def)
  have c2: "hc_data c2 = hc_data c" "hc_num c2 = ?n" "hc_h c2 = hc_h c"
    "bit_count c2 = (bit_count c + 8 * ?len) mod 2 ^ 64"
    using carry_add [of 29 "hc_Nl c" ?len "hc_Nh c"] by (simp_all add: c2_def hash_count_def Let_def bit_count_def split: if_splits)
  define full where "full = store_at ?n (take (64 - ?n) data) (hc_data c)"
  have step: "HASH_UPDATE blk c data =
    (if data = [] then c
     else if ?n = 0 then hash_rest blk c2 data
     else if 64 \<le> ?n + ?len
     then hash_rest blk (c2\<lparr>hc_h := blk (hc_h c) full 1, hc_num := 0, hc_data := replicate 64 0\<rparr>) (drop (64 - ?n) data)
     else c2\<lparr>hc_data := store_at ?n data (hc_data c), hc_num := ?n + ?len\<rparr>)"
  proof -
    have "64 \<le> ?len \<or> 64 \<le> size_add ?len ?n \<longleftrightarrow> 64 \<le> ?n + ?len"
    proof (cases "64 \<le> ?len")
      case False
      then have "size_add ?len ?n = ?len + ?n" using c(2) by (intro size_add_id) (simp add: SIZE_BOUND_def)
      with False show ?thesis by (simp add: add.commute)
    qed simp
    then show ?thesis unfolding HASH_UPDATE_def Let_def HASH_CBLOCK_def c2_def [symmetric] c2(1-3) full_def by simp
  qed
  have "hc_ok (HASH_UPDATE blk c data) \<and> hc_pending (HASH_UPDATE blk c data) = tail_of 64 (?p @ data) \<and>
    hc_h (HASH_UPDATE blk c data) = foldl (\<lambda>h b. blk h b 1) (hc_h c) (blocks 64 (?p @ data)) \<and>
    bit_count (HASH_UPDATE blk c data) = (bit_count c + 8 * ?len) mod 2 ^ 64"
  proof -
    consider "data = []" | "data \<noteq> []" "?n = 0" | "data \<noteq> []" "?n \<noteq> 0" "64 \<le> ?n + ?len"
      | "data \<noteq> []" "?n \<noteq> 0" "?n + ?len < 64" by linarith
    then show ?thesis
    proof cases
      case 1
      have "bit_count c < 2 ^ 64" using unat_u32_bound [of "hc_Nh c"] unat_u32_bound [of "hc_Nl c"] by (simp add: bit_count_def)
      with 1 c p assms(1) show ?thesis by (simp add: HASH_UPDATE_def)
    next
      case 2
      then have "?p = []" using p by simp
      moreover have "length (hc_data c2) = 64" "hc_num c2 = 0" using 2 c2 c by simp_all
      note r = hash_rest_spec [OF this, of data]
      ultimately show ?thesis using 2 r c2 by (simp add: step bit_count_def)
    next
      case 3
      let ?c3 = "c2\<lparr>hc_h := blk (hc_h c) full 1, hc_num := 0, hc_data := replicate 64 0\<rparr>"
      have f: "full = ?p @ take (64 - ?n) data" "length full = 64"
        using 3 c by (simp_all add: full_def store_at_def hc_pending_def)
      have cut: "?p @ data = full @ drop (64 - ?n) data" by (simp add: f(1))
      have "length (hc_data ?c3) = 64" "hc_num ?c3 = 0" by simp_all
      note r = hash_rest_spec [OF this, of "drop (64 - ?n) data"]
      show ?thesis unfolding step cut blocks_Cons [OF _ f(2), simplified]
        using 3 r c2(4) by (simp add: bit_count_def)
    next
      case 4
      then show ?thesis using c p c2
        by (simp add: step hc_ok_def hc_pending_def bit_count_def)
    qed
  qed
  then show "hc_ok (HASH_UPDATE blk c data)"
    and "hc_pending (HASH_UPDATE blk c data) = tail_of 64 (hc_pending c @ data)"
    and "hc_h (HASH_UPDATE blk c data) = foldl (\<lambda>h b. blk h b 1) (hc_h c) (blocks 64 (hc_pending c @ data))"
    and "bit_count (HASH_UPDATE blk c data) = (bit_count c + 8 * length data) mod 2 ^ 64" by auto
qed

lemma HASH_FINAL_spec:
  assumes "hc_ok c"
  shows "hc_h (HASH_FINAL blk big c) =
    foldl (\<lambda>h b. blk h b 1) (hc_h c) (blocks 64 (md_pad big (hc_pending c) (bit_count c)))"
    and "hc_num (HASH_FINAL blk big c) = 0" and "hc_data (HASH_FINAL blk big c) = replicate 64 0"
proof -
  let ?n = "hc_num c" and ?p = "hc_pending c"
  let ?lens = "hash_lens big c"
  have c: "length (hc_data c) = 64" "?n < 64" and p: "length ?p = ?n"
    using assms length_hc_pending [OF assms] by (simp_all add: hc_ok_def)
  have l8: "length ?lens = 8" by (simp add: hash_lens_def)
  have d80: "take (Suc ?n) ((hc_data c)[?n := 0x80]) = ?p @ [0x80]"
    using c by (simp add: hc_pending_def take_Suc_conv_app_nth)
  show "hc_h (HASH_FINAL blk big c) =
    foldl (\<lambda>h b. blk h b 1) (hc_h c) (blocks 64 (md_pad big (hc_pending c) (bit_count c)))"
  proof (cases "56 < Suc ?n")
    case True
    let ?full = "store_at (Suc ?n) (replicate (64 - Suc ?n) 0) ((hc_data c)[?n := 0x80])"
    let ?d = "store_at 56 ?lens (store_at 0 (replicate 56 0) ?full)"
    have full: "?full = ?p @ 0x80 # replicate (63 - ?n) 0" using c d80 by (simp add: store_at_def)
    have d: "?d = replicate 56 0 @ ?lens" using c l8 by (simp add: store_at_def)
    have f: "length ?full = 64" "length ?d = 64" unfolding full d using c(2) p l8 by simp_all
    have "(119 - ?n) mod 64 = (63 - ?n) + 56" using True c(2) by simp
    then have r: "replicate ((119 - ?n) mod 64) (0 :: u8) = replicate (63 - ?n) 0 @ replicate 56 0"
      by (simp only: replicate_add)
    have pad: "md_pad big ?p (bit_count c) = ?full @ ?d"
      unfolding d unfolding full md_pad_def p hash_length_bytes r by simp
    have "hc_h (HASH_FINAL blk big c) = blk (blk (hc_h c) ?full 1) ?d 1"
      unfolding HASH_FINAL_def Let_def HASH_CBLOCK_def using True by simp
    then show ?thesis unfolding pad using blocks_Cons(1) [of 64 ?full ?d] blocks_Cons(1) [of 64 ?d "[]"] f by simp
  next
    case False
    let ?d = "store_at 56 ?lens (store_at (Suc ?n) (replicate (56 - Suc ?n) 0) ((hc_data c)[?n := 0x80]))"
    have d: "?d = ?p @ 0x80 # replicate (55 - ?n) 0 @ ?lens"
    proof -
      let ?q = "?p @ 0x80 # replicate (55 - ?n) 0"
      have q: "store_at (Suc ?n) (replicate (56 - Suc ?n) 0) ((hc_data c)[?n := 0x80]) = ?q @ drop 56 (hc_data c)"
        using c d80 False by (simp add: store_at_def)
      have "length ?q = 56" "length (drop 56 (hc_data c)) = 8" using False p c by simp_all
      then have "store_at 56 ?lens (?q @ drop 56 (hc_data c)) = ?q @ ?lens" using l8 by (intro store_at_append) simp_all
      then show ?thesis unfolding q by simp
    qed
    have f: "length ?d = 64" unfolding d using False p l8 by simp
    have "(119 - ?n) mod 64 = 55 - ?n" using False by (simp add: mod_if)
    then have pad: "md_pad big ?p (bit_count c) = ?d" unfolding d unfolding md_pad_def p hash_length_bytes by simp
    have "hc_h (HASH_FINAL blk big c) = blk (hc_h c) ?d 1"
      unfolding HASH_FINAL_def Let_def HASH_CBLOCK_def using False by simp
    then show ?thesis unfolding pad using blocks_Cons(1) [of 64 ?d "[]"] f by simp
  qed
  show "hc_num (HASH_FINAL blk big c) = 0" and "hc_data (HASH_FINAL blk big c) = replicate 64 0"
    by (simp_all add: HASH_FINAL_def Let_def HASH_CBLOCK_def split: prod.splits)
qed

end

sublocale md32 \<subseteq> stream: block_stream 64 hc_ok hc_pending hc_h "\<lambda>h b. blk h b 1" "\<lambda>xs. length xs < SIZE_BOUND" "HASH_UPDATE blk"
  by unfold_locales (simp_all add: HASH_UPDATE_spec)

section \<open>Whole messages\<close>

text \<open>The padded message: the bit length is taken modulo \<open>2 ^ 64\<close>, as FIPS 180-4 allows it to be below.\<close>

definition md_message :: "bool \<Rightarrow> u8 list \<Rightarrow> u8 list" where
  "md_message big m =
    m @ 0x80 # replicate ((119 - length m mod 64) mod 64) 0 @
    (if big then be_bytes 8 (8 * length m) else rev (be_bytes 8 (8 * length m)))"

lemma be_bytes_mod: "be_bytes k (v mod 256 ^ k) = be_bytes k v"
  by (rule be_val_inj) (simp_all add: be_val_be_bytes)

context md32
begin

lemma digest:
  fixes c :: "'a HASH_CTX_scheme"
  assumes "hc_ok c" and "hc_num c = 0" and "bit_count c = 0" and "list_all (\<lambda>xs. length xs < SIZE_BOUND) cs"
  shows "hc_h (HASH_FINAL blk big (foldl (HASH_UPDATE blk) c cs)) =
    foldl (\<lambda>h b. blk h b 1) (hc_h c) (blocks 64 (md_message big (concat cs)))"
proof -
  let ?c = "foldl (HASH_UPDATE blk) c cs" and ?m = "concat cs"
  have p0: "hc_pending c = []" using assms(2) by (simp add: hc_pending_def)
  have lt: "length (hc_pending c) < 64" using p0 by simp
  note r = stream.run [OF assms(1,4) lt, unfolded p0 append_Nil]
  have bits: "bit_count ?c = (8 * length ?m) mod 2 ^ 64"
  proof -
    have "hc_ok c' \<Longrightarrow> bit_count (foldl (HASH_UPDATE blk) c' cs) = (bit_count c' + 8 * length (concat cs)) mod 2 ^ 64"
      if "bit_count c' < 2 ^ 64" for c' :: "'a HASH_CTX_scheme"
      using assms(4) that
    proof (induction cs arbitrary: c')
      case (Cons x xs)
      note u = HASH_UPDATE_spec [OF Cons.prems(1), of x]
      have "length x < SIZE_BOUND" using Cons.prems by simp
      with u Cons.IH [of "HASH_UPDATE blk c' x"] Cons.prems show ?case by (simp add: mod_simps algebra_simps)
    qed simp
    from this [of c] assms show ?thesis by simp
  qed
  have tl: "length (tail_of 64 ?m) = length ?m mod 64" by (simp add: tail_of_def minus_div_mult_eq_mod)
  define suf where "suf = 0x80 # replicate ((119 - length ?m mod 64) mod 64) (0 :: u8) @
    (if big then be_bytes 8 (8 * length ?m) else rev (be_bytes 8 (8 * length ?m)))"
  have "be_bytes 8 (bit_count ?c) = be_bytes 8 (8 * length ?m)"
    using be_bytes_mod [of 8 "8 * length ?m"] bits by simp
  then have "md_pad big (tail_of 64 ?m) (bit_count ?c) = tail_of 64 ?m @ suf"
    unfolding md_pad_def suf_def tl by simp
  moreover have "md_message big ?m = ?m @ suf" unfolding md_message_def suf_def ..
  ultimately have "blocks 64 (md_message big ?m) = blocks 64 ?m @ blocks 64 (md_pad big (tail_of 64 ?m) (bit_count ?c))"
    using blocks_append(1) [of 64 ?m suf] by simp
  then show ?thesis using HASH_FINAL_spec(1) [OF r(1)] r by simp
qed

end

section \<open>Message words\<close>

text \<open>The sixteen big-endian words of a block.\<close>

definition fips_words :: "u8 list \<Rightarrow> u32 list" where
  "fips_words block = map (\<lambda>i. word_of_nat (be_val (take 4 (drop (4 * i) block)))) [0..<16]"

lemma fips_words_nth:
  assumes "length block = 64" and "i < 16"
  shows "HOST_c2l True (drop (4 * i) block) = fips_words block ! i"
proof -
  have "\<exists>a b c d rest. xs = a # b # c # d # rest" if "4 \<le> length xs" for xs :: "u8 list"
    using that by (auto simp: Suc_le_length_iff numeral_eq_Suc)
  moreover have "4 \<le> length (drop (4 * i) block)" using assms by simp
  ultimately obtain a b c d rest where "drop (4 * i) block = a # b # c # d # rest" by blast
  then show ?thesis using assms(2) by (simp add: fips_words_def HOST_c2l_val del: HOST_c2l.simps)
qed

lemma length_fips_words [simp]: "length (fips_words block) = 16"
  by (simp add: fips_words_def)

text \<open>After round \<open>t\<close> the window holds the last sixteen schedule words, at their index modulo 16.\<close>

definition window :: "'a list \<Rightarrow> nat \<Rightarrow> 'a list \<Rightarrow> bool" where
  "window W t X \<longleftrightarrow> length X = 16 \<and> (\<forall>j < t. t \<le> j + 16 \<longrightarrow> X ! (j mod 16) = W ! j)"

lemma window_step:
  assumes "window W t X" and "16 \<le> t"
  shows "window W (Suc t) (X[t mod 16 := W ! t])"
proof -
  have "X[t mod 16 := W ! t] ! (j mod 16) = W ! j" if "j < Suc t" "Suc t \<le> j + 16" for j
  proof (cases "j = t")
    case False
    have "j mod 16 \<noteq> t mod 16"
    proof
      assume "j mod 16 = t mod 16"
      then have "16 dvd t - j" using that mod_eq_dvd_iff_nat [of j t 16] by simp
      with False that show False by (auto dest: dvd_imp_le)
    qed
    with False that assms(1) show ?thesis by (simp add: window_def)
  qed (use assms(1) in \<open>simp add: window_def\<close>)
  with assms(1) show ?thesis by (simp add: window_def)
qed

text \<open>The sixteen little-endian words of a block.\<close>

definition le_words :: "u8 list \<Rightarrow> u32 list" where
  "le_words block = map (\<lambda>i. word_of_nat (le_val (take 4 (drop (4 * i) block)))) [0..<16]"

lemma length_le_words [simp]: "length (le_words block) = 16"
  by (simp add: le_words_def)

lemma le_words_nth:
  assumes "length block = 64" and "i < 16"
  shows "HOST_c2l False (drop (4 * i) block) = le_words block ! i"
proof -
  have "\<exists>a b c d rest. xs = a # b # c # d # rest" if "4 \<le> length xs" for xs :: "u8 list"
    using that by (auto simp: Suc_le_length_iff numeral_eq_Suc)
  moreover have "4 \<le> length (drop (4 * i) block)" using assms by simp
  ultimately obtain a b c d rest where "drop (4 * i) block = a # b # c # d # rest" by blast
  then show ?thesis using assms(2) by (simp add: le_words_def le_val_def HOST_c2l_val del: HOST_c2l.simps)
qed

section \<open>Four rotating registers\<close>

text \<open>MD4 and MD5 pass argument \<open>k\<close> of step \<open>i\<close> in register \<open>(k - i) mod 4\<close>.\<close>

definition reg4 :: "nat \<Rightarrow> nat \<Rightarrow> nat" where
  "reg4 i k = (k + 3 * i) mod 4"

definition view4 :: "nat \<Rightarrow> u32 list \<Rightarrow> u32 list" where
  "view4 i v = map (\<lambda>k. v ! reg4 i k) [0..<4]"

lemma reg4_mod: "reg4 i k = (k + 3 * (i mod 4)) mod 4"
  unfolding reg4_def by (metis mod_add_right_eq mod_mult_right_eq)

lemma reg4_Suc: "reg4 (Suc i) k = (k + 3 + 3 * (i mod 4)) mod 4"
proof -
  have "reg4 (Suc i) k = reg4 i (k + 3)" by (simp add: reg4_def add.assoc)
  then show ?thesis by (simp only: reg4_mod)
qed

lemma upt_4: "[0..<4] = [0, 1, 2, 3 :: nat]"
  by (simp add: upt_rec)

lemma list_4: "length v = 4 \<Longrightarrow> \<exists>a b c d. v = [a, b, c, d]"
  by (auto simp: numeral_eq_Suc length_Suc_conv)

lemma concat_map_4: "length h = 4 \<Longrightarrow> concat (map f h) = f (h ! 0) @ f (h ! 1) @ f (h ! 2) @ f (h ! 3)"
  by (auto simp: length_Suc_conv numeral_eq_Suc)

lemma concat_map_5: "length h = 5 \<Longrightarrow> concat (map f h) = f (h ! 0) @ f (h ! 1) @ f (h ! 2) @ f (h ! 3) @ f (h ! 4)"
  by (auto simp: length_Suc_conv numeral_eq_Suc)

lemma length_foldl_keep: "(\<And>h b. length h = n \<Longrightarrow> length (f h b) = n) \<Longrightarrow> length h = n \<Longrightarrow> length (foldl f h bs) = n"
  by (induction bs arbitrary: h) simp_all

end
