(* ===== verification/SHA256.thy ===== *)
theory SHA256 imports Digest begin

text \<open>
  SHA-224 and SHA-256, crypto/fipsmodule/sha/sha256.c, with the portable block function. The registers
  \<open>a\<close> to \<open>h\<close> are a list of eight; the unrolled calls pass them rotated by one more place each round, so
  round \<open>i\<close> sees argument \<open>k\<close> in register \<open>(k - i) mod 8\<close>. The lemmas show that the block function with
  its 16-word window and rotated registers is the compression function of FIPS 180-4.
\<close>

section \<open>The code\<close>

record SHA256_CTX = HASH_CTX + sc_md_len :: nat

definition SHA224_DIGEST_LENGTH :: nat where
  "SHA224_DIGEST_LENGTH = 28"

definition SHA256_DIGEST_LENGTH :: nat where
  "SHA256_DIGEST_LENGTH = 32"

definition SHA224_Init :: SHA256_CTX where
  "SHA224_Init = \<lparr>hc_h = [0xc1059ed8, 0x367cd507, 0x3070dd17, 0xf70e5939, 0xffc00b31, 0x68581511, 0x64f98fa7, 0xbefa4fa4],
    hc_Nl = 0, hc_Nh = 0, hc_data = replicate 64 0, hc_num = 0, sc_md_len = SHA224_DIGEST_LENGTH\<rparr>"

definition SHA256_Init :: SHA256_CTX where
  "SHA256_Init = \<lparr>hc_h = [0x6a09e667, 0xbb67ae85, 0x3c6ef372, 0xa54ff53a, 0x510e527f, 0x9b05688c, 0x1f83d9ab, 0x5be0cd19],
    hc_Nl = 0, hc_Nh = 0, hc_data = replicate 64 0, hc_num = 0, sc_md_len = SHA256_DIGEST_LENGTH\<rparr>"

text \<open>The constants, in the rows of the source.\<close>

definition K256 :: "u32 list" where
  "K256 = concat [
    [0x428a2f98, 0x71374491, 0xb5c0fbcf, 0xe9b5dba5, 0x3956c25b],
    [0x59f111f1, 0x923f82a4, 0xab1c5ed5, 0xd807aa98, 0x12835b01],
    [0x243185be, 0x550c7dc3, 0x72be5d74, 0x80deb1fe, 0x9bdc06a7],
    [0xc19bf174, 0xe49b69c1, 0xefbe4786, 0x0fc19dc6, 0x240ca1cc],
    [0x2de92c6f, 0x4a7484aa, 0x5cb0a9dc, 0x76f988da, 0x983e5152],
    [0xa831c66d, 0xb00327c8, 0xbf597fc7, 0xc6e00bf3, 0xd5a79147],
    [0x06ca6351, 0x14292967, 0x27b70a85, 0x2e1b2138, 0x4d2c6dfc],
    [0x53380d13, 0x650a7354, 0x766a0abb, 0x81c2c92e, 0x92722c85],
    [0xa2bfe8a1, 0xa81a664b, 0xc24b8b70, 0xc76c51a3, 0xd192e819],
    [0xd6990624, 0xf40e3585, 0x106aa070, 0x19a4c116, 0x1e376c08],
    [0x2748774c, 0x34b0bcb5, 0x391c0cb3, 0x4ed8aa4a, 0x5b9cca4f],
    [0x682e6ff3, 0x748f82ee, 0x78a5636f, 0x84c87814, 0x8cc70208],
    [0x90befffa, 0xa4506ceb, 0xbef9a3f7, 0xc67178f2]]"

definition Sigma0 :: "u32 \<Rightarrow> u32" where
  "Sigma0 x = ROTATE x 30 XOR ROTATE x 19 XOR ROTATE x 10"

definition Sigma1 :: "u32 \<Rightarrow> u32" where
  "Sigma1 x = ROTATE x 26 XOR ROTATE x 21 XOR ROTATE x 7"

definition sigma0 :: "u32 \<Rightarrow> u32" where
  "sigma0 x = ROTATE x 25 XOR ROTATE x 14 XOR drop_bit 3 x"

definition sigma1 :: "u32 \<Rightarrow> u32" where
  "sigma1 x = ROTATE x 15 XOR ROTATE x 13 XOR drop_bit 10 x"

definition Ch :: "u32 \<Rightarrow> u32 \<Rightarrow> u32 \<Rightarrow> u32" where
  "Ch x y z = (x AND y) XOR (NOT x AND z)"

definition Maj :: "u32 \<Rightarrow> u32 \<Rightarrow> u32 \<Rightarrow> u32" where
  "Maj x y z = (x AND y) XOR (x AND z) XOR (y AND z)"

text \<open>The register that argument \<open>k\<close> of the call for round \<open>i\<close> names.\<close>

definition reg :: "nat \<Rightarrow> nat \<Rightarrow> nat" where
  "reg i k = (k + 7 * i) mod 8"

definition ROUND_00_15 :: "nat \<Rightarrow> u32 \<Rightarrow> u32 list \<Rightarrow> u32 list" where
  "ROUND_00_15 i T1 v =
    (let a = v ! reg i 0; b = v ! reg i 1; c = v ! reg i 2; d = v ! reg i 3;
         e = v ! reg i 4; f = v ! reg i 5; g = v ! reg i 6; h = v ! reg i 7;
         T1 = T1 + (h + Sigma1 e + Ch e f g + K256 ! i);
         h = Sigma0 a + Maj a b c;
         d = d + T1;
         h = h + T1
     in v[reg i 3 := d, reg i 7 := h])"

definition ROUND_16_63 :: "nat \<Rightarrow> u32 list \<times> u32 list \<Rightarrow> u32 list \<times> u32 list" where
  "ROUND_16_63 i s =
    (case s of (v, X) \<Rightarrow>
      (let s0 = sigma0 (X ! ((i + 1) mod 16));
           s1 = sigma1 (X ! ((i + 14) mod 16));
           T1 = X ! (i mod 16) + (s0 + s1 + X ! ((i + 9) mod 16))
       in (ROUND_00_15 i T1 v, X[i mod 16 := T1])))"

text \<open>Rounds 0 to 15 read a word of the block and keep it in \<open>X\<close>.\<close>

definition round_load :: "u8 list \<Rightarrow> nat \<Rightarrow> u32 list \<times> u32 list \<Rightarrow> u32 list \<times> u32 list" where
  "round_load data i s =
    (case s of (v, X) \<Rightarrow> (let l = HOST_c2l True (drop (4 * i) data) in (ROUND_00_15 i l v, X[i := l])))"

definition sha256_block :: "u32 list \<Rightarrow> u8 list \<Rightarrow> u32 list" where
  "sha256_block state data =
    (let (v, X) = fold (round_load data) [0..<16] (state, replicate 16 0);
         (v, X) = fold ROUND_16_63 [16..<64] (v, X)
     in map2 (+) state v)"

fun sha256_block_data_order :: "u32 list \<Rightarrow> u8 list \<Rightarrow> nat \<Rightarrow> u32 list" where
  "sha256_block_data_order state data 0 = state"
| "sha256_block_data_order state data (Suc num) =
    sha256_block_data_order (sha256_block state (take 64 data)) (drop 64 data) num"

definition SHA256_Update :: "SHA256_CTX \<Rightarrow> u8 list \<Rightarrow> SHA256_CTX" where
  "SHA256_Update c data = HASH_UPDATE sha256_block_data_order c data"

definition SHA256_Transform :: "SHA256_CTX \<Rightarrow> u8 list \<Rightarrow> SHA256_CTX" where
  "SHA256_Transform c data = HASH_TRANSFORM sha256_block_data_order c data"

text \<open>\<open>HASH_MAKE_STRING\<close>: the words of \<open>h\<close> the length asks for; \<open>None\<close> is the \<open>return 0\<close>.\<close>

definition sha256_make_string :: "SHA256_CTX \<Rightarrow> u8 list option" where
  "sha256_make_string c =
    (if sc_md_len c = SHA224_DIGEST_LENGTH then Some (concat (map (HOST_l2c True) (take (SHA224_DIGEST_LENGTH div 4) (hc_h c))))
     else if sc_md_len c = SHA256_DIGEST_LENGTH then Some (concat (map (HOST_l2c True) (take (SHA256_DIGEST_LENGTH div 4) (hc_h c))))
     else if sc_md_len c > SHA256_DIGEST_LENGTH then None
     else Some (concat (map (HOST_l2c True) (take (sc_md_len c div 4) (hc_h c)))))"

definition SHA256_Final :: "SHA256_CTX \<Rightarrow> u8 list option \<times> SHA256_CTX" where
  "SHA256_Final c = (let c' = HASH_FINAL sha256_block_data_order True c in (sha256_make_string c', c'))"

definition SHA224_Update :: "SHA256_CTX \<Rightarrow> u8 list \<Rightarrow> SHA256_CTX" where
  "SHA224_Update ctx data = SHA256_Update ctx data"

definition SHA224_Final :: "SHA256_CTX \<Rightarrow> u8 list option \<times> SHA256_CTX" where
  "SHA224_Final ctx = SHA256_Final ctx"

definition SHA224 :: "u8 list \<Rightarrow> u8 list option" where
  "SHA224 data = fst (SHA224_Final (SHA224_Update SHA224_Init data))"

definition SHA256 :: "u8 list \<Rightarrow> u8 list option" where
  "SHA256 data = fst (SHA256_Final (SHA256_Update SHA256_Init data))"

section \<open>FIPS 180-4\<close>

definition rotr :: "nat \<Rightarrow> u32 \<Rightarrow> u32" where
  "rotr n x = drop_bit n x OR push_bit (32 - n) x"

definition fips_Sigma0 :: "u32 \<Rightarrow> u32" where "fips_Sigma0 x = rotr 2 x XOR rotr 13 x XOR rotr 22 x"
definition fips_Sigma1 :: "u32 \<Rightarrow> u32" where "fips_Sigma1 x = rotr 6 x XOR rotr 11 x XOR rotr 25 x"
definition fips_sigma0 :: "u32 \<Rightarrow> u32" where "fips_sigma0 x = rotr 7 x XOR rotr 18 x XOR drop_bit 3 x"
definition fips_sigma1 :: "u32 \<Rightarrow> u32" where "fips_sigma1 x = rotr 17 x XOR rotr 19 x XOR drop_bit 10 x"

definition fips_schedule_step :: "u32 list \<Rightarrow> u32 list" where
  "fips_schedule_step W =
    (let t = length W
     in W @ [fips_sigma1 (W ! (t - 2)) + W ! (t - 7) + fips_sigma0 (W ! (t - 15)) + W ! (t - 16)])"

definition fips_schedule :: "u8 list \<Rightarrow> u32 list" where
  "fips_schedule block = (fips_schedule_step ^^ 48) (fips_words block)"

fun fips_round :: "u32 \<Rightarrow> u32 \<Rightarrow> u32 list \<Rightarrow> u32 list" where
  "fips_round K W [a, b, c, d, e, f, g, h] =
    (let T1 = h + fips_Sigma1 e + Ch e f g + K + W; T2 = fips_Sigma0 a + Maj a b c
     in [T1 + T2, a, b, c, d + T1, e, f, g])"
| "fips_round K W s = s"

definition fips_compress :: "u32 list \<Rightarrow> u8 list \<Rightarrow> u32 list" where
  "fips_compress H block =
    (let W = fips_schedule block
     in map2 (+) H (fold (\<lambda>t s. fips_round (K256 ! t) (W ! t) s) [0..<64] H))"

section \<open>The block function is the compression function\<close>

lemma ROTATE_rotr: "n \<le> 32 \<Longrightarrow> ROTATE x n = rotr (32 - n) x"
  by (simp add: ROTATE_def rotr_def or.commute)

lemma Sigma_fips: "Sigma0 x = fips_Sigma0 x" "Sigma1 x = fips_Sigma1 x" "sigma0 x = fips_sigma0 x" "sigma1 x = fips_sigma1 x"
  by (simp_all add: Sigma0_def Sigma1_def sigma0_def sigma1_def fips_Sigma0_def fips_Sigma1_def fips_sigma0_def
      fips_sigma1_def ROTATE_rotr)

text \<open>The registers as FIPS 180-4 names them before round \<open>i\<close>.\<close>

definition view :: "nat \<Rightarrow> 'a list \<Rightarrow> 'a list" where
  "view i v = map (\<lambda>k. v ! reg i k) [0..<8]"

lemma reg_mod: "reg i k = (k + 7 * (i mod 8)) mod 8"
  unfolding reg_def by (metis mod_add_right_eq mod_mult_right_eq)

lemma reg_Suc: "reg (Suc i) k = (k + 7 + 7 * (i mod 8)) mod 8"
proof -
  have "reg (Suc i) k = reg i (k + 7)" by (simp add: reg_def add.assoc)
  then show ?thesis by (simp only: reg_mod)
qed

lemma length_ROUND [simp]: "length (ROUND_00_15 i T1 v) = length v"
  by (simp add: ROUND_00_15_def Let_def)

lemma upt_8: "[0..<8] = [0, 1, 2, 3, 4, 5, 6, 7 :: nat]"
  by (simp add: upt_rec)

lemma list_8: "length v = 8 \<Longrightarrow> \<exists>a b c d e f g h. v = [a, b, c, d, e, f, g, h]"
  by (auto simp: numeral_eq_Suc length_Suc_conv)

lemma view_round:
  assumes "length v = 8"
  shows "view (Suc i) (ROUND_00_15 i T1 v) = fips_round (K256 ! i) T1 (view i v)"
proof -
  from list_8 [OF assms] obtain v0 v1 v2 v3 v4 v5 v6 v7 where v: "v = [v0, v1, v2, v3, v4, v5, v6, v7]" by blast
  have "i mod 8 \<in> {0, 1, 2, 3, 4, 5, 6, 7}" by auto
  then show ?thesis
    unfolding view_def upt_8 reg_Suc unfolding ROUND_00_15_def reg_mod v
    by (auto simp: Let_def Sigma_fips algebra_simps)
qed

text \<open>The schedule is a list that only grows.\<close>

lemma schedule_iter:
  assumes "length W0 = 16"
  defines "W n \<equiv> (fips_schedule_step ^^ n) W0"
  shows "length (W n) = 16 + n" and "t < 16 \<Longrightarrow> W n ! t = W0 ! t"
    and "16 \<le> t \<Longrightarrow> t < 16 + n \<Longrightarrow>
      W n ! t = fips_sigma1 (W n ! (t - 2)) + W n ! (t - 7) + fips_sigma0 (W n ! (t - 15)) + W n ! (t - 16)"
proof -
  have len: "length (W n) = 16 + n" for n
    by (induction n) (simp_all add: W_def assms(1) fips_schedule_step_def Let_def)
  have suc: "W (Suc n) ! k = W n ! k" if "k < 16 + n" for n k
    using that len [of n] by (simp add: W_def fips_schedule_step_def Let_def nth_append)
  show "length (W n) = 16 + n" by (rule len)
  show "t < 16 \<Longrightarrow> W n ! t = W0 ! t" by (induction n) (simp_all add: suc, simp add: W_def)
  show "16 \<le> t \<Longrightarrow> t < 16 + n \<Longrightarrow>
      W n ! t = fips_sigma1 (W n ! (t - 2)) + W n ! (t - 7) + fips_sigma0 (W n ! (t - 15)) + W n ! (t - 16)"
  proof (induction n)
    case (Suc n)
    show ?case
    proof (cases "t < 16 + n")
      case True
      with Suc suc show ?thesis by simp
    next
      case False
      then have t: "t = 16 + n" using Suc.prems by simp
      have "W (Suc n) ! t = fips_sigma1 (W n ! (t - 2)) + W n ! (t - 7) + fips_sigma0 (W n ! (t - 15)) + W n ! (t - 16)"
        using len [of n] t by (simp add: W_def fips_schedule_step_def Let_def nth_append)
      then show ?thesis using t by (simp add: suc)
    qed
  qed simp
qed

lemma fips_schedule_props:
  fixes block :: "u8 list"
  defines "W \<equiv> fips_schedule block"
  shows "length W = 64" and "t < 16 \<Longrightarrow> W ! t = fips_words block ! t"
    and "16 \<le> t \<Longrightarrow> t < 64 \<Longrightarrow>
      W ! t = fips_sigma1 (W ! (t - 2)) + W ! (t - 7) + fips_sigma0 (W ! (t - 15)) + W ! (t - 16)"
  unfolding W_def fips_schedule_def
  using schedule_iter(1) [of "fips_words block" 48] schedule_iter(2) [of "fips_words block" t 48]
    schedule_iter(3) [of "fips_words block" t 48] by simp_all

definition fips_rounds :: "u32 list \<Rightarrow> nat \<Rightarrow> u32 list \<Rightarrow> u32 list" where
  "fips_rounds W n s = fold (\<lambda>t s. fips_round (K256 ! t) (W ! t) s) [0..<n] s"

lemma fips_rounds_Suc: "fips_rounds W (Suc n) s = fips_round (K256 ! n) (W ! n) (fips_rounds W n s)"
  by (simp add: fips_rounds_def)

lemma view_0: "length v = 8 \<Longrightarrow> view 0 v = v"
  by (auto dest!: list_8 simp: view_def upt_8 reg_def)

lemma load_rounds:
  assumes "length block = 64" and "length state = 8" and "n \<le> 16"
  defines "s \<equiv> fold (round_load block) [0..<n] (state, replicate 16 0)"
  shows "length (fst s) = 8 \<and> length (snd s) = 16 \<and> (\<forall>i < n. snd s ! i = fips_schedule block ! i) \<and>
    view n (fst s) = fips_rounds (fips_schedule block) n state"
  unfolding s_def using assms(3)
proof (induction n)
  case 0
  then show ?case using assms(2) by (simp add: view_0 fips_rounds_def)
next
  case (Suc n)
  let ?s = "fold (round_load block) [0..<n] (state, replicate 16 0)"
  have IH: "length (fst ?s) = 8" "length (snd ?s) = 16" "\<forall>i < n. snd ?s ! i = fips_schedule block ! i"
    "view n (fst ?s) = fips_rounds (fips_schedule block) n state" using Suc by auto
  have w: "HOST_c2l True (drop (4 * n) block) = fips_schedule block ! n"
    using fips_words_nth [OF assms(1)] fips_schedule_props(2) Suc.prems by simp
  have s: "fold (round_load block) [0..<Suc n] (state, replicate 16 0) =
      (ROUND_00_15 n (fips_schedule block ! n) (fst ?s), (snd ?s)[n := fips_schedule block ! n])"
    using w by (simp add: round_load_def case_prod_beta Let_def)
  show ?case unfolding s using IH Suc.prems
    by (simp add: view_round fips_rounds_Suc nth_list_update less_Suc_eq)
qed

lemma window_word:
  assumes "window (fips_schedule block) t X" and "16 \<le> t" and "t < 64"
  shows "X ! (t mod 16) + (sigma0 (X ! ((t + 1) mod 16)) + sigma1 (X ! ((t + 14) mod 16)) + X ! ((t + 9) mod 16)) =
    fips_schedule block ! t"
proof -
  have x: "X ! (j mod 16) = fips_schedule block ! j" if "j < t" "t \<le> j + 16" for j using assms(1) that by (simp add: window_def)
  have m: "t mod 16 = (t - 16) mod 16" "(t + 1) mod 16 = (t - 15) mod 16" "(t + 14) mod 16 = (t - 2) mod 16"
    "(t + 9) mod 16 = (t - 7) mod 16"
  proof -
    have "t = (t - 16) + 16" "t + 1 = (t - 15) + 16" "t + 14 = (t - 2) + 16" "t + 9 = (t - 7) + 16" using assms(2) by simp_all
    then show "t mod 16 = (t - 16) mod 16" "(t + 1) mod 16 = (t - 15) mod 16" "(t + 14) mod 16 = (t - 2) mod 16"
      "(t + 9) mod 16 = (t - 7) mod 16" by (metis mod_add_self2)+
  qed
  show ?thesis unfolding m using x [of "t - 16"] x [of "t - 15"] x [of "t - 2"] x [of "t - 7"] assms(2,3)
      fips_schedule_props(3) [of t block] by (simp add: Sigma_fips algebra_simps)
qed

lemma later_rounds:
  assumes "16 \<le> n" and "n \<le> 64" and "length v = 8" and "window (fips_schedule block) 16 X"
    and "view 16 v = fips_rounds (fips_schedule block) 16 state"
  defines "s \<equiv> fold ROUND_16_63 [16..<n] (v, X)"
  shows "length (fst s) = 8 \<and> window (fips_schedule block) n (snd s) \<and>
    view n (fst s) = fips_rounds (fips_schedule block) n state"
  unfolding s_def using assms(1,2)
proof (induction n rule: dec_induct)
  case base
  then show ?case using assms by simp
next
  case (step n)
  let ?s = "fold ROUND_16_63 [16..<n] (v, X)"
  have IH: "length (fst ?s) = 8" "window (fips_schedule block) n (snd ?s)"
    "view n (fst ?s) = fips_rounds (fips_schedule block) n state" using step by auto
  have s: "fold ROUND_16_63 [16..<Suc n] (v, X) =
      (ROUND_00_15 n (fips_schedule block ! n) (fst ?s), (snd ?s)[n mod 16 := fips_schedule block ! n])"
    using window_word [OF IH(2)] step by (simp add: ROUND_16_63_def case_prod_beta Let_def)
  show ?case unfolding s using IH step window_step [OF IH(2)] by (simp add: view_round fips_rounds_Suc)
qed

lemma sha256_block_fips:
  assumes "length block = 64" and "length state = 8"
  shows "sha256_block state block = fips_compress state block"
proof -
  let ?s = "fold (round_load block) [0..<16] (state, replicate 16 0)"
  obtain v X where s: "?s = (v, X)" by force
  have l: "length v = 8" "length X = 16" "\<forall>i < 16. X ! i = fips_schedule block ! i"
    "view 16 v = fips_rounds (fips_schedule block) 16 state" using load_rounds [OF assms, of 16] s by simp_all
  then have w: "window (fips_schedule block) 16 X" by (simp add: window_def)
  obtain v' X' where s': "fold ROUND_16_63 [16..<64] (v, X) = (v', X')" by force
  have l': "length v' = 8" "view 64 v' = fips_rounds (fips_schedule block) 64 state"
    using later_rounds [OF _ _ l(1) w l(4), of 64] s' by simp_all
  have "view 64 v' = v'" using l'(1) by (auto dest!: list_8 simp: view_def upt_8 reg_def)
  moreover have "sha256_block state block = map2 (+) state v'"
    unfolding sha256_block_def Let_def s prod.case s' ..
  moreover have "fips_compress state block = map2 (+) state (fips_rounds (fips_schedule block) 64 state)"
    unfolding fips_compress_def fips_rounds_def Let_def ..
  ultimately show ?thesis using l'(2) by (simp only:)
qed

section \<open>The digests\<close>

interpretation sha256: md32 sha256_block_data_order True
  by unfold_locales simp_all

text \<open>Every block the iteration sees is whole, and the chaining value keeps eight words.\<close>

lemma length_fips_round: "length (fips_round K W s) = length s"
  by (cases "(K, W, s)" rule: fips_round.cases) (simp_all add: Let_def)

lemma length_fips_compress: "length H = 8 \<Longrightarrow> length (fips_compress H b) = 8"
proof -
  have "length (fold (\<lambda>t s. fips_round (K256 ! t) (W ! t) s) ts s) = length s" for W ts s
    by (induction ts arbitrary: s) (simp_all add: length_fips_round)
  then show "length H = 8 \<Longrightarrow> length (fips_compress H b) = 8" by (simp add: fips_compress_def Let_def)
qed

lemma foldl_sha256_fips:
  assumes "\<forall>b \<in> set bs. length b = 64" and "length H = 8"
  shows "foldl (\<lambda>h b. sha256_block_data_order h b 1) H bs = foldl fips_compress H bs"
  using assms
proof (induction bs arbitrary: H)
  case (Cons b bs)
  then have "sha256_block_data_order H b 1 = fips_compress H b" by (simp add: sha256_block_fips)
  with Cons show ?case by (simp add: length_fips_compress)
qed simp

text \<open>The hash of FIPS 180-4: initial value, padding and iteration.\<close>

definition fips_hash :: "u32 list \<Rightarrow> u8 list \<Rightarrow> u32 list" where
  "fips_hash H0 m = foldl fips_compress H0 (blocks 64 (md_message True m))"

lemma SHA256_stream:
  assumes "hc_ok c" and "hc_num c = 0" and "bit_count c = 0" and "length (hc_h c) = 8"
    and "list_all (\<lambda>xs. length xs < SIZE_BOUND) cs"
  shows "hc_h (snd (SHA256_Final (foldl SHA256_Update c cs))) = fips_hash (hc_h c) (concat cs)"
proof -
  have u: "SHA256_Update = HASH_UPDATE sha256_block_data_order" by (rule ext)+ (simp add: SHA256_Update_def)
  have "\<forall>b \<in> set (blocks 64 m). length b = 64" for m :: "u8 list" using blocks_length by blast
  from foldl_sha256_fips [OF this assms(4)] sha256.digest [OF assms(1-3,5)] show ?thesis
    by (simp only: u SHA256_Final_def Let_def snd_conv fips_hash_def)
qed

lemma md_len_update [simp]: "sc_md_len (SHA256_Update c xs) = sc_md_len c" "sc_md_len (snd (SHA256_Final c)) = sc_md_len c"
  by (simp_all add: SHA256_Update_def HASH_UPDATE_def hash_rest_def hash_count_def SHA256_Final_def HASH_FINAL_def Let_def)

lemma md_len_foldl [simp]: "sc_md_len (foldl SHA256_Update c cs) = sc_md_len c"
  by (induction cs arbitrary: c) simp_all

lemma fst_SHA256_Final: "fst (SHA256_Final c) = sha256_make_string (snd (SHA256_Final c))"
  by (simp add: SHA256_Final_def Let_def)

section \<open>Properties\<close>



text \<open>
  The 64-bit count of message bits, kept in two 32-bit words with a carry, is the true count
  modulo \<open>2 ^ 64\<close> for every length of input, a \<open>size_t\<close> of more than \<open>2 ^ 32\<close> bytes included, and the context stays well formed.
\<close>

theorem sha256_counter_wraps:
  assumes "hc_ok c" and "length data < SIZE_BOUND"
  shows "bit_count (SHA256_Update c data) = (bit_count c + 8 * length data) mod 2 ^ 64 \<and> hc_ok (SHA256_Update c data) \<and>
    hc_pending (SHA256_Update c data) = tail_of 64 (hc_pending c @ data)"
  using sha256.HASH_UPDATE_spec [OF assms] by (simp add: SHA256_Update_def)

theorem sha256_counter_wraps_witness:
  "bit_count (SHA256_Update (SHA256_Init\<lparr>hc_Nl := 0xfffffff8, hc_Nh := 0xffffffff\<rparr>) [1, 2]) = 8"
  using sha256_counter_wraps [of "SHA256_Init\<lparr>hc_Nl := 0xfffffff8, hc_Nh := 0xffffffff\<rparr>" "[1, 2]"]
  by (simp add: hc_ok_def SHA256_Init_def SIZE_BOUND_def bit_count_def)

end
