(* ===== verification/SHA1.thy ===== *)
theory SHA1 imports Digest begin

text \<open>
  SHA-1, crypto/fipsmodule/sha/sha1.c, with the portable block function. The six registers \<open>A\<close> to \<open>E\<close>
  and \<open>T\<close> are a list; round \<open>i\<close> passes argument \<open>k\<close> in register \<open>(k - i) mod 6\<close>, and the window \<open>X\<close> is
  updated in place. The lemmas show that this is the compression function of FIPS 180-4.
\<close>

section \<open>The code\<close>

definition SHA1_Init :: HASH_CTX where
  "SHA1_Init = \<lparr>hc_h = [0x67452301, 0xefcdab89, 0x98badcfe, 0x10325476, 0xc3d2e1f0],
    hc_Nl = 0, hc_Nh = 0, hc_data = replicate 64 0, hc_num = 0\<rparr>"

definition K_00_19 :: u32 where "K_00_19 = 0x5a827999"
definition K_20_39 :: u32 where "K_20_39 = 0x6ed9eba1"
definition K_40_59 :: u32 where "K_40_59 = 0x8f1bbcdc"
definition K_60_79 :: u32 where "K_60_79 = 0xca62c1d6"

definition F_00_19 :: "u32 \<Rightarrow> u32 \<Rightarrow> u32 \<Rightarrow> u32" where "F_00_19 b c d = ((c XOR d) AND b) XOR d"
definition F_20_39 :: "u32 \<Rightarrow> u32 \<Rightarrow> u32 \<Rightarrow> u32" where "F_20_39 b c d = b XOR c XOR d"
definition F_40_59 :: "u32 \<Rightarrow> u32 \<Rightarrow> u32 \<Rightarrow> u32" where "F_40_59 b c d = (b AND c) OR ((b OR c) AND d)"
definition F_60_79 :: "u32 \<Rightarrow> u32 \<Rightarrow> u32 \<Rightarrow> u32" where "F_60_79 b c d = F_20_39 b c d"

text \<open>The register that argument \<open>k\<close> of the call for round \<open>i\<close> names.\<close>

definition reg6 :: "nat \<Rightarrow> nat \<Rightarrow> nat" where
  "reg6 i k = (k + 5 * i) mod 6"

text \<open>
  The common shape of the BODY macros: \<open>f\<close> gets \<open>x + e + K + ROTATE(a, 5) + F(b, c, d)\<close>, \<open>b\<close> is rotated.
\<close>

definition sha1_body :: "nat \<Rightarrow> u32 \<Rightarrow> (u32 \<Rightarrow> u32 \<Rightarrow> u32 \<Rightarrow> u32) \<Rightarrow> u32 \<Rightarrow> u32 list \<Rightarrow> u32 list" where
  "sha1_body i x F K v =
    (let a = v ! reg6 i 0; b = v ! reg6 i 1; c = v ! reg6 i 2; d = v ! reg6 i 3; e = v ! reg6 i 4
     in v[reg6 i 5 := x + (e + K + ROTATE a 5 + F b c d), reg6 i 1 := ROTATE b 30])"

definition Xupdate :: "nat \<Rightarrow> u32 list \<Rightarrow> u32 \<times> u32 list" where
  "Xupdate i X =
    (let a = X ! (i mod 16) XOR X ! ((i + 2) mod 16) XOR X ! ((i + 8) mod 16) XOR X ! ((i + 13) mod 16);
         a = ROTATE a 1
     in (a, X[i mod 16 := a]))"

definition BODY_00_15 :: "u8 list \<Rightarrow> nat \<Rightarrow> u32 list \<times> u32 list \<Rightarrow> u32 list \<times> u32 list" where
  "BODY_00_15 data i s =
    (case s of (v, X) \<Rightarrow>
      (let l = HOST_c2l True (drop (4 * i) data) in (sha1_body i l F_00_19 K_00_19 v, X[i := l])))"

definition BODY_16_19 :: "nat \<Rightarrow> u32 list \<times> u32 list \<Rightarrow> u32 list \<times> u32 list" where
  "BODY_16_19 i s = (case s of (v, X) \<Rightarrow> (case Xupdate i X of (x, X') \<Rightarrow> (sha1_body i x F_00_19 K_00_19 v, X')))"

definition BODY_20_31 :: "nat \<Rightarrow> u32 list \<times> u32 list \<Rightarrow> u32 list \<times> u32 list" where
  "BODY_20_31 i s = (case s of (v, X) \<Rightarrow> (case Xupdate i X of (x, X') \<Rightarrow> (sha1_body i x F_20_39 K_20_39 v, X')))"

definition BODY_32_39 :: "nat \<Rightarrow> u32 list \<times> u32 list \<Rightarrow> u32 list \<times> u32 list" where
  "BODY_32_39 i s = (case s of (v, X) \<Rightarrow> (case Xupdate i X of (x, X') \<Rightarrow> (sha1_body i x F_20_39 K_20_39 v, X')))"

definition BODY_40_59 :: "nat \<Rightarrow> u32 list \<times> u32 list \<Rightarrow> u32 list \<times> u32 list" where
  "BODY_40_59 i s = (case s of (v, X) \<Rightarrow> (case Xupdate i X of (x, X') \<Rightarrow> (sha1_body i x F_40_59 K_40_59 v, X')))"

definition BODY_60_79 :: "nat \<Rightarrow> u32 list \<times> u32 list \<Rightarrow> u32 list \<times> u32 list" where
  "BODY_60_79 i s = (case s of (v, X) \<Rightarrow> (case Xupdate i X of (x, X') \<Rightarrow> (sha1_body i x F_60_79 K_60_79 v, X')))"

text \<open>One block. \<open>T\<close> is not initialised in the source and is written before it is read; 0 stands for it.\<close>

definition sha1_block :: "u32 list \<Rightarrow> u8 list \<Rightarrow> u32 list" where
  "sha1_block state data =
    (let s = fold (BODY_00_15 data) [0..<16] (state @ [0], replicate 16 0);
         s = fold BODY_16_19 [16..<20] s;
         s = fold BODY_20_31 [20..<32] s;
         s = fold BODY_32_39 [32..<40] s;
         s = fold BODY_40_59 [40..<60] s;
         (v, X) = fold BODY_60_79 [60..<80] s
     in [state ! 0 + v ! 4, state ! 1 + v ! 5, state ! 2 + v ! 0, state ! 3 + v ! 1, state ! 4 + v ! 2])"

text \<open>
  The \<open>for (;;)\<close> loop leaves after \<open>--num == 0\<close>, so that \<open>num = 0\<close> would mean \<open>SIZE_MAX + 1\<close> blocks; no
  caller passes 0.
\<close>

fun sha1_blocks_loop :: "u32 list \<Rightarrow> u8 list \<Rightarrow> nat \<Rightarrow> u32 list" where
  "sha1_blocks_loop state data 0 = state"
| "sha1_blocks_loop state data (Suc num) = sha1_blocks_loop (sha1_block state (take 64 data)) (drop 64 data) num"

definition sha1_block_data_order :: "u32 list \<Rightarrow> u8 list \<Rightarrow> nat \<Rightarrow> u32 list" where
  "sha1_block_data_order state data num = sha1_blocks_loop state data (if num = 0 then SIZE_BOUND else num)"

definition SHA1_Update :: "HASH_CTX \<Rightarrow> u8 list \<Rightarrow> HASH_CTX" where
  "SHA1_Update c data = HASH_UPDATE sha1_block_data_order c data"

definition SHA1_Transform :: "HASH_CTX \<Rightarrow> u8 list \<Rightarrow> HASH_CTX" where
  "SHA1_Transform c data = HASH_TRANSFORM sha1_block_data_order c data"

definition sha1_make_string :: "HASH_CTX \<Rightarrow> u8 list" where
  "sha1_make_string c = HOST_l2c True (hc_h c ! 0) @ HOST_l2c True (hc_h c ! 1) @ HOST_l2c True (hc_h c ! 2) @
    HOST_l2c True (hc_h c ! 3) @ HOST_l2c True (hc_h c ! 4)"

definition SHA1_Final :: "HASH_CTX \<Rightarrow> u8 list \<times> HASH_CTX" where
  "SHA1_Final c = (let c' = HASH_FINAL sha1_block_data_order True c in (sha1_make_string c', c'))"

definition SHA1 :: "u8 list \<Rightarrow> u8 list" where
  "SHA1 data = fst (SHA1_Final (SHA1_Update SHA1_Init data))"

section \<open>FIPS 180-4\<close>

definition fips1_f :: "nat \<Rightarrow> u32 \<Rightarrow> u32 \<Rightarrow> u32 \<Rightarrow> u32" where
  "fips1_f t x y z =
    (if t < 20 then (x AND y) XOR (NOT x AND z)
     else if t < 40 then x XOR y XOR z
     else if t < 60 then (x AND y) XOR (x AND z) XOR (y AND z)
     else x XOR y XOR z)"

definition fips1_K :: "nat \<Rightarrow> u32" where
  "fips1_K t = (if t < 20 then 0x5a827999 else if t < 40 then 0x6ed9eba1 else if t < 60 then 0x8f1bbcdc else 0xca62c1d6)"

definition fips1_schedule_step :: "u32 list \<Rightarrow> u32 list" where
  "fips1_schedule_step W =
    (let t = length W in W @ [ROTATE (W ! (t - 3) XOR W ! (t - 8) XOR W ! (t - 14) XOR W ! (t - 16)) 1])"

definition fips1_schedule :: "u8 list \<Rightarrow> u32 list" where
  "fips1_schedule block = (fips1_schedule_step ^^ 64) (fips_words block)"

fun fips1_round :: "u32 \<Rightarrow> nat \<Rightarrow> u32 list \<Rightarrow> u32 list" where
  "fips1_round W t [a, b, c, d, e] = [ROTATE a 5 + fips1_f t b c d + e + fips1_K t + W, a, ROTATE b 30, c, d]"
| "fips1_round W t s = s"

definition fips1_compress :: "u32 list \<Rightarrow> u8 list \<Rightarrow> u32 list" where
  "fips1_compress H block =
    (let W = fips1_schedule block in map2 (+) H (fold (\<lambda>t s. fips1_round (W ! t) t s) [0..<80] H))"

section \<open>The block function is the compression function\<close>

lemma F_fips:
  "F_00_19 b c d = (b AND c) XOR (NOT b AND d)" "F_40_59 b c d = (b AND c) XOR (b AND d) XOR (c AND d)"
  by (rule bit_word_eqI; auto simp: F_00_19_def F_40_59_def bit_simps)+

definition view1 :: "nat \<Rightarrow> u32 list \<Rightarrow> u32 list" where
  "view1 i v = map (\<lambda>k. v ! reg6 i k) [0..<5]"

lemma reg6_mod: "reg6 i k = (k + 5 * (i mod 6)) mod 6"
  unfolding reg6_def by (metis mod_add_right_eq mod_mult_right_eq)

lemma reg6_Suc: "reg6 (Suc i) k = (k + 5 + 5 * (i mod 6)) mod 6"
proof -
  have "reg6 (Suc i) k = reg6 i (k + 5)" by (simp add: reg6_def add.assoc)
  then show ?thesis by (simp only: reg6_mod)
qed

lemma upt_5: "[0..<5] = [0, 1, 2, 3, 4 :: nat]"
  by (simp add: upt_rec)

lemma list_6: "length v = 6 \<Longrightarrow> \<exists>a b c d e f. v = [a, b, c, d, e, f]"
  by (auto simp: numeral_eq_Suc length_Suc_conv)

lemma length_sha1_body [simp]: "length (sha1_body i x F K v) = length v"
  by (simp add: sha1_body_def Let_def)

lemma view1_body:
  assumes "length v = 6" and "F = fips1_f i" and "K = fips1_K i"
  shows "view1 (Suc i) (sha1_body i x F K v) = fips1_round x i (view1 i v)"
proof -
  from list_6 [OF assms(1)] obtain v0 v1 v2 v3 v4 v5 where v: "v = [v0, v1, v2, v3, v4, v5]" by blast
  have "i mod 6 \<in> {0, 1, 2, 3, 4, 5}" by auto
  then show ?thesis
    unfolding view1_def upt_5 reg6_Suc unfolding sha1_body_def reg6_mod v assms(2,3)
    by (auto simp: Let_def algebra_simps)
qed

lemma schedule1_iter:
  assumes "length W0 = 16"
  defines "W n \<equiv> (fips1_schedule_step ^^ n) W0"
  shows "length (W n) = 16 + n" and "t < 16 \<Longrightarrow> W n ! t = W0 ! t"
    and "16 \<le> t \<Longrightarrow> t < 16 + n \<Longrightarrow>
      W n ! t = ROTATE (W n ! (t - 3) XOR W n ! (t - 8) XOR W n ! (t - 14) XOR W n ! (t - 16)) 1"
proof -
  have len: "length (W n) = 16 + n" for n
    by (induction n) (simp_all add: W_def assms(1) fips1_schedule_step_def Let_def)
  have suc: "W (Suc n) ! k = W n ! k" if "k < 16 + n" for n k
    using that len [of n] by (simp add: W_def fips1_schedule_step_def Let_def nth_append)
  show "length (W n) = 16 + n" by (rule len)
  show "t < 16 \<Longrightarrow> W n ! t = W0 ! t" by (induction n) (simp_all add: suc, simp add: W_def)
  show "16 \<le> t \<Longrightarrow> t < 16 + n \<Longrightarrow>
      W n ! t = ROTATE (W n ! (t - 3) XOR W n ! (t - 8) XOR W n ! (t - 14) XOR W n ! (t - 16)) 1"
  proof (induction n)
    case (Suc n)
    show ?case
    proof (cases "t < 16 + n")
      case True
      with Suc suc show ?thesis by simp
    next
      case False
      then have t: "t = 16 + n" using Suc.prems by simp
      have "W (Suc n) ! t = ROTATE (W n ! (t - 3) XOR W n ! (t - 8) XOR W n ! (t - 14) XOR W n ! (t - 16)) 1"
        using len [of n] t by (simp add: W_def fips1_schedule_step_def Let_def nth_append)
      then show ?thesis using t by (simp add: suc)
    qed
  qed simp
qed

lemma Xupdate_window:
  assumes "window (fips1_schedule block) t X" and "16 \<le> t" and "t < 80"
  shows "Xupdate t X = (fips1_schedule block ! t, X[t mod 16 := fips1_schedule block ! t])"
proof -
  let ?W = "fips1_schedule block"
  have x: "X ! (j mod 16) = ?W ! j" if "j < t" "t \<le> j + 16" for j using assms(1) that by (simp add: window_def)
  have "t = (t - 16) + 16" "t + 2 = (t - 14) + 16" "t + 8 = (t - 8) + 16" "t + 13 = (t - 3) + 16" using assms(2) by simp_all
  then have m: "t mod 16 = (t - 16) mod 16" "(t + 2) mod 16 = (t - 14) mod 16" "(t + 8) mod 16 = (t - 8) mod 16"
    "(t + 13) mod 16 = (t - 3) mod 16" by (metis mod_add_self2)+
  have "?W ! t = ROTATE (?W ! (t - 3) XOR ?W ! (t - 8) XOR ?W ! (t - 14) XOR ?W ! (t - 16)) 1"
    unfolding fips1_schedule_def using schedule1_iter(3) [of "fips_words block" t 64] assms(2,3) by simp
  then have "ROTATE (X ! (t mod 16) XOR X ! ((t + 2) mod 16) XOR X ! ((t + 8) mod 16) XOR X ! ((t + 13) mod 16)) 1 = ?W ! t"
    unfolding m using x [of "t - 16"] x [of "t - 14"] x [of "t - 8"] x [of "t - 3"] assms(2)
    by (simp add: xor.commute xor.left_commute)
  then show ?thesis by (simp add: Xupdate_def Let_def)
qed

definition fips1_rounds :: "u32 list \<Rightarrow> nat \<Rightarrow> u32 list \<Rightarrow> u32 list" where
  "fips1_rounds W n s = fold (\<lambda>t s. fips1_round (W ! t) t s) [0..<n] s"

lemma fips1_rounds_Suc: "fips1_rounds W (Suc n) s = fips1_round (W ! n) n (fips1_rounds W n s)"
  by (simp add: fips1_rounds_def)

text \<open>The state before round \<open>t\<close>: registers and window agree with the specification.\<close>

definition sha1_sim :: "u8 list \<Rightarrow> u32 list \<Rightarrow> nat \<Rightarrow> u32 list \<times> u32 list \<Rightarrow> bool" where
  "sha1_sim block state t s \<longleftrightarrow> length (fst s) = 6 \<and> window (fips1_schedule block) t (snd s) \<and>
    view1 t (fst s) = fips1_rounds (fips1_schedule block) t state"

lemma window_start:
  assumes "n \<le> 16" and "window W n X" and "n < 16"
  shows "window W (Suc n) (X[n := W ! n])"
  using assms by (auto simp: window_def nth_list_update less_Suc_eq)

lemma sim_load:
  assumes "length block = 64" and "length state = 5" and "n \<le> 16"
  shows "sha1_sim block state n (fold (BODY_00_15 block) [0..<n] (state @ [0], replicate 16 0))"
  using assms(3)
proof (induction n)
  case 0
  have "\<exists>a b c d e. state = [a, b, c, d, e]" using assms(2) by (auto simp: numeral_eq_Suc length_Suc_conv)
  then show ?case by (auto simp: sha1_sim_def window_def view1_def upt_5 reg6_def fips1_rounds_def)
next
  case (Suc n)
  let ?s = "fold (BODY_00_15 block) [0..<n] (state @ [0], replicate 16 0)"
  have IH: "length (fst ?s) = 6" "window (fips1_schedule block) n (snd ?s)"
    "view1 n (fst ?s) = fips1_rounds (fips1_schedule block) n state" using Suc by (auto simp: sha1_sim_def)
  have w: "HOST_c2l True (drop (4 * n) block) = fips1_schedule block ! n"
    using fips_words_nth [OF assms(1), of n] schedule1_iter(2) [of "fips_words block" n 64] Suc.prems
    by (simp add: fips1_schedule_def)
  have s: "fold (BODY_00_15 block) [0..<Suc n] (state @ [0], replicate 16 0) =
      (sha1_body n (fips1_schedule block ! n) F_00_19 K_00_19 (fst ?s), (snd ?s)[n := fips1_schedule block ! n])"
    using w by (simp add: BODY_00_15_def case_prod_beta Let_def)
  have "F_00_19 = fips1_f n" "K_00_19 = fips1_K n"
    using Suc.prems by (auto simp: F_fips fips1_f_def fips1_K_def K_00_19_def fun_eq_iff)
  then show ?case unfolding s sha1_sim_def using IH Suc.prems
    by (simp add: view1_body fips1_rounds_Suc window_start)
qed

lemma sim_step:
  assumes "sha1_sim block state t s" and "16 \<le> t" and "t < 80" and "F = fips1_f t" and "K = fips1_K t"
    and "body = (case s of (v, X) \<Rightarrow> (case Xupdate t X of (x, X') \<Rightarrow> (sha1_body t x F K v, X')))"
  shows "sha1_sim block state (Suc t) body"
proof -
  obtain v X where s: "s = (v, X)" by force
  have i: "length v = 6" "window (fips1_schedule block) t X" "view1 t v = fips1_rounds (fips1_schedule block) t state"
    using assms(1) by (simp_all add: sha1_sim_def s)
  show ?thesis using Xupdate_window [OF i(2) assms(2,3)] window_step [OF i(2) assms(2)] view1_body [OF i(1) assms(4,5)] i
    by (simp add: assms(6) s sha1_sim_def fips1_rounds_Suc)
qed

lemma sim_range:
  assumes "sha1_sim block state a s" and "a \<le> b" and "16 \<le> a" and "b \<le> 80"
    and "\<And>t s. a \<le> t \<Longrightarrow> t < b \<Longrightarrow> B t s = (case s of (v, X) \<Rightarrow> (case Xupdate t X of (x, X') \<Rightarrow> (sha1_body t x F K v, X')))"
    and "\<And>t. a \<le> t \<Longrightarrow> t < b \<Longrightarrow> F = fips1_f t \<and> K = fips1_K t"
  shows "sha1_sim block state b (fold B [a..<b] s)"
  using assms(2,4,5,6)
proof (induction b rule: dec_induct)
  case base
  then show ?case using assms(1) by simp
next
  case (step n)
  have "sha1_sim block state n (fold B [a..<n] s)" using step by simp
  from sim_step [OF this _ _ _ _ step.prems(2)] step assms(3) show ?case by simp
qed

lemma sha1_block_fips:
  assumes "length block = 64" and "length state = 5"
  shows "sha1_block state block = fips1_compress state block"
proof -
  define s1 where "s1 = fold (BODY_00_15 block) [0..<16] (state @ [0], replicate 16 0)"
  define s2 where "s2 = fold BODY_16_19 [16..<20] s1"
  define s3 where "s3 = fold BODY_20_31 [20..<32] s2"
  define s4 where "s4 = fold BODY_32_39 [32..<40] s3"
  define s5 where "s5 = fold BODY_40_59 [40..<60] s4"
  define s6 where "s6 = fold BODY_60_79 [60..<80] s5"
  note fs = F_fips F_20_39_def F_60_79_def fips1_f_def fips1_K_def K_00_19_def K_20_39_def K_40_59_def K_60_79_def fun_eq_iff
  have "sha1_sim block state 16 s1" unfolding s1_def by (rule sim_load [OF assms]) simp
  then have "sha1_sim block state 20 s2" unfolding s2_def
    by (rule sim_range [where F = F_00_19 and K = K_00_19]) (simp_all add: BODY_16_19_def fs)
  then have "sha1_sim block state 32 s3" unfolding s3_def
    by (rule sim_range [where F = F_20_39 and K = K_20_39]) (simp_all add: BODY_20_31_def fs)
  then have "sha1_sim block state 40 s4" unfolding s4_def
    by (rule sim_range [where F = F_20_39 and K = K_20_39]) (simp_all add: BODY_32_39_def fs)
  then have "sha1_sim block state 60 s5" unfolding s5_def
    by (rule sim_range [where F = F_40_59 and K = K_40_59]) (simp_all add: BODY_40_59_def fs)
  then have "sha1_sim block state 80 s6" unfolding s6_def
    by (rule sim_range [where F = F_60_79 and K = K_60_79]) (simp_all add: BODY_60_79_def fs)
  then have l: "length (fst s6) = 6" and v: "view1 80 (fst s6) = fips1_rounds (fips1_schedule block) 80 state"
    by (simp_all add: sha1_sim_def)
  have b: "sha1_block state block = (case s6 of (v, X) \<Rightarrow>
      [state ! 0 + v ! 4, state ! 1 + v ! 5, state ! 2 + v ! 0, state ! 3 + v ! 1, state ! 4 + v ! 2])"
    unfolding sha1_block_def Let_def s6_def s5_def s4_def s3_def s2_def s1_def ..
  from list_6 [OF l] obtain v0 v1 v2 v3 v4 v5 X where s6: "s6 = ([v0, v1, v2, v3, v4, v5], X)" by (cases s6) auto
  obtain a b' c d e where st: "state = [a, b', c, d, e]"
    using assms(2) by (auto simp: numeral_eq_Suc length_Suc_conv)
  have "fips1_compress state block = map2 (+) state (view1 80 (fst s6))"
    unfolding v fips1_rounds_def fips1_compress_def Let_def ..
  then show ?thesis unfolding b by (simp add: s6 st view1_def upt_5 reg6_def)
qed

section \<open>The digest\<close>

interpretation sha1: md32 sha1_block_data_order True
  by unfold_locales (simp_all add: sha1_block_data_order_def)

lemma length_fips1_compress: "length H = 5 \<Longrightarrow> length (fips1_compress H b) = 5"
proof -
  have "length (fips1_round w t s) = length s" for w t s
    by (cases "(w, t, s)" rule: fips1_round.cases) simp_all
  then have "length (fold (\<lambda>t s. fips1_round (W ! t) t s) ts s) = length s" for W ts s
    by (induction ts arbitrary: s) simp_all
  then show "length H = 5 \<Longrightarrow> length (fips1_compress H b) = 5" by (simp add: fips1_compress_def Let_def)
qed

lemma foldl_sha1_fips:
  assumes "\<forall>b \<in> set bs. length b = 64" and "length H = 5"
  shows "foldl (\<lambda>h b. sha1_block_data_order h b 1) H bs = foldl fips1_compress H bs"
  using assms
proof (induction bs arbitrary: H)
  case (Cons b bs)
  then have "sha1_block_data_order H b 1 = fips1_compress H b"
    by (simp add: sha1_block_data_order_def sha1_block_fips)
  with Cons show ?case by (simp add: length_fips1_compress)
qed simp

definition fips1_hash :: "u8 list \<Rightarrow> u32 list" where
  "fips1_hash m = foldl fips1_compress [0x67452301, 0xefcdab89, 0x98badcfe, 0x10325476, 0xc3d2e1f0]
    (blocks 64 (md_message True m))"

lemma SHA1_stream:
  assumes "list_all (\<lambda>xs. length xs < SIZE_BOUND) cs"
  shows "hc_h (snd (SHA1_Final (foldl SHA1_Update SHA1_Init cs))) = fips1_hash (concat cs)"
proof -
  have u: "SHA1_Update = HASH_UPDATE sha1_block_data_order" by (rule ext)+ (simp add: SHA1_Update_def)
  have i: "hc_ok SHA1_Init" "hc_num SHA1_Init = 0" "bit_count SHA1_Init = 0"
    by (simp_all add: SHA1_Init_def hc_ok_def bit_count_def)
  have "\<forall>b \<in> set (blocks 64 m). length b = 64" for m :: "u8 list" using blocks_length by blast
  from foldl_sha1_fips [OF this, of "hc_h SHA1_Init"] sha1.digest [OF i assms] show ?thesis
    by (simp add: u SHA1_Final_def Let_def fips1_hash_def SHA1_Init_def)
qed

section \<open>Properties\<close>

text \<open>
  C24: however a message is cut into calls of \<open>SHA1_Update\<close>, \<open>SHA1_Final\<close> returns the SHA-1 digest of FIPS
  180-4: the rounds that rename six registers and keep sixteen words compute the 80-word schedule.
\<close>

theorem sha1_is_fips:
  assumes "list_all (\<lambda>xs. length xs < SIZE_BOUND) cs"
  shows "fst (SHA1_Final (foldl SHA1_Update SHA1_Init cs)) = concat (map (\<lambda>w. be_bytes 4 (unat w)) (fips1_hash (concat cs)))"
proof -
  let ?h = "fips1_hash (concat cs)"
  have "length ?h = 5" unfolding fips1_hash_def by (rule length_foldl_keep [OF length_fips1_compress]) simp_all
  with SHA1_stream [OF assms] show ?thesis
    by (simp add: concat_map_5 SHA1_Final_def Let_def sha1_make_string_def HOST_l2c_bytes(1))
qed

theorem sha1_is_fips_witness: "SHA1 [97, 98, 99] = concat (map (\<lambda>w. be_bytes 4 (unat w)) (fips1_hash [97, 98, 99]))"
  using sha1_is_fips [of "[[97, 98, 99]]"] by (simp add: SHA1_def SIZE_BOUND_def)

end
