(* ===== verification/MD5.thy ===== *)
theory MD5 imports Digest begin

text \<open>
  MD5, crypto/fipsmodule/md5/md5.c. The registers \<open>A\<close> to \<open>D\<close> are a list of four; step \<open>i\<close> passes argument
  \<open>k\<close> in register \<open>(k - i) mod 4\<close>. The tables hold, step by step, the word index, the rotation and the
  constant of the unrolled calls. The lemmas show that this is the function of RFC 1321; the constants are those of the code.
\<close>

section \<open>The code\<close>

definition MD5_Init :: HASH_CTX where
  "MD5_Init = \<lparr>hc_h = [0x67452301, 0xefcdab89, 0x98badcfe, 0x10325476],
    hc_Nl = 0, hc_Nh = 0, hc_data = replicate 64 0, hc_num = 0\<rparr>"

definition F5 :: "u32 \<Rightarrow> u32 \<Rightarrow> u32 \<Rightarrow> u32" where "F5 b c d = ((c XOR d) AND b) XOR d"
definition G5 :: "u32 \<Rightarrow> u32 \<Rightarrow> u32 \<Rightarrow> u32" where "G5 b c d = ((b XOR c) AND d) XOR c"
definition H5 :: "u32 \<Rightarrow> u32 \<Rightarrow> u32 \<Rightarrow> u32" where "H5 b c d = b XOR c XOR d"
definition I5 :: "u32 \<Rightarrow> u32 \<Rightarrow> u32 \<Rightarrow> u32" where "I5 b c d = (NOT d OR b) XOR c"

definition md5_step ::
    "(u32 \<Rightarrow> u32 \<Rightarrow> u32 \<Rightarrow> u32) \<Rightarrow> u32 list \<Rightarrow> nat \<Rightarrow> nat \<Rightarrow> nat \<Rightarrow> u32 \<Rightarrow> u32 list \<Rightarrow> u32 list" where
  "md5_step f X i k s t v =
    (let a = v ! reg4 i 0; b = v ! reg4 i 1; c = v ! reg4 i 2; d = v ! reg4 i 3;
         a = a + (X ! k + t + f b c d);
         a = ROTATE a s;
         a = a + b
     in v[reg4 i 0 := a])"

definition md5_R0 :: "u32 list \<Rightarrow> nat \<times> nat \<times> nat \<times> u32 \<Rightarrow> u32 list \<Rightarrow> u32 list" where
  "md5_R0 X p v = (case p of (i, k, s, t) \<Rightarrow> md5_step F5 X i k s t v)"

definition md5_R1 :: "u32 list \<Rightarrow> nat \<times> nat \<times> nat \<times> u32 \<Rightarrow> u32 list \<Rightarrow> u32 list" where
  "md5_R1 X p v = (case p of (i, k, s, t) \<Rightarrow> md5_step G5 X i k s t v)"

definition md5_R2 :: "u32 list \<Rightarrow> nat \<times> nat \<times> nat \<times> u32 \<Rightarrow> u32 list \<Rightarrow> u32 list" where
  "md5_R2 X p v = (case p of (i, k, s, t) \<Rightarrow> md5_step H5 X i k s t v)"

definition md5_R3 :: "u32 list \<Rightarrow> nat \<times> nat \<times> nat \<times> u32 \<Rightarrow> u32 list \<Rightarrow> u32 list" where
  "md5_R3 X p v = (case p of (i, k, s, t) \<Rightarrow> md5_step I5 X i k s t v)"

definition md5_table0 :: "(nat \<times> nat \<times> u32) list" where
  "md5_table0 = [
    (0, 7, 0xd76aa478), (1, 12, 0xe8c7b756), (2, 17, 0x242070db), (3, 22, 0xc1bdceee),
    (4, 7, 0xf57c0faf), (5, 12, 0x4787c62a), (6, 17, 0xa8304613), (7, 22, 0xfd469501),
    (8, 7, 0x698098d8), (9, 12, 0x8b44f7af), (10, 17, 0xffff5bb1), (11, 22, 0x895cd7be),
    (12, 7, 0x6b901122), (13, 12, 0xfd987193), (14, 17, 0xa679438e), (15, 22, 0x49b40821)]"

definition md5_table1 :: "(nat \<times> nat \<times> u32) list" where
  "md5_table1 = [
    (1, 5, 0xf61e2562), (6, 9, 0xc040b340), (11, 14, 0x265e5a51), (0, 20, 0xe9b6c7aa),
    (5, 5, 0xd62f105d), (10, 9, 0x02441453), (15, 14, 0xd8a1e681), (4, 20, 0xe7d3fbc8),
    (9, 5, 0x21e1cde6), (14, 9, 0xc33707d6), (3, 14, 0xf4d50d87), (8, 20, 0x455a14ed),
    (13, 5, 0xa9e3e905), (2, 9, 0xfcefa3f8), (7, 14, 0x676f02d9), (12, 20, 0x8d2a4c8a)]"

definition md5_table2 :: "(nat \<times> nat \<times> u32) list" where
  "md5_table2 = [
    (5, 4, 0xfffa3942), (8, 11, 0x8771f681), (11, 16, 0x6d9d6122), (14, 23, 0xfde5380c),
    (1, 4, 0xa4beea44), (4, 11, 0x4bdecfa9), (7, 16, 0xf6bb4b60), (10, 23, 0xbebfbc70),
    (13, 4, 0x289b7ec6), (0, 11, 0xeaa127fa), (3, 16, 0xd4ef3085), (6, 23, 0x04881d05),
    (9, 4, 0xd9d4d039), (12, 11, 0xe6db99e5), (15, 16, 0x1fa27cf8), (2, 23, 0xc4ac5665)]"

definition md5_table3 :: "(nat \<times> nat \<times> u32) list" where
  "md5_table3 = [
    (0, 6, 0xf4292244), (7, 10, 0x432aff97), (14, 15, 0xab9423a7), (5, 21, 0xfc93a039),
    (12, 6, 0x655b59c3), (3, 10, 0x8f0ccc92), (10, 15, 0xffeff47d), (1, 21, 0x85845dd1),
    (8, 6, 0x6fa87e4f), (15, 10, 0xfe2ce6e0), (6, 15, 0xa3014314), (13, 21, 0x4e0811a1),
    (4, 6, 0xf7537e82), (11, 10, 0xbd3af235), (2, 15, 0x2ad7d2bb), (9, 21, 0xeb86d391)]"

text \<open>One block. Each word is loaded before the step that first uses it; no step changes a word.\<close>

definition md5_block :: "u32 list \<Rightarrow> u8 list \<Rightarrow> u32 list" where
  "md5_block state data =
    (let X = map (\<lambda>i. HOST_c2l False (drop (4 * i) data)) [0..<16];
         v = state;
         v = fold (md5_R0 X) (zip [0..<16] md5_table0) v;
         v = fold (md5_R1 X) (zip [16..<32] md5_table1) v;
         v = fold (md5_R2 X) (zip [32..<48] md5_table2) v;
         v = fold (md5_R3 X) (zip [48..<64] md5_table3) v
     in map2 (+) state v)"

fun md5_block_data_order :: "u32 list \<Rightarrow> u8 list \<Rightarrow> nat \<Rightarrow> u32 list" where
  "md5_block_data_order state data 0 = state"
| "md5_block_data_order state data (Suc num) = md5_block_data_order (md5_block state (take 64 data)) (drop 64 data) num"

definition MD5_Update :: "HASH_CTX \<Rightarrow> u8 list \<Rightarrow> HASH_CTX" where
  "MD5_Update c data = HASH_UPDATE md5_block_data_order c data"

definition MD5_Transform :: "HASH_CTX \<Rightarrow> u8 list \<Rightarrow> HASH_CTX" where
  "MD5_Transform c data = HASH_TRANSFORM md5_block_data_order c data"

definition md5_make_string :: "HASH_CTX \<Rightarrow> u8 list" where
  "md5_make_string c = HOST_l2c False (hc_h c ! 0) @ HOST_l2c False (hc_h c ! 1) @
    HOST_l2c False (hc_h c ! 2) @ HOST_l2c False (hc_h c ! 3)"

definition MD5_Final :: "HASH_CTX \<Rightarrow> u8 list \<times> HASH_CTX" where
  "MD5_Final c = (let c' = HASH_FINAL md5_block_data_order False c in (md5_make_string c', c'))"

definition MD5 :: "u8 list \<Rightarrow> u8 list" where
  "MD5 data = fst (MD5_Final (MD5_Update MD5_Init data))"

section \<open>RFC 1321\<close>

definition rfc5_f :: "nat \<Rightarrow> u32 \<Rightarrow> u32 \<Rightarrow> u32 \<Rightarrow> u32" where
  "rfc5_f i x y z =
    (if i < 16 then (x AND y) OR (NOT x AND z)
     else if i < 32 then (x AND z) OR (y AND NOT z)
     else if i < 48 then x XOR y XOR z
     else y XOR (x OR NOT z))"

definition rfc5_g :: "nat \<Rightarrow> nat" where
  "rfc5_g i = (if i < 16 then i else if i < 32 then (5 * i + 1) mod 16 else if i < 48 then (3 * i + 5) mod 16 else (7 * i) mod 16)"

definition rfc5_s :: "nat \<Rightarrow> nat" where
  "rfc5_s i = (if i < 16 then [7, 12, 17, 22] else if i < 32 then [5, 9, 14, 20]
     else if i < 48 then [4, 11, 16, 23] else [6, 10, 15, 21]) ! (i mod 4)"

definition rfc5_t :: "nat \<Rightarrow> u32" where
  "rfc5_t i = snd (snd ((md5_table0 @ md5_table1 @ md5_table2 @ md5_table3) ! i))"

fun rfc5_step :: "u32 list \<Rightarrow> nat \<Rightarrow> u32 list \<Rightarrow> u32 list" where
  "rfc5_step X i [a, b, c, d] = [d, b + ROTATE (a + rfc5_f i b c d + X ! rfc5_g i + rfc5_t i) (rfc5_s i), b, c]"
| "rfc5_step X i s = s"

definition rfc5_compress :: "u32 list \<Rightarrow> u8 list \<Rightarrow> u32 list" where
  "rfc5_compress H block = map2 (+) H (fold (rfc5_step (le_words block)) [0..<64] H)"

section \<open>The block function is the RFC's\<close>

lemma md5_table_ok:
  "list_all (\<lambda>r. list_all (\<lambda>(i, k, s, t). k = rfc5_g i \<and> s = rfc5_s i \<and> t = rfc5_t i) r)
    [zip [0..<16] md5_table0, zip [16..<32] md5_table1, zip [32..<48] md5_table2, zip [48..<64] md5_table3]"
  by code_simp

lemma length_md5_step [simp]: "length (md5_step f X i k s t v) = length v"
  by (simp add: md5_step_def Let_def)

lemma view4_md5_step:
  assumes "length v = 4" and "f = rfc5_f i"
  shows "view4 (Suc i) (md5_step f X i (rfc5_g i) (rfc5_s i) (rfc5_t i) v) = rfc5_step X i (view4 i v)"
proof -
  from list_4 [OF assms(1)] obtain v0 v1 v2 v3 where v: "v = [v0, v1, v2, v3]" by blast
  have "i mod 4 \<in> {0, 1, 2, 3}" by auto
  then show ?thesis
    unfolding view4_def upt_4 reg4_Suc unfolding md5_step_def reg4_mod v assms(2)
    by (auto simp: Let_def algebra_simps)
qed

text \<open>A run of steps whose table entries are the RFC's.\<close>

lemma md5_run:
  assumes "list_all (\<lambda>(i, k, s, t). k = rfc5_g i \<and> s = rfc5_s i \<and> t = rfc5_t i) (zip [a..<b] tab)"
    and "length tab = b - a" and "a \<le> b" and "length v = 4" and "\<And>i. a \<le> i \<Longrightarrow> i < b \<Longrightarrow> f = rfc5_f i"
    and "\<And>p v. R X p v = (case p of (i, k, s, t) \<Rightarrow> md5_step f X i k s t v)"
  shows "length (fold (R X) (zip [a..<b] tab) v) = 4 \<and>
    view4 b (fold (R X) (zip [a..<b] tab) v) = fold (rfc5_step X) [a..<b] (view4 a v)"
  using assms(1-5)
proof (induction tab arbitrary: a v)
  case Nil
  then show ?case by simp
next
  case (Cons p tab)
  obtain k s t where p: "p = (k, s, t)" by (cases p) auto
  have lt: "a < b" using Cons.prems(2) by simp
  then have u: "[a..<b] = a # [Suc a..<b]" by (rule upt_conv_Cons)
  have e: "k = rfc5_g a" "s = rfc5_s a" "t = rfc5_t a" using Cons.prems(1) by (simp_all add: u p)
  let ?v = "md5_step f X a k s t v"
  have v: "view4 (Suc a) ?v = rfc5_step X a (view4 a v)"
    unfolding e using Cons.prems(4,5) lt by (intro view4_md5_step) auto
  have "length (fold (R X) (zip [Suc a..<b] tab) ?v) = 4 \<and>
    view4 b (fold (R X) (zip [Suc a..<b] tab) ?v) = fold (rfc5_step X) [Suc a..<b] (view4 (Suc a) ?v)"
    using Cons.prems lt by (intro Cons.IH) (simp_all add: u)
  moreover have "R X (a, k, s, t) v = ?v" by (simp add: assms(6))
  ultimately show ?case by (simp add: u p v)
qed

lemma md5_fun:
  "i < 16 \<Longrightarrow> F5 = rfc5_f i"
  "16 \<le> i \<Longrightarrow> i < 32 \<Longrightarrow> G5 = rfc5_f i"
  "32 \<le> i \<Longrightarrow> i < 48 \<Longrightarrow> H5 = rfc5_f i"
  "48 \<le> i \<Longrightarrow> I5 = rfc5_f i"
  by (intro ext bit_word_eqI; auto simp: F5_def G5_def H5_def I5_def rfc5_f_def bit_simps)+

lemma md5_block_rfc:
  assumes "length block = 64" and "length state = 4"
  shows "md5_block state block = rfc5_compress state block"
proof -
  let ?X = "le_words block"
  have X: "map (\<lambda>i. HOST_c2l False (drop (4 * i) block)) [0..<16] = ?X"
    using le_words_nth [OF assms(1)] by (intro nth_equalityI) simp_all
  have v0: "length state = 4" "view4 0 state = state" using assms(2) by (auto dest!: list_4 simp: view4_def upt_4 reg4_def)
  define v1 where "v1 = fold (md5_R0 ?X) (zip [0..<16] md5_table0) state"
  have v1: "length v1 = 4" "view4 16 v1 = fold (rfc5_step ?X) [0..<16] (view4 0 state)"
    using md5_run [of 0 16 md5_table0 state F5 md5_R0 ?X] md5_table_ok v0(1) md5_fun
    by (simp_all add: v1_def md5_R0_def md5_table0_def del: upt_rec_numeral)
  define v2 where "v2 = fold (md5_R1 ?X) (zip [16..<32] md5_table1) v1"
  have v2: "length v2 = 4" "view4 32 v2 = fold (rfc5_step ?X) [16..<32] (view4 16 v1)"
    using md5_run [of 16 32 md5_table1 v1 G5 md5_R1 ?X] md5_table_ok v1(1) md5_fun
    by (simp_all add: v2_def md5_R1_def md5_table1_def del: upt_rec_numeral)
  define v3 where "v3 = fold (md5_R2 ?X) (zip [32..<48] md5_table2) v2"
  have v3: "length v3 = 4" "view4 48 v3 = fold (rfc5_step ?X) [32..<48] (view4 32 v2)"
    using md5_run [of 32 48 md5_table2 v2 H5 md5_R2 ?X] md5_table_ok v2(1) md5_fun
    by (simp_all add: v3_def md5_R2_def md5_table2_def del: upt_rec_numeral)
  define v4 where "v4 = fold (md5_R3 ?X) (zip [48..<64] md5_table3) v3"
  have v4: "length v4 = 4" "view4 64 v4 = fold (rfc5_step ?X) [48..<64] (view4 48 v3)"
    using md5_run [of 48 64 md5_table3 v3 I5 md5_R3 ?X] md5_table_ok v3(1) md5_fun
    by (simp_all add: v4_def md5_R3_def md5_table3_def del: upt_rec_numeral)
  have u: "[0..<64] = [0..<16] @ [16..<32] @ [32..<48] @ [48..<64]"
    using upt_add_eq_append [of 0 16 16] upt_add_eq_append [of 0 32 16] upt_add_eq_append [of 0 48 16] by (simp del: upt_rec_numeral)
  have "view4 64 v4 = v4" using v4(1) by (auto dest!: list_4 simp: view4_def upt_4 reg4_def)
  then have "v4 = fold (rfc5_step ?X) [0..<64] state"
    unfolding u fold_append comp_apply using v0(2) v1(2) v2(2) v3(2) v4(2) by (simp only:)
  moreover have "md5_block state block = map2 (+) state v4"
    unfolding md5_block_def Let_def X v4_def v3_def v2_def v1_def ..
  ultimately show ?thesis by (simp only: rfc5_compress_def)
qed

section \<open>The digest\<close>

interpretation md5: md32 md5_block_data_order False
  by unfold_locales simp_all

lemma length_rfc5_compress: "length H = 4 \<Longrightarrow> length (rfc5_compress H b) = 4"
proof -
  have "length (rfc5_step X i s) = length s" for X i s by (cases "(X, i, s)" rule: rfc5_step.cases) simp_all
  then have "length (fold (rfc5_step X) js s) = length s" for X js s by (induction js arbitrary: s) simp_all
  then show "length H = 4 \<Longrightarrow> length (rfc5_compress H b) = 4" by (simp add: rfc5_compress_def)
qed

lemma foldl_md5_rfc:
  assumes "\<forall>b \<in> set bs. length b = 64" and "length H = 4"
  shows "foldl (\<lambda>h b. md5_block_data_order h b 1) H bs = foldl rfc5_compress H bs"
  using assms
proof (induction bs arbitrary: H)
  case (Cons b bs)
  then have "md5_block_data_order H b 1 = rfc5_compress H b" by (simp add: md5_block_rfc)
  with Cons show ?case by (simp add: length_rfc5_compress)
qed simp

definition rfc5_hash :: "u8 list \<Rightarrow> u32 list" where
  "rfc5_hash m = foldl rfc5_compress [0x67452301, 0xefcdab89, 0x98badcfe, 0x10325476] (blocks 64 (md_message False m))"

lemma MD5_stream:
  assumes "list_all (\<lambda>xs. length xs < SIZE_BOUND) cs"
  shows "hc_h (snd (MD5_Final (foldl MD5_Update MD5_Init cs))) = rfc5_hash (concat cs)"
proof -
  have u: "MD5_Update = HASH_UPDATE md5_block_data_order" by (rule ext)+ (simp add: MD5_Update_def)
  have i: "hc_ok MD5_Init" "hc_num MD5_Init = 0" "bit_count MD5_Init = 0"
    by (simp_all add: MD5_Init_def hc_ok_def bit_count_def)
  have "\<forall>b \<in> set (blocks 64 m). length b = 64" for m :: "u8 list" using blocks_length by blast
  from foldl_md5_rfc [OF this, of "hc_h MD5_Init"] md5.digest [OF i assms] show ?thesis
    by (simp add: u MD5_Final_def Let_def rfc5_hash_def MD5_Init_def)
qed

section \<open>Properties\<close>



end
