(* ===== verification/MD4.thy ===== *)
theory MD4 imports Digest begin

text \<open>
  MD4, crypto/fipsmodule/md4/md4.c. The registers \<open>A\<close> to \<open>D\<close> are a list of four; step \<open>i\<close> passes argument
  \<open>k\<close> in register \<open>(k - i) mod 4\<close>. The tables hold, step by step, the word index, the rotation and the
  constant of the unrolled calls. The lemmas show that this is the function of RFC 1320; its constants are the square roots of 2 and 3.
\<close>

section \<open>The code\<close>

definition MD4_Init :: HASH_CTX where
  "MD4_Init = \<lparr>hc_h = [0x67452301, 0xefcdab89, 0x98badcfe, 0x10325476],
    hc_Nl = 0, hc_Nh = 0, hc_data = replicate 64 0, hc_num = 0\<rparr>"

definition F4 :: "u32 \<Rightarrow> u32 \<Rightarrow> u32 \<Rightarrow> u32" where "F4 b c d = ((c XOR d) AND b) XOR d"
definition G4 :: "u32 \<Rightarrow> u32 \<Rightarrow> u32 \<Rightarrow> u32" where "G4 b c d = (b AND c) OR (b AND d) OR (c AND d)"
definition H4 :: "u32 \<Rightarrow> u32 \<Rightarrow> u32 \<Rightarrow> u32" where "H4 b c d = b XOR c XOR d"

definition md4_step ::
    "(u32 \<Rightarrow> u32 \<Rightarrow> u32 \<Rightarrow> u32) \<Rightarrow> u32 list \<Rightarrow> nat \<Rightarrow> nat \<Rightarrow> nat \<Rightarrow> u32 \<Rightarrow> u32 list \<Rightarrow> u32 list" where
  "md4_step f X i k s t v =
    (let a = v ! reg4 i 0; b = v ! reg4 i 1; c = v ! reg4 i 2; d = v ! reg4 i 3;
         a = a + (X ! k + t + f b c d);
         a = ROTATE a s
     in v[reg4 i 0 := a])"

definition md4_R0 :: "u32 list \<Rightarrow> nat \<times> nat \<times> nat \<times> u32 \<Rightarrow> u32 list \<Rightarrow> u32 list" where
  "md4_R0 X p v = (case p of (i, k, s, t) \<Rightarrow> md4_step F4 X i k s t v)"

definition md4_R1 :: "u32 list \<Rightarrow> nat \<times> nat \<times> nat \<times> u32 \<Rightarrow> u32 list \<Rightarrow> u32 list" where
  "md4_R1 X p v = (case p of (i, k, s, t) \<Rightarrow> md4_step G4 X i k s t v)"

definition md4_R2 :: "u32 list \<Rightarrow> nat \<times> nat \<times> nat \<times> u32 \<Rightarrow> u32 list \<Rightarrow> u32 list" where
  "md4_R2 X p v = (case p of (i, k, s, t) \<Rightarrow> md4_step H4 X i k s t v)"

definition md4_table0 :: "(nat \<times> nat \<times> u32) list" where
  "md4_table0 = [
    (0, 3, 0), (1, 7, 0), (2, 11, 0), (3, 19, 0),
    (4, 3, 0), (5, 7, 0), (6, 11, 0), (7, 19, 0),
    (8, 3, 0), (9, 7, 0), (10, 11, 0), (11, 19, 0),
    (12, 3, 0), (13, 7, 0), (14, 11, 0), (15, 19, 0)]"

definition md4_table1 :: "(nat \<times> nat \<times> u32) list" where
  "md4_table1 = [
    (0, 3, 0x5A827999), (4, 5, 0x5A827999), (8, 9, 0x5A827999), (12, 13, 0x5A827999),
    (1, 3, 0x5A827999), (5, 5, 0x5A827999), (9, 9, 0x5A827999), (13, 13, 0x5A827999),
    (2, 3, 0x5A827999), (6, 5, 0x5A827999), (10, 9, 0x5A827999), (14, 13, 0x5A827999),
    (3, 3, 0x5A827999), (7, 5, 0x5A827999), (11, 9, 0x5A827999), (15, 13, 0x5A827999)]"

definition md4_table2 :: "(nat \<times> nat \<times> u32) list" where
  "md4_table2 = [
    (0, 3, 0x6ED9EBA1), (8, 9, 0x6ED9EBA1), (4, 11, 0x6ED9EBA1), (12, 15, 0x6ED9EBA1),
    (2, 3, 0x6ED9EBA1), (10, 9, 0x6ED9EBA1), (6, 11, 0x6ED9EBA1), (14, 15, 0x6ED9EBA1),
    (1, 3, 0x6ED9EBA1), (9, 9, 0x6ED9EBA1), (5, 11, 0x6ED9EBA1), (13, 15, 0x6ED9EBA1),
    (3, 3, 0x6ED9EBA1), (11, 9, 0x6ED9EBA1), (7, 11, 0x6ED9EBA1), (15, 15, 0x6ED9EBA1)]"

text \<open>One block. Each word is loaded before the step that first uses it; no step changes a word.\<close>

definition md4_block :: "u32 list \<Rightarrow> u8 list \<Rightarrow> u32 list" where
  "md4_block state data =
    (let X = map (\<lambda>i. HOST_c2l False (drop (4 * i) data)) [0..<16];
         v = state;
         v = fold (md4_R0 X) (zip [0..<16] md4_table0) v;
         v = fold (md4_R1 X) (zip [16..<32] md4_table1) v;
         v = fold (md4_R2 X) (zip [32..<48] md4_table2) v
     in map2 (+) state v)"

fun md4_block_data_order :: "u32 list \<Rightarrow> u8 list \<Rightarrow> nat \<Rightarrow> u32 list" where
  "md4_block_data_order state data 0 = state"
| "md4_block_data_order state data (Suc num) = md4_block_data_order (md4_block state (take 64 data)) (drop 64 data) num"

definition MD4_Update :: "HASH_CTX \<Rightarrow> u8 list \<Rightarrow> HASH_CTX" where
  "MD4_Update c data = HASH_UPDATE md4_block_data_order c data"

definition MD4_Transform :: "HASH_CTX \<Rightarrow> u8 list \<Rightarrow> HASH_CTX" where
  "MD4_Transform c data = HASH_TRANSFORM md4_block_data_order c data"

definition md4_make_string :: "HASH_CTX \<Rightarrow> u8 list" where
  "md4_make_string c = HOST_l2c False (hc_h c ! 0) @ HOST_l2c False (hc_h c ! 1) @
    HOST_l2c False (hc_h c ! 2) @ HOST_l2c False (hc_h c ! 3)"

definition MD4_Final :: "HASH_CTX \<Rightarrow> u8 list \<times> HASH_CTX" where
  "MD4_Final c = (let c' = HASH_FINAL md4_block_data_order False c in (md4_make_string c', c'))"

definition MD4 :: "u8 list \<Rightarrow> u8 list" where
  "MD4 data = fst (MD4_Final (MD4_Update MD4_Init data))"

section \<open>RFC 1320\<close>

definition rfc4_f :: "nat \<Rightarrow> u32 \<Rightarrow> u32 \<Rightarrow> u32 \<Rightarrow> u32" where
  "rfc4_f i x y z =
    (if i < 16 then (x AND y) OR (NOT x AND z)
     else if i < 32 then (x AND y) OR (x AND z) OR (y AND z)
     else x XOR y XOR z)"

definition rfc4_g :: "nat \<Rightarrow> nat" where
  "rfc4_g i = (if i < 16 then i
     else if i < 32 then (i mod 4) * 4 + (i div 4) mod 4
     else [0, 8, 4, 12, 2, 10, 6, 14, 1, 9, 5, 13, 3, 11, 7, 15] ! (i - 32))"

definition rfc4_s :: "nat \<Rightarrow> nat" where
  "rfc4_s i = (if i < 16 then [3, 7, 11, 19] else if i < 32 then [3, 5, 9, 13] else [3, 9, 11, 15]) ! (i mod 4)"

definition rfc4_t :: "nat \<Rightarrow> u32" where
  "rfc4_t i = (if i < 16 then 0 else if i < 32 then 0x5A827999 else 0x6ED9EBA1)"

fun rfc4_step :: "u32 list \<Rightarrow> nat \<Rightarrow> u32 list \<Rightarrow> u32 list" where
  "rfc4_step X i [a, b, c, d] = [d, ROTATE (a + rfc4_f i b c d + X ! rfc4_g i + rfc4_t i) (rfc4_s i), b, c]"
| "rfc4_step X i s = s"

definition rfc4_compress :: "u32 list \<Rightarrow> u8 list \<Rightarrow> u32 list" where
  "rfc4_compress H block = map2 (+) H (fold (rfc4_step (le_words block)) [0..<48] H)"

section \<open>The block function is the RFC's\<close>

lemma md4_table_ok:
  "list_all (\<lambda>r. list_all (\<lambda>(i, k, s, t). k = rfc4_g i \<and> s = rfc4_s i \<and> t = rfc4_t i) r)
    [zip [0..<16] md4_table0, zip [16..<32] md4_table1, zip [32..<48] md4_table2]"
  by code_simp

lemma length_md4_step [simp]: "length (md4_step f X i k s t v) = length v"
  by (simp add: md4_step_def Let_def)

lemma view4_md4_step:
  assumes "length v = 4" and "f = rfc4_f i"
  shows "view4 (Suc i) (md4_step f X i (rfc4_g i) (rfc4_s i) (rfc4_t i) v) = rfc4_step X i (view4 i v)"
proof -
  from list_4 [OF assms(1)] obtain v0 v1 v2 v3 where v: "v = [v0, v1, v2, v3]" by blast
  have "i mod 4 \<in> {0, 1, 2, 3}" by auto
  then show ?thesis
    unfolding view4_def upt_4 reg4_Suc unfolding md4_step_def reg4_mod v assms(2)
    by (auto simp: Let_def algebra_simps)
qed

text \<open>A run of steps whose table entries are the RFC's.\<close>

lemma md4_run:
  assumes "list_all (\<lambda>(i, k, s, t). k = rfc4_g i \<and> s = rfc4_s i \<and> t = rfc4_t i) (zip [a..<b] tab)"
    and "length tab = b - a" and "a \<le> b" and "length v = 4" and "\<And>i. a \<le> i \<Longrightarrow> i < b \<Longrightarrow> f = rfc4_f i"
    and "\<And>p v. R X p v = (case p of (i, k, s, t) \<Rightarrow> md4_step f X i k s t v)"
  shows "length (fold (R X) (zip [a..<b] tab) v) = 4 \<and>
    view4 b (fold (R X) (zip [a..<b] tab) v) = fold (rfc4_step X) [a..<b] (view4 a v)"
  using assms(1-5)
proof (induction tab arbitrary: a v)
  case Nil
  then show ?case by simp
next
  case (Cons p tab)
  obtain k s t where p: "p = (k, s, t)" by (cases p) auto
  have lt: "a < b" using Cons.prems(2) by simp
  then have u: "[a..<b] = a # [Suc a..<b]" by (rule upt_conv_Cons)
  have e: "k = rfc4_g a" "s = rfc4_s a" "t = rfc4_t a" using Cons.prems(1) by (simp_all add: u p)
  let ?v = "md4_step f X a k s t v"
  have v: "view4 (Suc a) ?v = rfc4_step X a (view4 a v)"
    unfolding e using Cons.prems(4,5) lt by (intro view4_md4_step) auto
  have "length (fold (R X) (zip [Suc a..<b] tab) ?v) = 4 \<and>
    view4 b (fold (R X) (zip [Suc a..<b] tab) ?v) = fold (rfc4_step X) [Suc a..<b] (view4 (Suc a) ?v)"
    using Cons.prems lt by (intro Cons.IH) (simp_all add: u)
  moreover have "R X (a, k, s, t) v = ?v" by (simp add: assms(6))
  ultimately show ?case by (simp add: u p v)
qed

lemma md4_fun:
  "i < 16 \<Longrightarrow> F4 = rfc4_f i"
  "16 \<le> i \<Longrightarrow> i < 32 \<Longrightarrow> G4 = rfc4_f i"
  "32 \<le> i \<Longrightarrow> i < 48 \<Longrightarrow> H4 = rfc4_f i"
  by (intro ext bit_word_eqI; auto simp: F4_def G4_def H4_def rfc4_f_def bit_simps)+

lemma md4_block_rfc:
  assumes "length block = 64" and "length state = 4"
  shows "md4_block state block = rfc4_compress state block"
proof -
  let ?X = "le_words block"
  have X: "map (\<lambda>i. HOST_c2l False (drop (4 * i) block)) [0..<16] = ?X"
    using le_words_nth [OF assms(1)] by (intro nth_equalityI) simp_all
  have v0: "length state = 4" "view4 0 state = state" using assms(2) by (auto dest!: list_4 simp: view4_def upt_4 reg4_def)
  define v1 where "v1 = fold (md4_R0 ?X) (zip [0..<16] md4_table0) state"
  have v1: "length v1 = 4" "view4 16 v1 = fold (rfc4_step ?X) [0..<16] (view4 0 state)"
    using md4_run [of 0 16 md4_table0 state F4 md4_R0 ?X] md4_table_ok v0(1) md4_fun
    by (simp_all add: v1_def md4_R0_def md4_table0_def del: upt_rec_numeral)
  define v2 where "v2 = fold (md4_R1 ?X) (zip [16..<32] md4_table1) v1"
  have v2: "length v2 = 4" "view4 32 v2 = fold (rfc4_step ?X) [16..<32] (view4 16 v1)"
    using md4_run [of 16 32 md4_table1 v1 G4 md4_R1 ?X] md4_table_ok v1(1) md4_fun
    by (simp_all add: v2_def md4_R1_def md4_table1_def del: upt_rec_numeral)
  define v3 where "v3 = fold (md4_R2 ?X) (zip [32..<48] md4_table2) v2"
  have v3: "length v3 = 4" "view4 48 v3 = fold (rfc4_step ?X) [32..<48] (view4 32 v2)"
    using md4_run [of 32 48 md4_table2 v2 H4 md4_R2 ?X] md4_table_ok v2(1) md4_fun
    by (simp_all add: v3_def md4_R2_def md4_table2_def del: upt_rec_numeral)
  have u: "[0..<48] = [0..<16] @ [16..<32] @ [32..<48]"
    using upt_add_eq_append [of 0 16 16] upt_add_eq_append [of 0 32 16] by (simp del: upt_rec_numeral)
  have "view4 48 v3 = v3" using v3(1) by (auto dest!: list_4 simp: view4_def upt_4 reg4_def)
  then have "v3 = fold (rfc4_step ?X) [0..<48] state"
    unfolding u fold_append comp_apply using v0(2) v1(2) v2(2) v3(2) by (simp only:)
  moreover have "md4_block state block = map2 (+) state v3"
    unfolding md4_block_def Let_def X v3_def v2_def v1_def ..
  ultimately show ?thesis by (simp only: rfc4_compress_def)
qed

section \<open>The digest\<close>

interpretation md4: md32 md4_block_data_order False
  by unfold_locales simp_all

lemma length_rfc4_compress: "length H = 4 \<Longrightarrow> length (rfc4_compress H b) = 4"
proof -
  have "length (rfc4_step X i s) = length s" for X i s by (cases "(X, i, s)" rule: rfc4_step.cases) simp_all
  then have "length (fold (rfc4_step X) js s) = length s" for X js s by (induction js arbitrary: s) simp_all
  then show "length H = 4 \<Longrightarrow> length (rfc4_compress H b) = 4" by (simp add: rfc4_compress_def)
qed

lemma foldl_md4_rfc:
  assumes "\<forall>b \<in> set bs. length b = 64" and "length H = 4"
  shows "foldl (\<lambda>h b. md4_block_data_order h b 1) H bs = foldl rfc4_compress H bs"
  using assms
proof (induction bs arbitrary: H)
  case (Cons b bs)
  then have "md4_block_data_order H b 1 = rfc4_compress H b" by (simp add: md4_block_rfc)
  with Cons show ?case by (simp add: length_rfc4_compress)
qed simp

definition rfc4_hash :: "u8 list \<Rightarrow> u32 list" where
  "rfc4_hash m = foldl rfc4_compress [0x67452301, 0xefcdab89, 0x98badcfe, 0x10325476] (blocks 64 (md_message False m))"

lemma MD4_stream:
  assumes "list_all (\<lambda>xs. length xs < SIZE_BOUND) cs"
  shows "hc_h (snd (MD4_Final (foldl MD4_Update MD4_Init cs))) = rfc4_hash (concat cs)"
proof -
  have u: "MD4_Update = HASH_UPDATE md4_block_data_order" by (rule ext)+ (simp add: MD4_Update_def)
  have i: "hc_ok MD4_Init" "hc_num MD4_Init = 0" "bit_count MD4_Init = 0"
    by (simp_all add: MD4_Init_def hc_ok_def bit_count_def)
  have "\<forall>b \<in> set (blocks 64 m). length b = 64" for m :: "u8 list" using blocks_length by blast
  from foldl_md4_rfc [OF this, of "hc_h MD4_Init"] md4.digest [OF i assms] show ?thesis
    by (simp add: u MD4_Final_def Let_def rfc4_hash_def MD4_Init_def)
qed

section \<open>Properties\<close>

text \<open>
  However a message is cut into calls of \<open>MD4_Update\<close>, \<open>MD4_Final\<close> returns the MD4 digest of RFC 1320 of
  the whole message.
\<close>

theorem md4_is_rfc1320:
  assumes "list_all (\<lambda>xs. length xs < SIZE_BOUND) cs"
  shows "fst (MD4_Final (foldl MD4_Update MD4_Init cs)) = concat (map (\<lambda>w. rev (be_bytes 4 (unat w))) (rfc4_hash (concat cs)))"
proof -
  let ?h = "rfc4_hash (concat cs)"
  have "length ?h = 4" unfolding rfc4_hash_def by (rule length_foldl_keep [OF length_rfc4_compress]) simp_all
  with MD4_stream [OF assms] show ?thesis
    by (simp add: concat_map_4 MD4_Final_def Let_def md4_make_string_def HOST_l2c_bytes(2))
qed

theorem md4_is_rfc1320_witness: "MD4 [97] = concat (map (\<lambda>w. rev (be_bytes 4 (unat w))) (rfc4_hash [97]))"
  using md4_is_rfc1320 [of "[[97]]"] by (simp add: MD4_def SIZE_BOUND_def)

end
