(* ===== verification/SHA512.thy ===== *)
theory SHA512 imports SHA256 begin

text \<open>
  SHA-384 and SHA-512, crypto/fipsmodule/sha/sha512.c: its own collector with a 128-byte buffer and a
  128-bit bit counter, and both portable block functions, the one with rotated registers and the one
  for 32-bit x86 that slides a window \<open>F\<close> down an array. \<open>direct\<close> says whether the input can be passed
  to the block function as it is (\<open>SHA512_BLOCK_CAN_MANAGE_UNALIGNED_DATA\<close>, or the pointer is aligned) or
  is copied block by block. The lemmas show that both block functions are the compression function of
  FIPS 180-4 and that the digest of a message does not depend on how it is cut or aligned.
\<close>

section \<open>The code\<close>

record SHA512_CTX =
  sx_h :: "u64 list"
  sx_Nl :: u64
  sx_Nh :: u64
  sx_p :: "u8 list"
  sx_num :: nat
  sx_md_len :: nat

definition SHA384_DIGEST_LENGTH :: nat where
  "SHA384_DIGEST_LENGTH = 48"

definition SHA512_DIGEST_LENGTH :: nat where
  "SHA512_DIGEST_LENGTH = 64"

definition SHA384_Init :: SHA512_CTX where
  "SHA384_Init = \<lparr>sx_h = [0xcbbb9d5dc1059ed8, 0x629a292a367cd507, 0x9159015a3070dd17, 0x152fecd8f70e5939, 0x67332667ffc00b31, 0x8eb44a8768581511, 0xdb0c2e0d64f98fa7, 0x47b5481dbefa4fa4],
    sx_Nl = 0, sx_Nh = 0, sx_p = replicate 128 0, sx_num = 0, sx_md_len = SHA384_DIGEST_LENGTH\<rparr>"

definition SHA512_Init :: SHA512_CTX where
  "SHA512_Init = \<lparr>sx_h = [0x6a09e667f3bcc908, 0xbb67ae8584caa73b, 0x3c6ef372fe94f82b, 0xa54ff53a5f1d36f1, 0x510e527fade682d1, 0x9b05688c2b3e6c1f, 0x1f83d9abfb41bd6b, 0x5be0cd19137e2179],
    sx_Nl = 0, sx_Nh = 0, sx_p = replicate 128 0, sx_num = 0, sx_md_len = SHA512_DIGEST_LENGTH\<rparr>"

definition K512 :: "u64 list" where
  "K512 = concat [
    [0x428a2f98d728ae22, 0x7137449123ef65cd], [0xb5c0fbcfec4d3b2f, 0xe9b5dba58189dbbc],
    [0x3956c25bf348b538, 0x59f111f1b605d019], [0x923f82a4af194f9b, 0xab1c5ed5da6d8118],
    [0xd807aa98a3030242, 0x12835b0145706fbe], [0x243185be4ee4b28c, 0x550c7dc3d5ffb4e2],
    [0x72be5d74f27b896f, 0x80deb1fe3b1696b1], [0x9bdc06a725c71235, 0xc19bf174cf692694],
    [0xe49b69c19ef14ad2, 0xefbe4786384f25e3], [0x0fc19dc68b8cd5b5, 0x240ca1cc77ac9c65],
    [0x2de92c6f592b0275, 0x4a7484aa6ea6e483], [0x5cb0a9dcbd41fbd4, 0x76f988da831153b5],
    [0x983e5152ee66dfab, 0xa831c66d2db43210], [0xb00327c898fb213f, 0xbf597fc7beef0ee4],
    [0xc6e00bf33da88fc2, 0xd5a79147930aa725], [0x06ca6351e003826f, 0x142929670a0e6e70],
    [0x27b70a8546d22ffc, 0x2e1b21385c26c926], [0x4d2c6dfc5ac42aed, 0x53380d139d95b3df],
    [0x650a73548baf63de, 0x766a0abb3c77b2a8], [0x81c2c92e47edaee6, 0x92722c851482353b],
    [0xa2bfe8a14cf10364, 0xa81a664bbc423001], [0xc24b8b70d0f89791, 0xc76c51a30654be30],
    [0xd192e819d6ef5218, 0xd69906245565a910], [0xf40e35855771202a, 0x106aa07032bbd1b8],
    [0x19a4c116b8d2d0c8, 0x1e376c085141ab53], [0x2748774cdf8eeb99, 0x34b0bcb5e19b48a8],
    [0x391c0cb3c5c95a63, 0x4ed8aa4ae3418acb], [0x5b9cca4f7763e373, 0x682e6ff3d6b2b8a3],
    [0x748f82ee5defb2fc, 0x78a5636f43172f60], [0x84c87814a1f0ab72, 0x8cc702081a6439ec],
    [0x90befffa23631e28, 0xa4506cebde82bde9], [0xbef9a3f7b2c67915, 0xc67178f2e372532b],
    [0xca273eceea26619c, 0xd186b8c721c0c207], [0xeada7dd6cde0eb1e, 0xf57d4f7fee6ed178],
    [0x06f067aa72176fba, 0x0a637dc5a2c898a6], [0x113f9804bef90dae, 0x1b710b35131c471b],
    [0x28db77f523047d84, 0x32caab7b40c72493], [0x3c9ebe0a15c9bebc, 0x431d67c49c100d4c],
    [0x4cc5d4becb3e42b6, 0x597f299cfc657e2a], [0x5fcb6fab3ad6faec, 0x6c44198c4a475817]]"

text \<open>\<open>PULL64\<close> by the macro \<open>B\<close>: the big-endian word at the head of a byte string.\<close>

fun PULL64 :: "u8 list \<Rightarrow> u64" where
  "PULL64 (b0 # b1 # b2 # b3 # b4 # b5 # b6 # b7 # _) =
    push_bit 56 (ucast b0) OR push_bit 48 (ucast b1) OR push_bit 40 (ucast b2) OR push_bit 32 (ucast b3) OR
    push_bit 24 (ucast b4) OR push_bit 16 (ucast b5) OR push_bit 8 (ucast b6) OR ucast b7"
| "PULL64 _ = 0"

definition ROTR :: "u64 \<Rightarrow> nat \<Rightarrow> u64" where
  "ROTR x s = drop_bit s x OR push_bit (64 - s) x"

definition Sigma0_512 :: "u64 \<Rightarrow> u64" where
  "Sigma0_512 x = ROTR x 28 XOR ROTR x 34 XOR ROTR x 39"

definition Sigma1_512 :: "u64 \<Rightarrow> u64" where
  "Sigma1_512 x = ROTR x 14 XOR ROTR x 18 XOR ROTR x 41"

definition sigma0_512 :: "u64 \<Rightarrow> u64" where
  "sigma0_512 x = ROTR x 1 XOR ROTR x 8 XOR drop_bit 7 x"

definition sigma1_512 :: "u64 \<Rightarrow> u64" where
  "sigma1_512 x = ROTR x 19 XOR ROTR x 61 XOR drop_bit 6 x"

definition Ch_512 :: "u64 \<Rightarrow> u64 \<Rightarrow> u64 \<Rightarrow> u64" where
  "Ch_512 x y z = (x AND y) XOR (NOT x AND z)"

definition Maj_512 :: "u64 \<Rightarrow> u64 \<Rightarrow> u64 \<Rightarrow> u64" where
  "Maj_512 x y z = (x AND y) XOR (x AND z) XOR (y AND z)"

text \<open>\<open>ROUND_00_15\<close>; the call for round \<open>i\<close> names register \<open>reg i k\<close> as argument \<open>k\<close>.\<close>

definition ROUND_00_15_512 :: "nat \<Rightarrow> u64 \<Rightarrow> u64 list \<Rightarrow> u64 list" where
  "ROUND_00_15_512 i T1 v =
    (let a = v ! reg i 0; b = v ! reg i 1; c = v ! reg i 2; d = v ! reg i 3;
         e = v ! reg i 4; f = v ! reg i 5; g = v ! reg i 6; h = v ! reg i 7;
         T1 = T1 + (h + Sigma1_512 e + Ch_512 e f g + K512 ! i);
         h = Sigma0_512 a + Maj_512 a b c;
         d = d + T1;
         h = h + T1
     in v[reg i 3 := d, reg i 7 := h])"

text \<open>The loop variable \<open>i\<close> is a multiple of 16, so the registers of call \<open>j\<close> are those of round \<open>i + j\<close>.\<close>

definition ROUND_16_80 :: "nat \<Rightarrow> nat \<Rightarrow> u64 list \<times> u64 list \<Rightarrow> u64 list \<times> u64 list" where
  "ROUND_16_80 i j s =
    (case s of (v, X) \<Rightarrow>
      (let s0 = sigma0_512 (X ! ((j + 1) mod 16));
           s1 = sigma1_512 (X ! ((j + 14) mod 16));
           T1 = X ! (j mod 16) + (s0 + s1 + X ! ((j + 9) mod 16))
       in (ROUND_00_15_512 (i + j) T1 v, X[j mod 16 := T1])))"

definition round_load_512 :: "u8 list \<Rightarrow> nat \<Rightarrow> u64 list \<times> u64 list \<Rightarrow> u64 list \<times> u64 list" where
  "round_load_512 W i s =
    (case s of (v, X) \<Rightarrow> (let T1 = PULL64 (drop (8 * i) W) in (ROUND_00_15_512 i T1 v, X[i := T1])))"

definition sha512_block :: "u64 list \<Rightarrow> u8 list \<Rightarrow> u64 list" where
  "sha512_block state W =
    (let s = fold (round_load_512 W) [0..<16] (state, replicate 16 0);
         (v, X) = fold (\<lambda>i s. fold (ROUND_16_80 i) [0..<16] s) [16, 32, 48, 64] s
     in map2 (+) state v)"

fun sha512_block_data_order :: "u64 list \<Rightarrow> u8 list \<Rightarrow> nat \<Rightarrow> u64 list" where
  "sha512_block_data_order state W 0 = state"
| "sha512_block_data_order state W (Suc num) =
    sha512_block_data_order (sha512_block state (take 128 W)) (drop 128 W) num"

text \<open>
  The 32-bit x86 variant. \<open>X\<close> has 89 words, \<open>F\<close> is the index its pointer stands for, and the loop state is
  \<open>(X, F, A, E)\<close>. The words of \<open>X\<close> are not initialised in the source and each is written before it is read.
\<close>

type_synonym i386_state = "u64 list \<times> nat \<times> u64 \<times> u64"

definition i386_round :: "nat \<Rightarrow> u64 \<Rightarrow> i386_state \<Rightarrow> i386_state" where
  "i386_round i T s =
    (case s of (X, F, A, E) \<Rightarrow>
      (let X = X[F := A, F + 4 := E, F + 8 := T];
           T = T + (X ! (F + 7) + Sigma1_512 E + Ch_512 E (X ! (F + 5)) (X ! (F + 6)) + K512 ! i);
           E' = X ! (F + 3) + T;
           A' = T + Sigma0_512 A + Maj_512 A (X ! (F + 1)) (X ! (F + 2))
       in (X, F - 1, A', E')))"

definition i386_load :: "u8 list \<Rightarrow> nat \<Rightarrow> i386_state \<Rightarrow> i386_state" where
  "i386_load W i s = i386_round i (PULL64 (drop (8 * i) W)) s"

definition i386_expand :: "nat \<Rightarrow> i386_state \<Rightarrow> i386_state" where
  "i386_expand i s =
    (case s of (X, F, A, E) \<Rightarrow>
      (let T = sigma0_512 (X ! (F + 8 + 16 - 1));
           T = T + sigma1_512 (X ! (F + 8 + 16 - 14));
           T = T + (X ! (F + 8 + 16) + X ! (F + 8 + 16 - 9))
       in i386_round i T s))"

definition sha512_block_i386 :: "u64 list \<Rightarrow> u8 list \<Rightarrow> u64 list" where
  "sha512_block_i386 state W =
    (let X = (replicate 89 0)[81 := state ! 1, 82 := state ! 2, 83 := state ! 3, 85 := state ! 5, 86 := state ! 6, 87 := state ! 7];
         s = fold (i386_load W) [0..<16] (X, 80, state ! 0, state ! 4);
         (X, F, A, E) = fold i386_expand [16..<80] s
     in [state ! 0 + A, state ! 1 + X ! (F + 1), state ! 2 + X ! (F + 2), state ! 3 + X ! (F + 3),
         state ! 4 + E, state ! 5 + X ! (F + 5), state ! 6 + X ! (F + 6), state ! 7 + X ! (F + 7)])"

definition SHA512_Transform :: "SHA512_CTX \<Rightarrow> u8 list \<Rightarrow> bool \<Rightarrow> SHA512_CTX" where
  "SHA512_Transform c block direct =
    (let c = (if direct then c else c\<lparr>sx_p := take 128 block\<rparr>);
         block = (if direct then block else sx_p c)
     in c\<lparr>sx_h := sha512_block_data_order (sx_h c) block 1\<rparr>)"

text \<open>The parts of \<open>SHA512_Update\<close>: the bit counter, the copying loop, and what follows a full buffer.\<close>

definition sha512_count :: "SHA512_CTX \<Rightarrow> nat \<Rightarrow> SHA512_CTX" where
  "sha512_count c len =
    (let l = sx_Nl c + push_bit 3 (word_of_nat len);
         c1 = (if l < sx_Nl c then c\<lparr>sx_Nh := sx_Nh c + 1\<rparr> else c)
     in c1\<lparr>sx_Nh := sx_Nh c1 + word_of_nat (len div 2 ^ 61), sx_Nl := l\<rparr>)"

function sha512_copy_loop :: "SHA512_CTX \<Rightarrow> u8 list \<Rightarrow> SHA512_CTX \<times> u8 list" where
  "sha512_copy_loop c data =
    (if 128 \<le> length data
     then let c = c\<lparr>sx_p := take 128 data\<rparr>
          in sha512_copy_loop (c\<lparr>sx_h := sha512_block_data_order (sx_h c) (sx_p c) 1\<rparr>) (drop 128 data)
     else (c, data))"
  by pat_completeness auto
termination by (relation "measure (\<lambda>(c, data). length data)") auto

declare sha512_copy_loop.simps [simp del]

definition sha512_rest :: "bool \<Rightarrow> SHA512_CTX \<Rightarrow> u8 list \<Rightarrow> SHA512_CTX" where
  "sha512_rest direct c data =
    (let (c, data) =
       (if length data \<ge> 128
        then if direct
             then (c\<lparr>sx_h := sha512_block_data_order (sx_h c) data (length data div 128)\<rparr>, drop (length data - length data mod 128) data)
             else sha512_copy_loop c data
        else (c, data))
     in if length data \<noteq> 0 then c\<lparr>sx_p := store_at 0 data (sx_p c), sx_num := length data\<rparr> else c)"

definition SHA512_Update :: "bool \<Rightarrow> SHA512_CTX \<Rightarrow> u8 list \<Rightarrow> SHA512_CTX" where
  "SHA512_Update direct c0 data =
    (if length data = 0 then c0
     else let c = sha512_count c0 (length data)
     in if sx_num c \<noteq> 0
        then let n = 128 - sx_num c
             in if length data < n
                then c\<lparr>sx_p := store_at (sx_num c) data (sx_p c), sx_num := sx_num c + length data\<rparr>
                else let c = c\<lparr>sx_p := store_at (sx_num c) (take n data) (sx_p c), sx_num := 0\<rparr>
                     in sha512_rest direct (c\<lparr>sx_h := sha512_block_data_order (sx_h c) (sx_p c) 1\<rparr>) (drop n data)
        else sha512_rest direct c data)"

text \<open>A 64-bit word, most significant byte first, as the stores of \<open>SHA512_Final\<close> write it.\<close>

definition put64 :: "u64 \<Rightarrow> u8 list" where
  "put64 t = [ucast (drop_bit 56 t), ucast (drop_bit 48 t), ucast (drop_bit 40 t), ucast (drop_bit 32 t),
    ucast (drop_bit 24 t), ucast (drop_bit 16 t), ucast (drop_bit 8 t), ucast t]"

text \<open>\<open>SHA512_Final\<close> up to the output: the padding and the last blocks.\<close>

definition sha512_finish :: "SHA512_CTX \<Rightarrow> SHA512_CTX" where
  "sha512_finish sha =
    (let p = (sx_p sha)[sx_num sha := 0x80]; n = sx_num sha + 1;
         (p, n, h) =
           (if n > 128 - 16
            then let p = store_at n (replicate (128 - n) 0) p in (p, 0, sha512_block_data_order (sx_h sha) p 1)
            else (p, n, sx_h sha));
         p = store_at n (replicate (128 - 16 - n) 0) p;
         p = store_at (128 - 16) (put64 (sx_Nh sha) @ put64 (sx_Nl sha)) p
     in sha\<lparr>sx_p := p, sx_h := sha512_block_data_order h p 1\<rparr>)"

definition SHA512_Final :: "bool \<Rightarrow> SHA512_CTX \<Rightarrow> u8 list option \<times> SHA512_CTX" where
  "SHA512_Final md_null sha =
    (let sha = sha512_finish sha
     in (if md_null then None
         else if sx_md_len sha = SHA384_DIGEST_LENGTH then Some (concat (map put64 (take (SHA384_DIGEST_LENGTH div 8) (sx_h sha))))
         else if sx_md_len sha = SHA512_DIGEST_LENGTH then Some (concat (map put64 (take (SHA512_DIGEST_LENGTH div 8) (sx_h sha))))
         else None, sha))"

definition SHA384_Update :: "bool \<Rightarrow> SHA512_CTX \<Rightarrow> u8 list \<Rightarrow> SHA512_CTX" where
  "SHA384_Update direct sha data = SHA512_Update direct sha data"

definition SHA384_Final :: "bool \<Rightarrow> SHA512_CTX \<Rightarrow> u8 list option \<times> SHA512_CTX" where
  "SHA384_Final md_null sha = SHA512_Final md_null sha"

definition SHA384 :: "bool \<Rightarrow> u8 list \<Rightarrow> u8 list option" where
  "SHA384 direct data = fst (SHA384_Final False (SHA384_Update direct SHA384_Init data))"

definition SHA512 :: "bool \<Rightarrow> u8 list \<Rightarrow> u8 list option" where
  "SHA512 direct data = fst (SHA512_Final False (SHA512_Update direct SHA512_Init data))"

section \<open>FIPS 180-4\<close>

definition fips512_words :: "u8 list \<Rightarrow> u64 list" where
  "fips512_words block = map (\<lambda>i. word_of_nat (be_val (take 8 (drop (8 * i) block)))) [0..<16]"

definition fips512_schedule_step :: "u64 list \<Rightarrow> u64 list" where
  "fips512_schedule_step W =
    (let t = length W
     in W @ [sigma1_512 (W ! (t - 2)) + W ! (t - 7) + sigma0_512 (W ! (t - 15)) + W ! (t - 16)])"

definition fips512_schedule :: "u8 list \<Rightarrow> u64 list" where
  "fips512_schedule block = (fips512_schedule_step ^^ 64) (fips512_words block)"

fun fips512_round :: "u64 \<Rightarrow> u64 \<Rightarrow> u64 list \<Rightarrow> u64 list" where
  "fips512_round K W [a, b, c, d, e, f, g, h] =
    (let T1 = h + Sigma1_512 e + Ch_512 e f g + K + W; T2 = Sigma0_512 a + Maj_512 a b c
     in [T1 + T2, a, b, c, d + T1, e, f, g])"
| "fips512_round K W s = s"

definition fips512_rounds :: "u64 list \<Rightarrow> nat \<Rightarrow> u64 list \<Rightarrow> u64 list" where
  "fips512_rounds W n s = fold (\<lambda>t s. fips512_round (K512 ! t) (W ! t) s) [0..<n] s"

definition fips512_compress :: "u64 list \<Rightarrow> u8 list \<Rightarrow> u64 list" where
  "fips512_compress H block = map2 (+) H (fips512_rounds (fips512_schedule block) 80 H)"

section \<open>The block functions are the compression function\<close>

lemma PULL64_val:
  "PULL64 (b0 # b1 # b2 # b3 # b4 # b5 # b6 # b7 # rest) = word_of_nat (be_val [b0, b1, b2, b3, b4, b5, b6, b7])"
  using foldl_shl8 [of "0 :: u64" "[b0, b1, b2, b3, b4, b5, b6, b7]"]
  by (simp add: push_bit_or or.assoc)

lemma list_8_rest: "8 \<le> length xs \<Longrightarrow> \<exists>a b c d e f g h rest. xs = a # b # c # d # e # f # g # h # rest"
  by (auto simp: Suc_le_length_iff numeral_eq_Suc)

lemma fips512_words_nth:
  assumes "length block = 128" and "i < 16"
  shows "PULL64 (drop (8 * i) block) = fips512_words block ! i"
proof -
  have "8 \<le> length (drop (8 * i) block)" using assms by simp
  from list_8_rest [OF this] obtain a b c d e f g h rest where
    "drop (8 * i) block = a # b # c # d # e # f # g # h # rest" by blast
  then show ?thesis using assms(2) by (simp add: fips512_words_def PULL64_val del: PULL64.simps)
qed

lemma length_fips512_words [simp]: "length (fips512_words block) = 16"
  by (simp add: fips512_words_def)

lemma schedule512_iter:
  assumes "length W0 = 16"
  defines "W n \<equiv> (fips512_schedule_step ^^ n) W0"
  shows "length (W n) = 16 + n" and "t < 16 \<Longrightarrow> W n ! t = W0 ! t"
    and "16 \<le> t \<Longrightarrow> t < 16 + n \<Longrightarrow>
      W n ! t = sigma1_512 (W n ! (t - 2)) + W n ! (t - 7) + sigma0_512 (W n ! (t - 15)) + W n ! (t - 16)"
proof -
  have len: "length (W n) = 16 + n" for n
    by (induction n) (simp_all add: W_def assms(1) fips512_schedule_step_def Let_def)
  have suc: "W (Suc n) ! k = W n ! k" if "k < 16 + n" for n k
    using that len [of n] by (simp add: W_def fips512_schedule_step_def Let_def nth_append)
  show "length (W n) = 16 + n" by (rule len)
  show "t < 16 \<Longrightarrow> W n ! t = W0 ! t" by (induction n) (simp_all add: suc, simp add: W_def)
  show "16 \<le> t \<Longrightarrow> t < 16 + n \<Longrightarrow>
      W n ! t = sigma1_512 (W n ! (t - 2)) + W n ! (t - 7) + sigma0_512 (W n ! (t - 15)) + W n ! (t - 16)"
  proof (induction n)
    case (Suc n)
    show ?case
    proof (cases "t < 16 + n")
      case False
      then have t: "t = 16 + n" using Suc.prems by simp
      have "W (Suc n) ! t = sigma1_512 (W n ! (t - 2)) + W n ! (t - 7) + sigma0_512 (W n ! (t - 15)) + W n ! (t - 16)"
        using len [of n] t by (simp add: W_def fips512_schedule_step_def Let_def nth_append)
      then show ?thesis using t by (simp add: suc)
    qed (use Suc suc in simp)
  qed simp
qed

lemma fips512_schedule_props:
  fixes block :: "u8 list"
  defines "W \<equiv> fips512_schedule block"
  shows "length W = 80" and "t < 16 \<Longrightarrow> W ! t = fips512_words block ! t"
    and "16 \<le> t \<Longrightarrow> t < 80 \<Longrightarrow>
      W ! t = sigma1_512 (W ! (t - 2)) + W ! (t - 7) + sigma0_512 (W ! (t - 15)) + W ! (t - 16)"
  unfolding W_def fips512_schedule_def
  using schedule512_iter(1) [of "fips512_words block" 64] schedule512_iter(2) [of "fips512_words block" t 64]
    schedule512_iter(3) [of "fips512_words block" t 64] by simp_all

lemma schedule_load:
  "length block = 128 \<Longrightarrow> i < 16 \<Longrightarrow> PULL64 (drop (8 * i) block) = fips512_schedule block ! i"
  by (simp add: fips512_words_nth fips512_schedule_props(2))

lemma fips512_rounds_Suc: "fips512_rounds W (Suc n) s = fips512_round (K512 ! n) (W ! n) (fips512_rounds W n s)"
  by (simp add: fips512_rounds_def)

subsection \<open>Rotated registers\<close>

lemma length_ROUND_512 [simp]: "length (ROUND_00_15_512 i T1 v) = length v"
  by (simp add: ROUND_00_15_512_def Let_def)

lemma view_round_512:
  assumes "length v = 8"
  shows "view (Suc i) (ROUND_00_15_512 i T1 v) = fips512_round (K512 ! i) T1 (view i v)"
proof -
  from list_8 [OF assms] obtain v0 v1 v2 v3 v4 v5 v6 v7 where v: "v = [v0, v1, v2, v3, v4, v5, v6, v7]" by blast
  have "i mod 8 \<in> {0, 1, 2, 3, 4, 5, 6, 7}" by auto
  then show ?thesis
    unfolding view_def upt_8 reg_Suc unfolding ROUND_00_15_512_def reg_mod v
    by (auto simp: Let_def algebra_simps)
qed

text \<open>What holds of the registers and the window before round \<open>n\<close>.\<close>

definition sha512_sim :: "u8 list \<Rightarrow> u64 list \<Rightarrow> nat \<Rightarrow> u64 list \<times> u64 list \<Rightarrow> bool" where
  "sha512_sim block state n s \<longleftrightarrow>
    length (fst s) = 8 \<and> window (fips512_schedule block) n (snd s) \<and>
    view n (fst s) = fips512_rounds (fips512_schedule block) n state"

lemma window_load:
  assumes "window W n X" and "n < 16"
  shows "window W (Suc n) (X[n := W ! n])"
  using assms by (auto simp: window_def nth_list_update less_Suc_eq)

lemma sim_load_512:
  assumes "length block = 128" and "sha512_sim block state n s" and "n < 16"
  shows "sha512_sim block state (Suc n) (round_load_512 block n s)"
  using assms window_load [of "fips512_schedule block" n "snd s"]
  by (simp add: sha512_sim_def round_load_512_def case_prod_beta Let_def schedule_load view_round_512 fips512_rounds_Suc)

lemma sim_round:
  assumes "sha512_sim block state (i + j) s" and "i mod 16 = 0" and "16 \<le> i + j" and "i + j < 80"
  shows "sha512_sim block state (Suc (i + j)) (ROUND_16_80 i j s)"
proof -
  let ?t = "i + j" and ?X = "snd s" and ?W = "fips512_schedule block"
  have x: "?X ! (k mod 16) = ?W ! k" if "k < ?t" "?t \<le> k + 16" for k
    using assms(1) that by (simp add: sha512_sim_def window_def)
  have e: "(j + c) mod 16 = (?t - (16 - c)) mod 16" if "c \<le> 15" for c
  proof -
    have "?t + c = ?t - (16 - c) + 16" using assms(3) that by simp
    then have "(?t + c) mod 16 = (?t - (16 - c)) mod 16" by (metis mod_add_self2)
    moreover have "(?t + c) mod 16 = (j + c) mod 16" using assms(2) by (metis add.assoc add_0 mod_add_left_eq)
    ultimately show ?thesis by simp
  qed
  have m: "j mod 16 = (?t - 16) mod 16" "(j + 1) mod 16 = (?t - 15) mod 16" "(j + 14) mod 16 = (?t - 2) mod 16"
    "(j + 9) mod 16 = (?t - 7) mod 16" using e [of 0] e [of 1] e [of 14] e [of 9] by simp_all
  have jt: "j mod 16 = ?t mod 16" using assms(2) by (metis add_0 mod_add_left_eq)
  have T1: "?X ! (j mod 16) + (sigma0_512 (?X ! ((j + 1) mod 16)) + sigma1_512 (?X ! ((j + 14) mod 16)) + ?X ! ((j + 9) mod 16)) = ?W ! ?t"
    unfolding m using x [of "?t - 16"] x [of "?t - 15"] x [of "?t - 2"] x [of "?t - 7"] assms(3,4)
      fips512_schedule_props(3) [of ?t block] by (simp add: algebra_simps)
  have s: "ROUND_16_80 i j s = (ROUND_00_15_512 ?t (?W ! ?t) (fst s), ?X[?t mod 16 := ?W ! ?t])"
    using T1 jt by (simp add: ROUND_16_80_def case_prod_beta Let_def)
  show ?thesis unfolding s using assms(1) window_step [of ?W ?t ?X] assms(3)
    by (simp add: sha512_sim_def view_round_512 fips512_rounds_Suc)
qed

lemma sim_rounds:
  assumes "sha512_sim block state i s" and "i mod 16 = 0" and "16 \<le> i" and "i + n \<le> 80"
  shows "sha512_sim block state (i + n) (fold (ROUND_16_80 i) [0..<n] s)"
  using assms(4)
proof (induction n)
  case (Suc n)
  then show ?case using sim_round [of block state i n] assms(2,3) by simp
qed (use assms(1) in simp)

lemma view_512: "length v = 8 \<Longrightarrow> n mod 8 = 0 \<Longrightarrow> view n v = v"
  unfolding view_def reg_mod by (auto dest!: list_8 simp: upt_8)

lemma sha512_block_fips:
  assumes "length block = 128" and "length state = 8"
  shows "sha512_block state block = fips512_compress state block"
proof -
  let ?f = "\<lambda>i s. fold (ROUND_16_80 i) [0..<16] s"
  have s0: "sha512_sim block state 0 (state, replicate 16 0)"
    using assms(2) by (simp add: sha512_sim_def window_def fips512_rounds_def view_512)
  have "sha512_sim block state n (fold (round_load_512 block) [0..<n] (state, replicate 16 0))" if "n \<le> 16" for n
    using that by (induction n) (simp_all add: s0 sim_load_512 [OF assms(1)])
  from this [of 16] have "sha512_sim block state 16 (fold (round_load_512 block) [0..<16] (state, replicate 16 0))"
    (is "sha512_sim _ _ _ ?s") by simp
  from sim_rounds [OF this, of 16] have "sha512_sim block state 32 (?f 16 ?s)" by simp
  from sim_rounds [OF this, of 16] have "sha512_sim block state 48 (?f 32 (?f 16 ?s))" by simp
  from sim_rounds [OF this, of 16] have "sha512_sim block state 64 (?f 48 (?f 32 (?f 16 ?s)))" by simp
  from sim_rounds [OF this, of 16] have "sha512_sim block state 80 (?f 64 (?f 48 (?f 32 (?f 16 ?s))))" (is "sha512_sim _ _ _ ?r")
    by simp
  then have "fst ?r = fips512_rounds (fips512_schedule block) 80 state"
    using view_512 [of "fst ?r" 80] by (simp add: sha512_sim_def)
  moreover have "sha512_block state block = map2 (+) state (fst ?r)"
    unfolding sha512_block_def Let_def case_prod_beta fold.simps o_def id_def ..
  ultimately show ?thesis by (simp only: fips512_compress_def)
qed

subsection \<open>The sliding window of the 32-bit variant\<close>

text \<open>
  Before round \<open>n\<close> the pointer stands at \<open>80 - n\<close>, the registers other than \<open>A\<close> and \<open>E\<close> are in the seven
  words after it, and schedule word \<open>i\<close> is at \<open>88 - i\<close>.
\<close>

definition i386_regs :: "i386_state \<Rightarrow> u64 list" where
  "i386_regs s = (case s of (X, F, A, E) \<Rightarrow>
    [A, X ! (F + 1), X ! (F + 2), X ! (F + 3), E, X ! (F + 5), X ! (F + 6), X ! (F + 7)])"

definition i386_sim :: "u8 list \<Rightarrow> u64 list \<Rightarrow> nat \<Rightarrow> i386_state \<Rightarrow> bool" where
  "i386_sim block state n s \<longleftrightarrow> (case s of (X, F, A, E) \<Rightarrow>
    length X = 89 \<and> F + n = 80 \<and> (\<forall>i < n. X ! (88 - i) = fips512_schedule block ! i) \<and>
    i386_regs s = fips512_rounds (fips512_schedule block) n state)"

lemma i386_round_regs:
  assumes "s = (X, F, A, E)" and "F + 8 < length X" and "0 < F"
  shows "i386_regs (i386_round n T s) = fips512_round (K512 ! n) T (i386_regs s)"
proof -
  obtain G where F: "F = Suc G" using assms(3) gr0_implies_Suc by blast
  show ?thesis using assms(2)
    unfolding assms(1) i386_round_def i386_regs_def F by (simp add: Let_def nth_list_update algebra_simps eval_nat_numeral)
qed

lemma i386_round_sim:
  assumes "i386_sim block state n s" and "n < 80"
  shows "i386_sim block state (Suc n) (i386_round n (fips512_schedule block ! n) s)"
proof -
  obtain X F A E where s: "s = (X, F, A, E)" by (cases s) auto
  let ?W = "fips512_schedule block"
  have X: "length X = 89" "F + n = 80" "\<forall>i < n. X ! (88 - i) = ?W ! i" "i386_regs s = fips512_rounds ?W n state"
    using assms(1) by (simp_all add: i386_sim_def s)
  have r: "i386_regs (i386_round n (?W ! n) s) = fips512_rounds ?W (Suc n) state"
    using i386_round_regs [OF s, of n "?W ! n"] X assms(2) by (simp add: fips512_rounds_Suc)
  have f: "F = 80 - n" using X(2) by simp
  have "X[F := A, F + 4 := E, F + 8 := ?W ! n] ! (88 - i) = ?W ! i" if "i < Suc n" for i
  proof (cases "i = n")
    case False
    then have "i < n" "88 - i \<noteq> F" "88 - i \<noteq> F + 4" "88 - i \<noteq> F + 8" using that f assms(2) by auto
    with X show ?thesis by simp
  qed (use X assms(2) in \<open>simp add: f\<close>)
  with r X assms(2) show ?thesis unfolding i386_sim_def s i386_round_def by (simp add: Let_def)
qed

lemma i386_load_sim:
  "length block = 128 \<Longrightarrow> i386_sim block state n s \<Longrightarrow> n < 16 \<Longrightarrow> i386_sim block state (Suc n) (i386_load block n s)"
  by (simp add: i386_load_def schedule_load i386_round_sim)

lemma i386_expand_sim:
  assumes "i386_sim block state n s" and "16 \<le> n" and "n < 80"
  shows "i386_sim block state (Suc n) (i386_expand n s)"
proof -
  obtain X F A E where s: "s = (X, F, A, E)" by (cases s) auto
  let ?W = "fips512_schedule block"
  have F: "F = 80 - n" and X: "\<forall>i < n. X ! (88 - i) = ?W ! i" using assms(1) by (auto simp: i386_sim_def s)
  have "X ! (F + 24 - c) = ?W ! (n - (16 - c))" if "c < 16" for c
  proof -
    have "F + 24 - c = 88 - (n - (16 - c))" using F that assms(2,3) by simp
    moreover have "n - (16 - c) < n" using that assms(2) by simp
    ultimately show ?thesis using X by (simp only: simp_thms)
  qed
  note x = this [of 0] this [of 1] this [of 9] this [of 14]
  have "i386_expand n s = i386_round n (?W ! n) s"
    using x fips512_schedule_props(3) [OF assms(2,3), of block] by (simp add: i386_expand_def s Let_def algebra_simps)
  with i386_round_sim [OF assms(1,3)] show ?thesis by simp
qed

lemma fold_upt_sim:
  assumes "P m s" and "\<And>n s. P n s \<Longrightarrow> m \<le> n \<Longrightarrow> n < k \<Longrightarrow> P (Suc n) (f n s)" and "m \<le> k"
  shows "P k (fold f [m..<k] s)"
  using assms(3,2)
proof (induction k rule: dec_induct)
  case (step n)
  then have "P n (fold f [m..<n] s)" by simp
  with step show ?case by simp
qed (use assms(1) in simp)

lemma sha512_block_i386_fips:
  assumes "length block = 128" and "length state = 8"
  shows "sha512_block_i386 state block = fips512_compress state block"
proof -
  obtain a b c d e f g h where st: "state = [a, b, c, d, e, f, g, h]" using list_8 [OF assms(2)] by blast
  let ?X = "(replicate 89 0)[81 := state ! 1, 82 := state ! 2, 83 := state ! 3, 85 := state ! 5, 86 := state ! 6, 87 := state ! 7]"
  let ?s = "fold (i386_load block) [0..<16] (?X, 80, state ! 0, state ! 4)"
  have "i386_sim block state 0 (?X, 80, state ! 0, state ! 4)"
    by (simp add: i386_sim_def i386_regs_def fips512_rounds_def nth_list_update st)
  then have "i386_sim block state 16 ?s" by (rule fold_upt_sim) (simp_all add: i386_load_sim assms(1))
  then have r: "i386_sim block state 80 (fold i386_expand [16..<80] ?s)"
    by (rule fold_upt_sim) (simp_all add: i386_expand_sim)
  obtain X F A E where x: "fold i386_expand [16..<80] ?s = (X, F, A, E)" by (cases "fold i386_expand [16..<80] ?s") auto
  have "fips512_rounds (fips512_schedule block) 80 state = i386_regs (X, F, A, E)"
    using r unfolding x by (simp only: i386_sim_def prod.case)
  moreover have "sha512_block_i386 state block = map2 (+) state (i386_regs (X, F, A, E))"
    unfolding sha512_block_i386_def Let_def x by (simp add: st i386_regs_def)
  ultimately show ?thesis by (simp only: fips512_compress_def)
qed

section \<open>Updates and padding\<close>

definition sx_ok :: "SHA512_CTX \<Rightarrow> bool" where
  "sx_ok c \<longleftrightarrow> length (sx_p c) = 128 \<and> sx_num c < 128"

definition sx_pending :: "SHA512_CTX \<Rightarrow> u8 list" where
  "sx_pending c = take (sx_num c) (sx_p c)"

definition bit_count_512 :: "SHA512_CTX \<Rightarrow> nat" where
  "bit_count_512 c = unat (sx_Nh c) * 2 ^ 64 + unat (sx_Nl c)"

abbreviation absorb512 :: "u64 list \<Rightarrow> u8 list \<Rightarrow> u64 list" where
  "absorb512 h b \<equiv> sha512_block_data_order h b 1"

lemma length_sx_pending: "sx_ok c \<Longrightarrow> length (sx_pending c) = sx_num c"
  by (simp add: sx_ok_def sx_pending_def)

lemma absorb512_take: "absorb512 h (take 128 d) = absorb512 h d"
  by simp

lemma blk512_blocks: "sha512_block_data_order h d (length d div 128) = foldl absorb512 h (blocks 128 d)"
proof (induction "length d" arbitrary: h d rule: less_induct)
  case less
  show ?case
  proof (cases "128 \<le> length d")
    case True
    then have d: "length d div 128 = Suc (length (drop 128 d) div 128)" by (simp add: div_if)
    have "length (drop 128 d) < length d" using True by simp
    from less [OF this] show ?thesis unfolding d using True by (simp add: blocks_step)
  qed simp
qed

lemma copy_loop_spec:
  assumes "length (sx_p c) = 128" and "sha512_copy_loop c data = (c', rest)"
  shows "rest = tail_of 128 data" and "sx_h c' = foldl absorb512 (sx_h c) (blocks 128 data)"
    and "length (sx_p c') = 128" and "sx_num c' = sx_num c" and "sx_Nl c' = sx_Nl c" and "sx_Nh c' = sx_Nh c"
    and "sx_md_len c' = sx_md_len c"
proof -
  have "rest = tail_of 128 data \<and> sx_h c' = foldl absorb512 (sx_h c) (blocks 128 data) \<and> length (sx_p c') = 128 \<and>
    sx_num c' = sx_num c \<and> sx_Nl c' = sx_Nl c \<and> sx_Nh c' = sx_Nh c \<and> sx_md_len c' = sx_md_len c"
    using assms
  proof (induction c data rule: sha512_copy_loop.induct)
    case (1 c data)
    show ?case
    proof (cases "128 \<le> length data")
      case True
      then show ?thesis using 1(1) [OF True refl] 1(2,3) blocks_step [of 128 data]
        by (simp add: sha512_copy_loop.simps [of c data] Let_def)
    qed (use 1(2,3) in \<open>simp add: sha512_copy_loop.simps [of c data]\<close>)
  qed
  then show "rest = tail_of 128 data" and "sx_h c' = foldl absorb512 (sx_h c) (blocks 128 data)"
    and "length (sx_p c') = 128" and "sx_num c' = sx_num c" and "sx_Nl c' = sx_Nl c" and "sx_Nh c' = sx_Nh c"
    and "sx_md_len c' = sx_md_len c" by auto
qed

lemma sha512_rest_spec:
  fixes data :: "u8 list" and direct :: bool
  assumes "length (sx_p c) = 128" and "sx_num c = 0"
  defines "r \<equiv> sha512_rest direct c data"
  shows "sx_ok r" and "sx_pending r = tail_of 128 data" and "sx_h r = foldl absorb512 (sx_h c) (blocks 128 data)"
    and "sx_Nl r = sx_Nl c" and "sx_Nh r = sx_Nh c" and "sx_md_len r = sx_md_len c"
proof -
  let ?bulk = "if length data \<ge> 128
        then if direct
             then (c\<lparr>sx_h := sha512_block_data_order (sx_h c) data (length data div 128)\<rparr>, drop (length data - length data mod 128) data)
             else sha512_copy_loop c data
        else (c, data)"
  obtain c1 d1 where b: "?bulk = (c1, d1)" by force
  have "d1 = tail_of 128 data \<and> sx_h c1 = foldl absorb512 (sx_h c) (blocks 128 data) \<and> length (sx_p c1) = 128 \<and>
      sx_num c1 = 0 \<and> sx_Nl c1 = sx_Nl c \<and> sx_Nh c1 = sx_Nh c \<and> sx_md_len c1 = sx_md_len c"
  proof (cases "128 \<le> length data \<and> \<not> direct")
    case True
    then show ?thesis using b assms copy_loop_spec [OF assms(1), of data c1 d1] by simp
  next
    case False
    then show ?thesis using b assms(1,2)
      by (auto simp: blk512_blocks tail_of_def minus_mod_eq_div_mult split: if_splits)
  qed
  moreover have "r = (if length d1 \<noteq> 0 then c1\<lparr>sx_p := store_at 0 d1 (sx_p c1), sx_num := length d1\<rparr> else c1)"
    unfolding r_def sha512_rest_def b Let_def by simp
  moreover have "length (tail_of 128 data) < 128" by (rule length_tail_of) simp
  ultimately show "sx_ok r" and "sx_pending r = tail_of 128 data" and "sx_h r = foldl absorb512 (sx_h c) (blocks 128 data)"
    and "sx_Nl r = sx_Nl c" and "sx_Nh r = sx_Nh c" and "sx_md_len r = sx_md_len c"
    by (auto simp: sx_ok_def sx_pending_def store_at_def)
qed

lemma SHA512_Update_spec:
  fixes data :: "u8 list" and direct :: bool
  assumes "sx_ok c"
  defines "r \<equiv> SHA512_Update direct c data"
  shows "sx_ok r" and "sx_pending r = tail_of 128 (sx_pending c @ data)"
    and "sx_h r = foldl absorb512 (sx_h c) (blocks 128 (sx_pending c @ data))"
    and "bit_count_512 r = (bit_count_512 c + 8 * length data) mod 2 ^ 128" and "sx_md_len r = sx_md_len c"
proof -
  let ?n = "sx_num c" and ?p = "sx_pending c" and ?len = "length data"
  define c2 where "c2 = sha512_count c ?len"
  have c: "length (sx_p c) = 128" "?n < 128" and p: "length ?p = ?n"
    using assms(1) length_sx_pending by (simp_all add: sx_ok_def)
  have c2: "sx_p c2 = sx_p c" "sx_num c2 = ?n" "sx_h c2 = sx_h c" "sx_md_len c2 = sx_md_len c"
    "bit_count_512 c2 = (bit_count_512 c + 8 * ?len) mod 2 ^ 128"
    using carry_add [of 61 "sx_Nl c" ?len "sx_Nh c"]
    by (simp_all add: c2_def sha512_count_def Let_def bit_count_512_def split: if_splits)
  have b0: "bit_count_512 c < 2 ^ 128"
    using unat_u64_bound [of "sx_Nh c"] unat_u64_bound [of "sx_Nl c"] by (simp add: bit_count_512_def)
  consider "data = []" | "data \<noteq> []" "?n = 0" | "data \<noteq> []" "?n \<noteq> 0" "128 \<le> ?n + ?len"
    | "data \<noteq> []" "?n \<noteq> 0" "?n + ?len < 128" by linarith
  then have "sx_ok r \<and> sx_pending r = tail_of 128 (?p @ data) \<and>
    sx_h r = foldl absorb512 (sx_h c) (blocks 128 (?p @ data)) \<and>
    bit_count_512 r = (bit_count_512 c + 8 * ?len) mod 2 ^ 128 \<and> sx_md_len r = sx_md_len c"
  proof cases
    case 1
    with c p b0 assms(1) show ?thesis by (simp add: r_def SHA512_Update_def)
  next
    case 2
    have "length (sx_p c2) = 128" "sx_num c2 = 0" using 2 c2 c by simp_all
    note x = sha512_rest_spec [OF this, of direct data]
    have "r = sha512_rest direct c2 data" unfolding r_def SHA512_Update_def c2_def [symmetric] Let_def using 2 c2 by simp
    moreover have "?p = []" using 2 p by simp
    ultimately show ?thesis using x c2 by (simp add: bit_count_512_def)
  next
    case 3
    let ?full = "store_at ?n (take (128 - ?n) data) (sx_p c)"
    let ?c3 = "c2\<lparr>sx_p := ?full, sx_num := 0, sx_h := absorb512 (sx_h c) ?full\<rparr>"
    have f: "?full = ?p @ take (128 - ?n) data" "length ?full = 128"
      using 3 c by (simp_all add: store_at_def sx_pending_def)
    have cut: "?p @ data = ?full @ drop (128 - ?n) data" by (simp add: f(1))
    have "length (sx_p ?c3) = 128" "sx_num ?c3 = 0" using f(2) by simp_all
    note x = sha512_rest_spec [OF this, of direct "drop (128 - ?n) data"]
    have "r = sha512_rest direct ?c3 (drop (128 - ?n) data)"
      unfolding r_def SHA512_Update_def c2_def [symmetric] Let_def using 3 c2 by simp
    then show ?thesis unfolding cut blocks_Cons [OF _ f(2), simplified] using x c2 by (simp add: bit_count_512_def)
  next
    case 4
    then have "r = c2\<lparr>sx_p := store_at ?n data (sx_p c), sx_num := ?n + ?len\<rparr>"
      unfolding r_def SHA512_Update_def c2_def [symmetric] Let_def using c2 by simp
    then show ?thesis using 4 c p c2 by (simp add: sx_ok_def sx_pending_def bit_count_512_def)
  qed
  then show "sx_ok r" and "sx_pending r = tail_of 128 (sx_pending c @ data)"
    and "sx_h r = foldl absorb512 (sx_h c) (blocks 128 (sx_pending c @ data))"
    and "bit_count_512 r = (bit_count_512 c + 8 * length data) mod 2 ^ 128" and "sx_md_len r = sx_md_len c" by auto
qed

interpretation sha512: block_stream 128 sx_ok sx_pending sx_h absorb512 "\<lambda>_. True" "SHA512_Update direct" for direct
  by unfold_locales (simp, simp_all only: SHA512_Update_spec)

lemma put64_bytes: "put64 t = be_bytes 8 (unat t)"
proof -
  have "unat (ucast (drop_bit k t) :: u8) = unat t div 2 ^ k mod 256" for k
    by (simp only: unsigned_ucast_eq unat_drop_bit take_bit_eq_mod) simp
  then have "(ucast (drop_bit k t) :: u8) = word_of_nat (unat t div 2 ^ k)" for k
    by (simp add: word_unat_eq_iff unat_of_nat)
  note u = this [of 56] this [of 48] this [of 40] this [of 32] this [of 24] this [of 16] this [of 8] this [of 0]
  have eight: "(8 :: nat) = Suc (Suc (Suc (Suc (Suc (Suc (Suc (Suc 0)))))))" by simp
  show ?thesis unfolding eight using u by (simp only: be_bytes_Cons be_bytes.simps(1)) (simp add: put64_def)
qed

lemma length_put64 [simp]: "length (put64 t) = 8"
  by (simp add: put64_def)

text \<open>FIPS 180-4, section 5.1.2, on the pending bytes.\<close>

definition sha512_pad :: "u8 list \<Rightarrow> nat \<Rightarrow> u8 list" where
  "sha512_pad p bits = p @ 0x80 # replicate ((239 - length p) mod 128) 0 @ be_bytes 16 bits"

lemma sha512_finish_spec:
  assumes "sx_ok c"
  shows "sx_h (sha512_finish c) = foldl absorb512 (sx_h c) (blocks 128 (sha512_pad (sx_pending c) (bit_count_512 c)))"
    and "sx_md_len (sha512_finish c) = sx_md_len c"
proof -
  let ?n = "sx_num c" and ?p = "sx_pending c" and ?lens = "put64 (sx_Nh c) @ put64 (sx_Nl c)"
  let ?q = "(sx_p c)[?n := 0x80]"
  have c: "length (sx_p c) = 128" "?n < 128" and p: "length ?p = ?n"
    using assms length_sx_pending [OF assms] by (simp_all add: sx_ok_def)
  have lens: "?lens = be_bytes 16 (bit_count_512 c)"
    using be_bytes_split [of "unat (sx_Nl c)" 8 8 "unat (sx_Nh c)"] unat_u64_bound [of "sx_Nl c"]
    by (simp add: put64_bytes bit_count_512_def)
  have d80: "take (Suc ?n) ?q = ?p @ [0x80]" using c by (simp add: sx_pending_def take_Suc_conv_app_nth)
  show "sx_h (sha512_finish c) = foldl absorb512 (sx_h c) (blocks 128 (sha512_pad ?p (bit_count_512 c)))"
  proof (cases "112 < Suc ?n")
    case True
    let ?full = "store_at (Suc ?n) (replicate (128 - Suc ?n) 0) ?q"
    let ?d = "store_at 112 ?lens (store_at 0 (replicate 112 0) ?full)"
    have full: "?full = ?p @ 0x80 # replicate (127 - ?n) 0" using c d80 by (simp add: store_at_def)
    have d: "?d = replicate 112 0 @ ?lens" using c by (simp add: store_at_def)
    have f: "length ?full = 128" "length ?d = 128" unfolding full d using c(2) p by simp_all
    have "(239 - ?n) mod 128 = (127 - ?n) + 112" using True c(2) by simp
    then have r: "replicate ((239 - ?n) mod 128) (0 :: u8) = replicate (127 - ?n) 0 @ replicate 112 0"
      by (simp only: replicate_add)
    have pad: "sha512_pad ?p (bit_count_512 c) = ?full @ ?d"
      unfolding d lens [symmetric] unfolding full sha512_pad_def p r lens by simp
    have "sx_h (sha512_finish c) = absorb512 (absorb512 (sx_h c) ?full) ?d"
      unfolding sha512_finish_def Let_def using True by simp
    then show ?thesis unfolding pad using blocks_Cons(1) [of 128 ?full ?d] blocks_Cons(1) [of 128 ?d "[]"] f by simp
  next
    case False
    let ?d = "store_at 112 ?lens (store_at (Suc ?n) (replicate (112 - Suc ?n) 0) ?q)"
    let ?z = "?p @ 0x80 # replicate (111 - ?n) 0"
    have "store_at (Suc ?n) (replicate (112 - Suc ?n) 0) ?q = ?z @ drop 112 (sx_p c)"
      using c d80 False by (simp add: store_at_def)
    moreover have "length ?z = 112" "length (drop 112 (sx_p c)) = length ?lens" using False p c by simp_all
    ultimately have d: "?d = ?z @ ?lens" by (simp only: store_at_append)
    have f: "length ?d = 128" unfolding d using False p by simp
    have "(239 - ?n) mod 128 = 111 - ?n" using False by (simp add: mod_if)
    then have pad: "sha512_pad ?p (bit_count_512 c) = ?d" unfolding d unfolding sha512_pad_def p lens by simp
    have "sx_h (sha512_finish c) = absorb512 (sx_h c) ?d" unfolding sha512_finish_def Let_def using False by simp
    then show ?thesis unfolding pad using blocks_Cons(1) [of 128 ?d "[]"] f by simp
  qed
  show "sx_md_len (sha512_finish c) = sx_md_len c" by (simp add: sha512_finish_def Let_def split: prod.splits)
qed

section \<open>The digests\<close>

text \<open>The padded message of FIPS 180-4, its bit length modulo \<open>2 ^ 128\<close>.\<close>

definition sha512_message :: "u8 list \<Rightarrow> u8 list" where
  "sha512_message m = m @ 0x80 # replicate ((239 - length m mod 128) mod 128) 0 @ be_bytes 16 (8 * length m)"

definition fips512_hash :: "u64 list \<Rightarrow> u8 list \<Rightarrow> u64 list" where
  "fips512_hash H0 m = foldl fips512_compress H0 (blocks 128 (sha512_message m))"

lemma length_fips512_round: "length (fips512_round K W s) = length s"
  by (cases "(K, W, s)" rule: fips512_round.cases) (simp_all add: Let_def)

lemma length_fips512_compress: "length H = 8 \<Longrightarrow> length (fips512_compress H b) = 8"
proof -
  have "length (fips512_rounds W n s) = length s" for W n s
    by (induction n) (simp_all add: fips512_rounds_def length_fips512_round)
  then show "length H = 8 \<Longrightarrow> length (fips512_compress H b) = 8" by (simp add: fips512_compress_def)
qed

lemma foldl_sha512_fips:
  assumes "\<forall>b \<in> set bs. length b = 128" and "length H = 8"
  shows "foldl absorb512 H bs = foldl fips512_compress H bs"
  using assms
proof (induction bs arbitrary: H)
  case (Cons b bs)
  then have "absorb512 H b = fips512_compress H b" by (simp add: sha512_block_fips)
  with Cons show ?case by (simp add: length_fips512_compress)
qed simp

lemma bit_count_512_foldl:
  "sx_ok c \<Longrightarrow> bit_count_512 (foldl (SHA512_Update direct) c cs) mod 2 ^ 128 =
    (bit_count_512 c + 8 * length (concat cs)) mod 2 ^ 128"
proof (induction cs arbitrary: c)
  case (Cons x xs)
  from Cons.IH [OF SHA512_Update_spec(1) [OF Cons.prems, of direct x]] SHA512_Update_spec(4) [OF Cons.prems, of direct x]
  show ?case by (simp add: mod_simps algebra_simps)
qed simp

lemma SHA512_stream:
  assumes "sx_ok c" and "sx_num c = 0" and "bit_count_512 c = 0" and "length (sx_h c) = 8"
  shows "sx_h (sha512_finish (foldl (SHA512_Update direct) c cs)) = fips512_hash (sx_h c) (concat cs)"
proof -
  let ?c = "foldl (SHA512_Update direct) c cs" and ?m = "concat cs"
  have p0: "sx_pending c = []" using assms(2) by (simp add: sx_pending_def)
  have cs: "list_all (\<lambda>_. True) cs" by (simp add: list_all_iff)
  note r = sha512.run [OF assms(1) cs, of direct, unfolded p0, simplified]
  have tl: "length (tail_of 128 ?m) = length ?m mod 128" by (simp add: tail_of_def minus_div_mult_eq_mod)
  define suf where "suf = 0x80 # replicate ((239 - length ?m mod 128) mod 128) (0 :: u8) @ be_bytes 16 (8 * length ?m)"
  have "bit_count_512 ?c mod 256 ^ 16 = 8 * length ?m mod 256 ^ 16"
    using bit_count_512_foldl [OF assms(1), of direct cs] assms(3) by simp
  then have "be_bytes 16 (bit_count_512 ?c) = be_bytes 16 (8 * length ?m)" by (metis be_bytes_mod)
  then have "sha512_pad (tail_of 128 ?m) (bit_count_512 ?c) = tail_of 128 ?m @ suf"
    unfolding sha512_pad_def suf_def tl by simp
  moreover have "sha512_message ?m = ?m @ suf" unfolding sha512_message_def suf_def ..
  ultimately have b: "blocks 128 (sha512_message ?m) =
      blocks 128 ?m @ blocks 128 (sha512_pad (tail_of 128 ?m) (bit_count_512 ?c))"
    using blocks_append(1) [of 128 ?m suf] by simp
  have "\<forall>b \<in> set (blocks 128 m). length b = 128" for m :: "u8 list" using blocks_length by blast
  from foldl_sha512_fips [OF this assms(4)]
  have f: "fips512_hash (sx_h c) ?m = foldl absorb512 (sx_h c) (blocks 128 (sha512_message ?m))" by (simp only: fips512_hash_def)
  show ?thesis unfolding f b foldl_append using sha512_finish_spec(1) [OF r(1)] r by simp
qed

lemma md_len_512_foldl:
  "sx_ok c \<Longrightarrow> sx_md_len (sha512_finish (foldl (SHA512_Update direct) c cs)) = sx_md_len c"
proof -
  have "sx_ok c \<Longrightarrow> sx_ok (foldl (SHA512_Update direct) c cs) \<and> sx_md_len (foldl (SHA512_Update direct) c cs) = sx_md_len c"
    by (induction cs arbitrary: c) (simp_all add: SHA512_Update_spec)
  then show "sx_ok c \<Longrightarrow> ?thesis" by (simp add: sha512_finish_spec)
qed

section \<open>Properties\<close>


text \<open>
  C32: the two portable block functions of SHA-512, one with sixteen words and rotating registers, the other
  with a sliding array of 89 words for 32-bit x86, compute the same.
\<close>

theorem i386_block_equal:
  assumes "length block = 128" and "length state = 8"
  shows "sha512_block_i386 state block = sha512_block state block"
  using sha512_block_fips [OF assms] sha512_block_i386_fips [OF assms] by simp

theorem i386_block_equal_witness:
  "sha512_block_i386 (sx_h SHA512_Init) (replicate 128 7) = sha512_block (sx_h SHA512_Init) (replicate 128 7)"
  using i386_block_equal [of "replicate 128 7" "sx_h SHA512_Init"] by (simp add: SHA512_Init_def)

text \<open>The first \<open>w\<close> bits of the fractional part of the \<open>k\<close>-th root of \<open>p\<close>, as inequalities on integers.\<close>

definition root_floor :: "nat \<Rightarrow> int \<Rightarrow> int" where
  "root_floor k p = int (length (takeWhile (\<lambda>m. m ^ k \<le> p) [1, 2, 3, 4, 5, 6, 7, 8, 9, 10, 11, 12, 13, 14, 15, 16, 17, 18, 19, 20, 21, 22]))"

definition frac_root :: "nat \<Rightarrow> nat \<Rightarrow> int \<Rightarrow> int \<Rightarrow> bool" where
  "frac_root k w p c \<longleftrightarrow> c < 2 ^ w \<and>
    (root_floor k p * 2 ^ w + c) ^ k \<le> p * 2 ^ (w * k) \<and> p * 2 ^ (w * k) < (root_floor k p * 2 ^ w + c + 1) ^ k"

definition primes_80 :: "int list" where
  "primes_80 = [2, 3, 5, 7, 11, 13, 17, 19, 23, 29, 31, 37, 41, 43, 47, 53, 59, 61, 67, 71, 73, 79, 83, 89, 97, 101, 103, 107,
    109, 113, 127, 131, 137, 139, 149, 151, 157, 163, 167, 173, 179, 181, 191, 193, 197, 199, 211, 223, 227, 229, 233, 239,
    241, 251, 257, 263, 269, 271, 277, 281, 283, 293, 307, 311, 313, 317, 331, 337, 347, 349, 353, 359, 367, 373, 379, 383,
    389, 397, 401, 409]"

text \<open>
  C33: the tables of SHA-256 and SHA-512 hold the leading bits of the fractional parts of the cube roots of
  the first 64 and 80 primes, and the initial values those of the square roots of the first eight and the next
  eight primes, as FIPS 180-4 defines them; those of SHA-224 are the low halves of those of SHA-384.
\<close>

theorem constants_are_roots:
  "list_all2 (\<lambda>p c. frac_root 3 32 p (uint c)) (take 64 primes_80) K256 \<and>
   list_all2 (\<lambda>p c. frac_root 3 64 p (uint c)) primes_80 K512 \<and>
   list_all2 (\<lambda>p c. frac_root 2 32 p (uint c)) (take 8 primes_80) (hc_h SHA256_Init) \<and>
   list_all2 (\<lambda>p c. frac_root 2 64 p (uint c)) (take 8 primes_80) (sx_h SHA512_Init) \<and>
   list_all2 (\<lambda>p c. frac_root 2 64 p (uint c)) (take 8 (drop 8 primes_80)) (sx_h SHA384_Init) \<and>
   hc_h SHA224_Init = map (\<lambda>w. ucast w) (sx_h SHA384_Init)"
proof (intro conjI)
  show "list_all2 (\<lambda>p c. frac_root 3 32 p (uint c)) (take 64 primes_80) K256"
    by code_simp
  show "list_all2 (\<lambda>p c. frac_root 3 64 p (uint c)) primes_80 K512"
    by code_simp
  show "list_all2 (\<lambda>p c. frac_root 2 32 p (uint c)) (take 8 primes_80) (hc_h SHA256_Init)"
    by code_simp
  show "list_all2 (\<lambda>p c. frac_root 2 64 p (uint c)) (take 8 primes_80) (sx_h SHA512_Init)"
    by code_simp
  show "list_all2 (\<lambda>p c. frac_root 2 64 p (uint c)) (take 8 (drop 8 primes_80)) (sx_h SHA384_Init)"
    by code_simp
  show "hc_h SHA224_Init = map (\<lambda>w. ucast w) (sx_h SHA384_Init)" by (simp add: SHA224_Init_def SHA384_Init_def)
qed

end
