(* ===== verification/Stack.thy ===== *)
theory Stack imports Sort_Search begin

text \<open>
  Stacks of pointers, crypto/stack/stack.c. A pointer is a number and NULL is 0; a function pointer is a
  number too, and \<open>call\<close> is what calling the comparison function at an address on two elements returns.
  A stack argument is an \<open>option\<close>, \<open>None\<close> for a null pointer. \<open>palloc\<close> is \<open>OPENSSL_malloc\<close> as an array of pointers:
  it is given a size in bytes. The lemmas show that the operations are those of lists, that growing
  never writes out of bounds, and when \<open>sk_find\<close> finds the first match.
\<close>

section \<open>The code\<close>

type_synonym palloc = "nat \<Rightarrow> ptr list option"
type_synonym caller = "ptr \<Rightarrow> ptr \<Rightarrow> ptr \<Rightarrow> int"

record STACK =
  st_num :: nat
  st_data :: "ptr list"
  st_sorted :: bool
  st_num_alloc :: nat
  st_comp :: ptr

definition kMinSize :: nat where
  "kMinSize = 4"

text \<open>\<open>OPENSSL_realloc\<close> of an array of pointers: the old elements that fit, then what the allocator left.\<close>

definition ptr_realloc :: "palloc \<Rightarrow> ptr list \<Rightarrow> nat \<Rightarrow> ptr list option" where
  "ptr_realloc palloc old sz = map_option (\<lambda>blk. store_at 0 (take (length blk) old) blk) (palloc sz)"

text \<open>\<open>got\<close> is whether the allocation of the structure itself succeeds.\<close>

definition sk_new :: "bool \<Rightarrow> palloc \<Rightarrow> ptr \<Rightarrow> STACK option" where
  "sk_new got palloc cmpf =
    (if \<not> got then None
     else case palloc (SIZEOF_PTR * kMinSize) of
       None \<Rightarrow> None
     | Some data \<Rightarrow> Some \<lparr>st_num = 0, st_data = replicate kMinSize NULL, st_sorted = False,
                      st_num_alloc = kMinSize, st_comp = cmpf\<rparr>)"

definition sk_new_null :: "bool \<Rightarrow> palloc \<Rightarrow> STACK option" where
  "sk_new_null got palloc = sk_new got palloc NULL"

definition sk_num :: "STACK option \<Rightarrow> nat" where
  "sk_num sk = (case sk of None \<Rightarrow> 0 | Some s \<Rightarrow> st_num s)"

definition sk_zero :: "STACK option \<Rightarrow> STACK option" where
  "sk_zero sk = (case sk of None \<Rightarrow> None
    | Some s \<Rightarrow> (if st_num s = 0 then Some s
        else Some (s\<lparr>st_data := store_at 0 (replicate (st_num s) NULL) (st_data s), st_num := 0, st_sorted := False\<rparr>)))"

definition sk_value :: "STACK option \<Rightarrow> nat \<Rightarrow> ptr" where
  "sk_value sk i = (case sk of None \<Rightarrow> NULL | Some s \<Rightarrow> if i \<ge> st_num s then NULL else st_data s ! i)"

definition sk_set :: "STACK option \<Rightarrow> nat \<Rightarrow> ptr \<Rightarrow> ptr \<times> STACK option" where
  "sk_set sk i value = (case sk of None \<Rightarrow> (NULL, None)
    | Some s \<Rightarrow> if i \<ge> st_num s then (NULL, sk) else (value, Some (s\<lparr>st_data := (st_data s)[i := value]\<rparr>)))"

text \<open>What the freeing functions do, in order: calls of the caller's function, and the two blocks.\<close>

datatype sk_effect = Call ptr | Free_data | Free_stack

definition sk_free :: "STACK option \<Rightarrow> sk_effect list" where
  "sk_free sk = (case sk of None \<Rightarrow> [] | Some s \<Rightarrow> [Free_data, Free_stack])"

definition sk_pop_free :: "STACK option \<Rightarrow> sk_effect list" where
  "sk_pop_free sk = (case sk of None \<Rightarrow> []
    | Some s \<Rightarrow> map Call (filter (\<lambda>p. p \<noteq> NULL) (take (st_num s) (st_data s))) @ sk_free sk)"

text \<open>The growth part of \<open>sk_insert\<close>: double the array, or add one where doubling would overflow.\<close>

definition sk_grow :: "palloc \<Rightarrow> STACK \<Rightarrow> STACK option" where
  "sk_grow palloc s =
    (if st_num_alloc s \<le> size_add (st_num s) 1
     then let new_alloc = size_mul (st_num_alloc s) 2;
              alloc_size = size_mul new_alloc SIZEOF_PTR;
              over = new_alloc < st_num_alloc s \<or> alloc_size div SIZEOF_PTR \<noteq> new_alloc;
              new_alloc = (if over then size_add (st_num_alloc s) 1 else new_alloc);
              alloc_size = (if over then size_mul new_alloc SIZEOF_PTR else alloc_size)
          in if new_alloc < st_num_alloc s \<or> alloc_size div SIZEOF_PTR \<noteq> new_alloc then None
             else (case ptr_realloc palloc (st_data s) alloc_size of
                     None \<Rightarrow> None
                   | Some data \<Rightarrow> Some (s\<lparr>st_data := data, st_num_alloc := new_alloc\<rparr>))
     else Some s)"

definition sk_insert :: "palloc \<Rightarrow> STACK option \<Rightarrow> ptr \<Rightarrow> nat \<Rightarrow> nat \<times> STACK option" where
  "sk_insert palloc sk p pos = (case sk of None \<Rightarrow> (0, None)
    | Some s \<Rightarrow>
      (case sk_grow palloc s of None \<Rightarrow> (0, sk)
       | Some s \<Rightarrow>
         (let data = (if pos \<ge> st_num s then (st_data s)[st_num s := p]
                      else (store_at (pos + 1) (take (st_num s - pos) (drop pos (st_data s))) (st_data s))[pos := p])
          in (st_num s + 1, Some (s\<lparr>st_data := data, st_num := st_num s + 1, st_sorted := False\<rparr>)))))"

definition sk_delete :: "STACK option \<Rightarrow> nat \<Rightarrow> ptr \<times> STACK option" where
  "sk_delete sk pos = (case sk of None \<Rightarrow> (NULL, None)
    | Some s \<Rightarrow>
      if pos \<ge> st_num s then (NULL, sk)
      else let data = (if pos \<noteq> st_num s - 1
                       then store_at pos (take (st_num s - pos - 1) (drop (pos + 1) (st_data s))) (st_data s)
                       else st_data s)
           in (st_data s ! pos, Some (s\<lparr>st_data := data, st_num := st_num s - 1\<rparr>)))"

text \<open>The loops that look for a pointer: the first index from \<open>i\<close> on, of the \<open>n\<close> that are left.\<close>

fun sk_scan :: "ptr list \<Rightarrow> ptr \<Rightarrow> nat \<Rightarrow> nat \<Rightarrow> nat option" where
  "sk_scan data p i 0 = None"
| "sk_scan data p i (Suc n) = (if data ! i = p then Some i else sk_scan data p (i + 1) n)"

definition sk_delete_ptr :: "STACK option \<Rightarrow> ptr \<Rightarrow> ptr \<times> STACK option" where
  "sk_delete_ptr sk p = (case sk of None \<Rightarrow> (NULL, None)
    | Some s \<Rightarrow> (case sk_scan (st_data s) p 0 (st_num s) of None \<Rightarrow> (NULL, sk) | Some i \<Rightarrow> sk_delete sk i))"

definition sk_sort :: "caller \<Rightarrow> STACK option \<Rightarrow> STACK option" where
  "sk_sort call sk = (case sk of None \<Rightarrow> None
    | Some s \<Rightarrow> if st_comp s = NULL \<or> st_sorted s then sk
      else Some (s\<lparr>st_data := store_at 0 (qsort (call (st_comp s)) (take (st_num s) (st_data s))) (st_data s), st_sorted := True\<rparr>))"

text \<open>The loop that walks back to the first element that compares equal.\<close>

fun sk_first :: "(ptr \<Rightarrow> ptr \<Rightarrow> int) \<Rightarrow> ptr list \<Rightarrow> ptr \<Rightarrow> nat \<Rightarrow> nat" where
  "sk_first cmp data p 0 = 0"
| "sk_first cmp data p (Suc idx) = (if cmp p (data ! idx) = 0 then sk_first cmp data p idx else Suc idx)"

definition sk_find :: "caller \<Rightarrow> STACK option \<Rightarrow> ptr \<Rightarrow> nat option \<times> STACK option" where
  "sk_find call sk p = (case sk of None \<Rightarrow> (None, None)
    | Some s \<Rightarrow>
      if st_comp s = NULL then (sk_scan (st_data s) p 0 (st_num s), sk)
      else if p = NULL then (None, sk)
      else (case sk_sort call sk of None \<Rightarrow> (None, None)
        | Some s \<Rightarrow>
          (case bsearch (call (st_comp s)) p (take (st_num s) (st_data s)) of
             None \<Rightarrow> (None, Some s)
           | Some idx \<Rightarrow> (Some (sk_first (call (st_comp s)) (st_data s) p idx), Some s))))"

definition sk_shift :: "STACK option \<Rightarrow> ptr \<times> STACK option" where
  "sk_shift sk = (case sk of None \<Rightarrow> (NULL, None) | Some s \<Rightarrow> if st_num s = 0 then (NULL, sk) else sk_delete sk 0)"

text \<open>\<open>sk_push\<close> and \<open>sk_set_cmp_func\<close> read through the pointer at once: \<open>None\<close> is the fault of a null one.\<close>

definition sk_push :: "palloc \<Rightarrow> STACK option \<Rightarrow> ptr \<Rightarrow> (nat \<times> STACK option) option" where
  "sk_push palloc sk p = (case sk of None \<Rightarrow> None | Some s \<Rightarrow> Some (sk_insert palloc sk p (st_num s)))"

definition sk_pop :: "STACK option \<Rightarrow> ptr \<times> STACK option" where
  "sk_pop sk = (case sk of None \<Rightarrow> (NULL, None)
    | Some s \<Rightarrow> if st_num s = 0 then (NULL, sk) else sk_delete sk (st_num s - 1))"

definition sk_dup :: "bool \<Rightarrow> palloc \<Rightarrow> STACK option \<Rightarrow> STACK option" where
  "sk_dup got palloc sk = (case sk of None \<Rightarrow> None
    | Some s \<Rightarrow>
      (case sk_new got palloc (st_comp s) of None \<Rightarrow> None
       | Some ret \<Rightarrow>
         (case ptr_realloc palloc (st_data ret) (size_mul SIZEOF_PTR (st_num_alloc s)) of None \<Rightarrow> None
          | Some d \<Rightarrow> Some (ret\<lparr>st_num := st_num s, st_data := store_at 0 (take (st_num s) (st_data s)) d,
              st_sorted := st_sorted s, st_num_alloc := st_num_alloc s, st_comp := st_comp s\<rparr>))))"

definition sk_is_sorted :: "STACK option \<Rightarrow> bool" where
  "sk_is_sorted sk = (case sk of None \<Rightarrow> True | Some s \<Rightarrow> st_sorted s)"

definition sk_set_cmp_func :: "STACK option \<Rightarrow> ptr \<Rightarrow> (ptr \<times> STACK option) option" where
  "sk_set_cmp_func sk cmpf = (case sk of None \<Rightarrow> None
    | Some s \<Rightarrow>
      (let s' = (if st_comp s \<noteq> cmpf then s\<lparr>st_sorted := False\<rparr> else s)
       in Some (st_comp s, Some (s'\<lparr>st_comp := cmpf\<rparr>))))"

text \<open>
  The copying loop of \<open>sk_deep_copy\<close> at index \<open>i\<close> with \<open>n\<close> elements left. \<open>copy_func\<close> may fail and has a state
  of its own. The error branch frees the copies made so far and the duplicate.
\<close>

fun deep_copy_loop :: "('s \<Rightarrow> ptr \<Rightarrow> ptr \<times> 's) \<Rightarrow> STACK \<Rightarrow> nat \<Rightarrow> nat \<Rightarrow> 's \<Rightarrow> STACK option \<times> sk_effect list \<times> 's" where
  "deep_copy_loop copy_func ret i 0 st = (Some ret, [], st)"
| "deep_copy_loop copy_func ret i (Suc n) st =
    (if st_data ret ! i = NULL then deep_copy_loop copy_func ret (i + 1) n st
     else case copy_func st (st_data ret ! i) of (q, st') \<Rightarrow>
       (let ret' = ret\<lparr>st_data := (st_data ret)[i := q]\<rparr>
        in if q = NULL
           then (None, map Call (filter (\<lambda>p. p \<noteq> NULL) (take i (st_data ret'))) @ sk_free (Some ret'), st')
           else deep_copy_loop copy_func ret' (i + 1) n st'))"

definition sk_deep_copy ::
    "bool \<Rightarrow> palloc \<Rightarrow> STACK option \<Rightarrow> ('s \<Rightarrow> ptr \<Rightarrow> ptr \<times> 's) \<Rightarrow> 's \<Rightarrow> STACK option \<times> sk_effect list \<times> 's" where
  "sk_deep_copy got palloc sk copy_func st =
    (case sk_dup got palloc sk of None \<Rightarrow> (None, [], st)
     | Some ret \<Rightarrow> deep_copy_loop copy_func ret 0 (st_num ret) st)"

section \<open>Stacks are lists\<close>

definition palloc_ok :: "palloc \<Rightarrow> bool" where
  "palloc_ok palloc \<longleftrightarrow> (\<forall>sz d. palloc sz = Some d \<longrightarrow> length d = sz div SIZEOF_PTR)"

definition st_ok :: "STACK \<Rightarrow> bool" where
  "st_ok s \<longleftrightarrow> st_num s < st_num_alloc s \<and> length (st_data s) = st_num_alloc s \<and> st_num_alloc s * SIZEOF_PTR < SIZE_BOUND"

definition sk_list :: "STACK \<Rightarrow> ptr list" where
  "sk_list s = take (st_num s) (st_data s)"

lemma length_sk_list [simp]: "st_ok s \<Longrightarrow> length (sk_list s) = st_num s"
  by (simp add: st_ok_def sk_list_def)

lemma sk_list_nth: "st_ok s \<Longrightarrow> i < st_num s \<Longrightarrow> sk_list s ! i = st_data s ! i"
  by (simp add: sk_list_def)

lemma ptr_overflow_iff: "a < SIZE_BOUND \<Longrightarrow> size_mul a SIZEOF_PTR div SIZEOF_PTR = a \<longleftrightarrow> a * SIZEOF_PTR < SIZE_BOUND"
proof -
  have B: "SIZE_BOUND = 8 * 2 ^ 61" by (simp add: SIZE_BOUND_def)
  have "a * 8 mod (8 * 2 ^ 61) = 8 * (a mod 2 ^ 61)" by (metis mod_mult_mult1 mult.commute)
  then have "size_mul a SIZEOF_PTR div SIZEOF_PTR = a mod 2 ^ 61" by (simp only: size_mul_def SIZEOF_PTR_def B nonzero_mult_div_cancel_left)
  moreover have "a mod 2 ^ 61 = a \<longleftrightarrow> a < 2 ^ 61" by (metis mod_less mod_less_divisor zero_less_numeral zero_less_power)
  ultimately show ?thesis by (simp only: SIZEOF_PTR_def B) linarith
qed

lemma sk_new_ok: "sk_new got palloc cmpf = Some s \<Longrightarrow> st_ok s \<and> sk_list s = [] \<and> st_comp s = cmpf"
  by (auto simp: sk_new_def st_ok_def sk_list_def kMinSize_def SIZEOF_PTR_def SIZE_BOUND_def split: if_splits option.splits)

lemma sk_grow_ok:
  assumes "palloc_ok palloc" and "st_ok s" and "sk_grow palloc s = Some s'"
  shows "st_ok s'" and "st_num s' + 1 < st_num_alloc s'" and "st_num s' = st_num s" and "sk_list s' = sk_list s"
    and "st_comp s' = st_comp s"
proof -
  let ?a = "st_num_alloc s"
  have s: "st_num s < ?a" "length (st_data s) = ?a" "?a * 8 < SIZE_BOUND" using assms(2) by (simp_all add: st_ok_def SIZEOF_PTR_def)
  have num: "size_add (st_num s) 1 = st_num s + 1" using s by (simp add: size_add_id)
  have "st_ok s' \<and> st_num s' + 1 < st_num_alloc s' \<and> st_num s' = st_num s \<and> sk_list s' = sk_list s \<and> st_comp s' = st_comp s"
  proof (cases "?a \<le> st_num s + 1")
    case False
    then have "s' = s" using assms(3) unfolding sk_grow_def num by simp
    then show ?thesis using False assms(2) by simp
  next
    case True
    have d2: "size_mul ?a 2 = ?a * 2" and a1: "size_add ?a 1 = ?a + 1" using s by (simp_all add: size_mul_id size_add_id)
    have lt: "?a * 2 < SIZE_BOUND" "?a + 1 < SIZE_BOUND" using s by simp_all
    obtain n d where n: "?a < n" "n * 8 < SIZE_BOUND" "n = ?a * 2 \<or> n = ?a + 1"
      and d: "ptr_realloc palloc (st_data s) (n * 8) = Some d"
      and s': "s' = s\<lparr>st_data := d, st_num_alloc := n\<rparr>"
    proof -
      note o2 = ptr_overflow_iff [OF lt(1)] and o1 = ptr_overflow_iff [OF lt(2)]
      have g: "(let over = \<not> ?a * 2 * SIZEOF_PTR < SIZE_BOUND; n = (if over then ?a + 1 else ?a * 2)
          in if \<not> n * SIZEOF_PTR < SIZE_BOUND then None
             else (case ptr_realloc palloc (st_data s) (size_mul n SIZEOF_PTR) of
                     None \<Rightarrow> None
                   | Some data \<Rightarrow> Some (s\<lparr>st_data := data, st_num_alloc := n\<rparr>))) = Some s'"
        using assms(3) True s(1) unfolding sk_grow_def num d2 a1 Let_def
        by (simp add: o1 [simplified] o2 [simplified] split: if_splits)
      show thesis
      proof (cases "?a * 2 * SIZEOF_PTR < SIZE_BOUND")
        case True
        then show ?thesis using that [of "?a * 2"] g s(1) by (auto simp: SIZEOF_PTR_def size_mul_id split: option.splits)
      next
        case False
        then show ?thesis using that [of "?a + 1"] g by (auto simp: SIZEOF_PTR_def size_mul_id Let_def split: option.splits if_splits)
      qed
    qed
    obtain blk where "palloc (n * 8) = Some blk" and dd: "d = store_at 0 (take (length blk) (st_data s)) blk"
      using d by (auto simp: ptr_realloc_def)
    with assms(1) have "length blk = n" by (auto simp: palloc_ok_def SIZEOF_PTR_def)
    with dd s n True show ?thesis by (simp add: s' st_ok_def SIZEOF_PTR_def sk_list_def store_at_def)
  qed
  then show "st_ok s'" and "st_num s' + 1 < st_num_alloc s'" and "st_num s' = st_num s" and "sk_list s' = sk_list s"
    and "st_comp s' = st_comp s" by auto
qed

lemma sk_insert_ok:
  assumes "palloc_ok palloc" and "st_ok s" and "sk_insert palloc (Some s) p pos = (n, sk')"
  shows "(n = 0 \<and> sk' = Some s) \<or>
    (\<exists>s'. sk' = Some s' \<and> st_ok s' \<and> n = Suc (st_num s) \<and> st_num s' = n \<and> \<not> st_sorted s' \<and> st_comp s' = st_comp s \<and>
      sk_list s' = take pos (sk_list s) @ p # drop pos (sk_list s))"
proof (cases "sk_grow palloc s")
  case None
  then show ?thesis using assms(3) by (simp add: sk_insert_def)
next
  case (Some t)
  note t = sk_grow_ok [OF assms(1,2) Some]
  let ?d = "if pos \<ge> st_num t then (st_data t)[st_num t := p]
    else (store_at (pos + 1) (take (st_num t - pos) (drop pos (st_data t))) (st_data t))[pos := p]"
  have len: "length (st_data t) = st_num_alloc t" using t(1) by (simp add: st_ok_def)
  have r: "n = Suc (st_num s)" "sk' = Some (t\<lparr>st_data := ?d, st_num := st_num t + 1, st_sorted := False\<rparr>)"
    using assms(3) Some t(3) by (auto simp: sk_insert_def Let_def)
  have "take (Suc (st_num t)) ?d = take pos (sk_list t) @ p # drop pos (sk_list t)" and ld: "length ?d = st_num_alloc t"
  proof -
    show "length ?d = st_num_alloc t" using len t(2) by simp
    show "take (Suc (st_num t)) ?d = take pos (sk_list t) @ p # drop pos (sk_list t)"
    proof (cases "st_num t \<le> pos")
      case True
      then show ?thesis using len t(2) by (simp add: sk_list_def take_Suc_conv_app_nth)
    next
      case False
      let ?m = "take (st_num t - pos) (drop pos (st_data t))"
      have "st_data t = take pos (st_data t) @ drop pos (st_data t)" by simp
      have "(store_at (Suc pos) ?m (st_data t))[pos := p] = take pos (st_data t) @ p # ?m @ drop (Suc (st_num t)) (st_data t)"
        using False len t(2) by (simp add: store_at_def upd_conv_take_nth_drop take_Suc_conv_app_nth)
      then show ?thesis using False len t(2) by (simp add: sk_list_def take_drop min_def Suc_diff_le)
    qed
  qed
  then have "sk_list (t\<lparr>st_data := ?d, st_num := st_num t + 1, st_sorted := False\<rparr>) = take pos (sk_list s) @ p # drop pos (sk_list s)"
    unfolding t(4) by (simp only: sk_list_def) simp
  moreover have "st_ok (t\<lparr>st_data := ?d, st_num := st_num t + 1, st_sorted := False\<rparr>)"
    using t(1,2) ld by (simp add: st_ok_def)
  ultimately show ?thesis unfolding r using t(3,5) by simp
qed

lemma sk_delete_ok:
  assumes "st_ok s"
  shows "pos \<ge> st_num s \<Longrightarrow> sk_delete (Some s) pos = (NULL, Some s)"
    and "pos < st_num s \<Longrightarrow> \<exists>s'. sk_delete (Some s) pos = (sk_list s ! pos, Some s') \<and> st_ok s' \<and>
      st_num s' = st_num s - 1 \<and> st_comp s' = st_comp s \<and> st_sorted s' = st_sorted s \<and>
      sk_list s' = take pos (sk_list s) @ drop (Suc pos) (sk_list s)"
proof -
  show "pos \<ge> st_num s \<Longrightarrow> sk_delete (Some s) pos = (NULL, Some s)" by (simp add: sk_delete_def)
  assume p: "pos < st_num s"
  let ?d = "if pos \<noteq> st_num s - 1 then store_at pos (take (st_num s - pos - 1) (drop (pos + 1) (st_data s))) (st_data s) else st_data s"
  have len: "length (st_data s) = st_num_alloc s" "st_num s < st_num_alloc s" using assms by (simp_all add: st_ok_def)
  have "take (st_num s - 1) ?d = take pos (sk_list s) @ drop (Suc pos) (sk_list s)"
  proof (cases "pos = st_num s - 1")
    case True
    then show ?thesis using p len by (simp add: sk_list_def min_def)
  next
    case False
    then have "pos < st_num s - 1" using p by simp
    then show ?thesis using p len by (simp add: sk_list_def store_at_def take_drop min_def)
  qed
  moreover have "length ?d = st_num_alloc s" using p len by simp
  ultimately show "\<exists>s'. sk_delete (Some s) pos = (sk_list s ! pos, Some s') \<and> st_ok s' \<and>
      st_num s' = st_num s - 1 \<and> st_comp s' = st_comp s \<and> st_sorted s' = st_sorted s \<and>
      sk_list s' = take pos (sk_list s) @ drop (Suc pos) (sk_list s)"
    using p assms by (intro exI [of _ "s\<lparr>st_data := ?d, st_num := st_num s - 1\<rparr>"])
      (auto simp: sk_delete_def Let_def st_ok_def sk_list_def)
qed

lemma sk_scan_spec:
  "case sk_scan data p i n of
     Some k \<Rightarrow> i \<le> k \<and> k < i + n \<and> data ! k = p \<and> (\<forall>j. i \<le> j \<longrightarrow> j < k \<longrightarrow> data ! j \<noteq> p)
   | None \<Rightarrow> \<forall>j. i \<le> j \<longrightarrow> j < i + n \<longrightarrow> data ! j \<noteq> p"
proof (induction n arbitrary: i)
  case (Suc n)
  have "j = i \<or> i + 1 \<le> j" if "i \<le> j" for j using that by linarith
  with Suc [of "i + 1"] show ?case by (auto split: option.splits)
qed simp

lemma sk_first_spec:
  "sk_first cmp data p k \<le> k \<and> (\<forall>j. sk_first cmp data p k \<le> j \<longrightarrow> j < k \<longrightarrow> cmp p (data ! j) = 0) \<and>
    (0 < sk_first cmp data p k \<longrightarrow> cmp p (data ! (sk_first cmp data p k - 1)) \<noteq> 0)"
  by (induction k) (auto simp: less_Suc_eq)

text \<open>The flag \<open>sorted\<close> means what the header says of it.\<close>

definition st_sorted_ok :: "caller \<Rightarrow> STACK \<Rightarrow> bool" where
  "st_sorted_ok call s \<longleftrightarrow> (st_sorted s \<longrightarrow> sorted_wrt (\<lambda>x y. call (st_comp s) x y \<le> 0) (sk_list s))"

lemma sk_sort_ok:
  assumes "comparator (call (st_comp s))" and "st_ok s" and "st_sorted_ok call s" and "st_comp s \<noteq> NULL"
  shows "\<exists>s'. sk_sort call (Some s) = Some s' \<and> st_ok s' \<and> st_comp s' = st_comp s \<and> st_num s' = st_num s \<and> st_sorted s' \<and>
    st_sorted_ok call s' \<and> mset (sk_list s') = mset (sk_list s)"
proof (cases "st_sorted s")
  case True
  then show ?thesis using assms by (simp add: sk_sort_def)
next
  case False
  let ?q = "qsort (call (st_comp s)) (take (st_num s) (st_data s))"
  have len: "length ?q = st_num s" using assms(2) by (simp add: st_ok_def)
  with False assms comparator.sorted_qsort [OF assms(1)] show ?thesis
    by (simp add: sk_sort_def st_ok_def st_sorted_ok_def sk_list_def store_at_def mset_qsort)
qed

lemma sk_find_sorted:
  assumes "comparator (call (st_comp s))" and "st_ok s" and "st_sorted_ok call s" and "st_comp s \<noteq> NULL" and "p \<noteq> NULL"
  shows "\<exists>s'. st_ok s' \<and> st_sorted_ok call s' \<and> mset (sk_list s') = mset (sk_list s) \<and>
    snd (sk_find call (Some s) p) = Some s' \<and>
    (case fst (sk_find call (Some s) p) of
       Some i \<Rightarrow> i < st_num s \<and> call (st_comp s) p (sk_list s' ! i) = 0 \<and>
         (\<forall>j < i. call (st_comp s) p (sk_list s' ! j) \<noteq> 0)
     | None \<Rightarrow> \<forall>x \<in> set (sk_list s). call (st_comp s) p x \<noteq> 0)"
proof -
  let ?c = "call (st_comp s)"
  obtain t where t: "sk_sort call (Some s) = Some t" "st_ok t" "st_comp t = st_comp s" "st_num t = st_num s"
    "st_sorted_ok call t" "mset (sk_list t) = mset (sk_list s)" and srt: "sorted_wrt (\<lambda>x y. ?c x y \<le> 0) (sk_list t)"
    using sk_sort_ok [of call, OF assms(1-4)] by (auto simp: st_sorted_ok_def)
  have find: "sk_find call (Some s) p = (case bsearch ?c p (sk_list t) of
      None \<Rightarrow> (None, Some t) | Some idx \<Rightarrow> (Some (sk_first ?c (st_data t) p idx), Some t))"
    using t(1,3) assms(4,5) by (simp add: sk_find_def sk_list_def split: option.split)
  show ?thesis
  proof (cases "bsearch ?c p (sk_list t)")
    case None
    moreover have "set (sk_list t) = set (sk_list s)" using t(6) by (rule mset_eq_setD)
    ultimately show ?thesis using find t comparator.bsearch_correct(2) [OF assms(1) srt None] by simp
  next
    case (Some idx)
    from comparator.bsearch_correct(1) [OF assms(1) srt Some] t(2,4)
    have idx: "idx < st_num s" "?c p (sk_list t ! idx) = 0" by simp_all
    let ?f = "sk_first ?c (st_data t) p idx"
    have nth: "st_data t ! j = sk_list t ! j" if "j \<le> idx" for j using sk_list_nth [OF t(2), of j] idx(1) t(4) that by simp
    have f: "?f \<le> idx" "?c p (sk_list t ! ?f) = 0" "0 < ?f \<Longrightarrow> ?c p (sk_list t ! (?f - 1)) \<noteq> 0"
      using sk_first_spec [of ?c "st_data t" p idx] idx(2) nth [of ?f] nth [of "?f - 1"] by (cases "?f = idx"; auto)+
    have "?f < length (sk_list t)" using f(1) idx(1) t(2,4) by simp
    from comparator.first_match [OF assms(1) srt this f(2,3)] f(1,2) idx(1) find Some t show ?thesis by simp
  qed
qed

lemma sk_find_pointer:
  assumes "st_comp s = NULL"
  shows "snd (sk_find call (Some s) p) = Some s"
    and "case fst (sk_find call (Some s) p) of
       Some i \<Rightarrow> i < st_num s \<and> st_data s ! i = p \<and> (\<forall>j < i. st_data s ! j \<noteq> p)
     | None \<Rightarrow> \<forall>i < st_num s. st_data s ! i \<noteq> p"
  using sk_scan_spec [of 0 "st_num s" "st_data s" p] assms by (auto simp: sk_find_def split: option.splits)

section \<open>The interface its clients use\<close>

text \<open>A growable sequence: insertion may fail and then changes nothing, removal always works.\<close>

locale sequence =
  fixes inv :: "'s \<Rightarrow> bool"
    and contents :: "'s \<Rightarrow> 'a list"
    and ins :: "'s \<Rightarrow> 'a \<Rightarrow> nat \<Rightarrow> 's option"
    and del :: "'s \<Rightarrow> nat \<Rightarrow> 'a \<times> 's"
  assumes ins_inv: "inv s \<Longrightarrow> ins s x i = Some s' \<Longrightarrow> inv s'"
    and ins_contents: "inv s \<Longrightarrow> ins s x i = Some s' \<Longrightarrow> contents s' = take i (contents s) @ x # drop i (contents s)"
    and del_inv: "inv s \<Longrightarrow> i < length (contents s) \<Longrightarrow> inv (snd (del s i))"
    and del_fst: "inv s \<Longrightarrow> i < length (contents s) \<Longrightarrow> fst (del s i) = contents s ! i"
    and del_contents: "inv s \<Longrightarrow> i < length (contents s) \<Longrightarrow>
      contents (snd (del s i)) = take i (contents s) @ drop (Suc i) (contents s)"
begin

fun push_all :: "'s \<Rightarrow> 'a list \<Rightarrow> 's option" where
  "push_all s [] = Some s"
| "push_all s (x # xs) = (case ins s x (length (contents s)) of None \<Rightarrow> None | Some s' \<Rightarrow> push_all s' xs)"

fun shift_n :: "'s \<Rightarrow> nat \<Rightarrow> 'a list \<times> 's" where
  "shift_n s 0 = ([], s)"
| "shift_n s (Suc n) = (case del s 0 of (x, s') \<Rightarrow> case shift_n s' n of (xs, s'') \<Rightarrow> (x # xs, s''))"

fun pop_n :: "'s \<Rightarrow> nat \<Rightarrow> 'a list \<times> 's" where
  "pop_n s 0 = ([], s)"
| "pop_n s (Suc n) = (case del s (length (contents s) - 1) of (x, s') \<Rightarrow> case pop_n s' n of (xs, s'') \<Rightarrow> (x # xs, s''))"

lemma push_all_contents: "inv s \<Longrightarrow> push_all s xs = Some s' \<Longrightarrow> inv s' \<and> contents s' = contents s @ xs"
proof (induction xs arbitrary: s)
  case (Cons x xs)
  from Cons.prems(2) obtain t where t: "ins s x (length (contents s)) = Some t" "push_all t xs = Some s'"
    by (auto split: option.splits)
  from Cons.IH [OF ins_inv [OF Cons.prems(1) t(1)] t(2)] ins_contents [OF Cons.prems(1) t(1)] show ?case by simp
qed simp

lemma shift_n_contents: "inv s \<Longrightarrow> n \<le> length (contents s) \<Longrightarrow>
  fst (shift_n s n) = take n (contents s) \<and> inv (snd (shift_n s n)) \<and> contents (snd (shift_n s n)) = drop n (contents s)"
proof (induction n arbitrary: s)
  case (Suc n)
  have l: "0 < length (contents s)" using Suc.prems(2) by linarith
  obtain x t where d: "del s 0 = (x, t)" by force
  have t: "inv t" "x = contents s ! 0" "contents t = drop 1 (contents s)"
    using del_inv [OF Suc.prems(1) l] del_fst [OF Suc.prems(1) l] del_contents [OF Suc.prems(1) l] d by simp_all
  obtain xs u where u: "shift_n t n = (xs, u)" by force
  have "n \<le> length (contents t)" using Suc.prems(2) t(3) by simp
  from Suc.IH [OF t(1) this] u t l show ?case by (cases "contents s") (simp_all add: d)
qed simp

lemma pop_n_contents: "inv s \<Longrightarrow> n \<le> length (contents s) \<Longrightarrow>
  fst (pop_n s n) = take n (rev (contents s)) \<and> inv (snd (pop_n s n)) \<and>
  contents (snd (pop_n s n)) = take (length (contents s) - n) (contents s)"
proof (induction n arbitrary: s)
  case (Suc n)
  have l: "length (contents s) - 1 < length (contents s)" using Suc.prems(2) by linarith
  obtain x t where d: "del s (length (contents s) - 1) = (x, t)" by force
  obtain ys y where s: "contents s = ys @ [y]" using Suc.prems(2) by (cases "contents s" rule: rev_cases) auto
  have t: "inv t" "x = y" "contents t = ys"
    using del_inv [OF Suc.prems(1) l] del_fst [OF Suc.prems(1) l] del_contents [OF Suc.prems(1) l] d by (simp_all add: s)
  obtain xs u where u: "pop_n t n = (xs, u)" by force
  have "n \<le> length (contents t)" using Suc.prems(2) t(3) s by simp
  from Suc.IH [OF t(1) this] u t d show ?case by (simp add: s)
qed simp

text \<open>Elements come out of one end in the order they went in, out of the other in the opposite order.\<close>

lemma fifo_lifo:
  assumes "inv s" and "contents s = []" and "push_all s xs = Some s'"
  shows "fst (shift_n s' (length xs)) = xs" and "fst (pop_n s' (length xs)) = rev xs"
  using push_all_contents [OF assms(1,3)] assms(2) shift_n_contents [of s' "length xs"] pop_n_contents [of s' "length xs"] by simp_all

end

definition st_ins :: "palloc \<Rightarrow> STACK \<Rightarrow> ptr \<Rightarrow> nat \<Rightarrow> STACK option" where
  "st_ins palloc s p i = (case sk_insert palloc (Some s) p i of (n, sk) \<Rightarrow> if n = 0 then None else sk)"

definition st_del :: "STACK \<Rightarrow> nat \<Rightarrow> ptr \<times> STACK" where
  "st_del s i = (case sk_delete (Some s) i of (p, sk) \<Rightarrow> (p, the sk))"

lemma sequence_stack:
  assumes "palloc_ok palloc"
  shows "sequence st_ok sk_list (st_ins palloc) st_del"
proof -
  have i: "st_ok s' \<and> sk_list s' = take i (sk_list s) @ x # drop i (sk_list s)" if "st_ok s" "st_ins palloc s x i = Some s'" for s x i s'
  proof -
    obtain n sk where r: "sk_insert palloc (Some s) x i = (n, sk)" by force
    with that(2) have "n \<noteq> 0" "sk = Some s'" by (auto simp: st_ins_def split: if_splits)
    with sk_insert_ok [OF assms that(1) r] show ?thesis by auto
  qed
  have d: "\<exists>s'. st_del s i = (sk_list s ! i, s') \<and> st_ok s' \<and> sk_list s' = take i (sk_list s) @ drop (Suc i) (sk_list s)"
    if "st_ok s" "i < length (sk_list s)" for s i
    using sk_delete_ok(2) [OF that(1), of i] that by (auto simp: st_del_def)
  show ?thesis
    by unfold_locales (use i in blast, use i in blast, use d in fastforce, use d in fastforce, use d in fastforce)
qed

text \<open>An allocator that clears what it returns and refuses the sizes \<open>ok\<close> rules out.\<close>

definition some_palloc :: "(nat \<Rightarrow> bool) \<Rightarrow> palloc" where
  "some_palloc ok sz = (if ok sz then Some (replicate (sz div SIZEOF_PTR) NULL) else None)"

lemma some_palloc_ok: "palloc_ok (some_palloc ok)"
  by (simp add: palloc_ok_def some_palloc_def)

interpretation sk: sequence st_ok sk_list "st_ins (some_palloc ok)" st_del for ok
  by (rule sequence_stack) (rule some_palloc_ok)

section \<open>Pushing, popping and shifting\<close>

fun sk_push_all :: "palloc \<Rightarrow> STACK option \<Rightarrow> ptr list \<Rightarrow> STACK option" where
  "sk_push_all palloc sk [] = sk"
| "sk_push_all palloc sk (p # ps) =
    (case sk_push palloc sk p of None \<Rightarrow> None | Some (n, sk') \<Rightarrow> if n = 0 then None else sk_push_all palloc sk' ps)"

fun sk_shift_n :: "STACK option \<Rightarrow> nat \<Rightarrow> ptr list" where
  "sk_shift_n sk 0 = []"
| "sk_shift_n sk (Suc n) = (case sk_shift sk of (p, sk') \<Rightarrow> p # sk_shift_n sk' n)"

fun sk_pop_n :: "STACK option \<Rightarrow> nat \<Rightarrow> ptr list" where
  "sk_pop_n sk 0 = []"
| "sk_pop_n sk (Suc n) = (case sk_pop sk of (p, sk') \<Rightarrow> p # sk_pop_n sk' n)"

lemma sk_push_all_eq:
  assumes "palloc_ok palloc"
  shows "st_ok s \<Longrightarrow> sk_push_all palloc (Some s) ps = sequence.push_all sk_list (st_ins palloc) s ps"
proof (induction ps arbitrary: s)
  case Nil
  then show ?case by (simp add: sequence.push_all.simps [OF sequence_stack [OF assms]])
next
  case (Cons p ps)
  obtain n sk where r: "sk_insert palloc (Some s) p (st_num s) = (n, sk)" by force
  have i: "st_ins palloc s p (length (sk_list s)) = (if n = 0 then None else sk)" using r Cons.prems by (simp add: st_ins_def)
  have c: "sk_push palloc (Some s) p = Some (n, sk)" using r by (simp add: sk_push_def)
  show ?case using sk_insert_ok [OF assms Cons.prems r] Cons.IH i c
    by (auto simp: sequence.push_all.simps [OF sequence_stack [OF assms]])
qed

lemma sk_shift_n_eq:
  assumes "palloc_ok palloc"
  shows "st_ok s \<Longrightarrow> n \<le> st_num s \<Longrightarrow> sk_shift_n (Some s) n = fst (sequence.shift_n st_del s n)"
proof (induction n arbitrary: s)
  case (Suc n)
  then have "0 < st_num s" by simp
  from sk_delete_ok(2) [OF Suc.prems(1) this] obtain t where
    "sk_delete (Some s) 0 = (sk_list s ! 0, Some t)" "st_ok t" "st_num t = st_num s - 1" by blast
  moreover from this have "st_del s 0 = (sk_list s ! 0, t)" "sk_shift (Some s) = (sk_list s ! 0, Some t)"
    using Suc.prems by (simp_all add: st_del_def sk_shift_def)
  ultimately show ?case using Suc
    by (simp add: sequence.shift_n.simps [OF sequence_stack [OF assms]] case_prod_beta)
qed (simp add: sequence.shift_n.simps [OF sequence_stack [OF assms]])

lemma sk_pop_n_eq:
  assumes "palloc_ok palloc"
  shows "st_ok s \<Longrightarrow> n \<le> st_num s \<Longrightarrow> sk_pop_n (Some s) n = fst (sequence.pop_n sk_list st_del s n)"
proof (induction n arbitrary: s)
  case (Suc n)
  then have "st_num s - 1 < st_num s" by simp
  from sk_delete_ok(2) [OF Suc.prems(1) this] obtain t where
    "sk_delete (Some s) (st_num s - 1) = (sk_list s ! (st_num s - 1), Some t)" "st_ok t" "st_num t = st_num s - 1" by blast
  moreover from this have "st_del s (length (sk_list s) - 1) = (sk_list s ! (st_num s - 1), t)"
      "sk_pop (Some s) = (sk_list s ! (st_num s - 1), Some t)"
    using Suc.prems by (simp_all add: st_del_def sk_pop_def)
  ultimately show ?case using Suc
    by (simp add: sequence.pop_n.simps [OF sequence_stack [OF assms]] case_prod_beta)
qed (simp add: sequence.pop_n.simps [OF sequence_stack [OF assms]])

lemma sk_fifo_lifo:
  assumes "palloc_ok palloc" and "st_ok s" and "sk_list s = []" and "sk_push_all palloc (Some s) ps = Some s'"
  shows "sk_list s' = ps" and "sk_shift_n (Some s') (length ps) = ps" and "sk_pop_n (Some s') (length ps) = rev ps"
proof -
  have p: "sequence.push_all sk_list (st_ins palloc) s ps = Some s'" using assms(4) sk_push_all_eq [OF assms(1,2)] by simp
  have s': "st_ok s'" "sk_list s' = ps" using sequence.push_all_contents [OF sequence_stack [OF assms(1)] assms(2) p] assms(3) by auto
  then have "st_num s' = length ps" using length_sk_list by metis
  with s' sequence.fifo_lifo [OF sequence_stack [OF assms(1)] assms(2,3) p] sk_shift_n_eq [OF assms(1) s'(1)]
    sk_pop_n_eq [OF assms(1) s'(1)]
  show "sk_list s' = ps" and "sk_shift_n (Some s') (length ps) = ps" and "sk_pop_n (Some s') (length ps) = rev ps" by simp_all
qed

section \<open>Copies\<close>

lemma sk_dup_ok:
  assumes "palloc_ok palloc" and "st_ok s" and "sk_dup got palloc (Some s) = Some r"
  shows "st_ok r" and "sk_list r = sk_list s" and "st_comp r = st_comp s" and "st_sorted r = st_sorted s" and "st_num r = st_num s"
proof -
  have s: "st_num s < st_num_alloc s" "length (st_data s) = st_num_alloc s" "8 * st_num_alloc s < SIZE_BOUND"
    using assms(2) by (simp_all add: st_ok_def SIZEOF_PTR_def)
  then have m: "size_mul 8 (st_num_alloc s) = 8 * st_num_alloc s" by (simp add: size_mul_id)
  from assms(3) obtain ret blk where blk: "palloc (8 * st_num_alloc s) = Some blk"
    and r: "r = ret\<lparr>st_num := st_num s, st_data := store_at 0 (take (st_num s) (st_data s)) (store_at 0 (take (length blk) (st_data ret)) blk),
      st_sorted := st_sorted s, st_num_alloc := st_num_alloc s, st_comp := st_comp s\<rparr>"
    by (auto simp: sk_dup_def ptr_realloc_def SIZEOF_PTR_def m split: option.splits)
  have "length blk = st_num_alloc s" using assms(1) blk by (auto simp: palloc_ok_def SIZEOF_PTR_def)
  with s show "st_ok r" and "sk_list r = sk_list s" and "st_comp r = st_comp s" and "st_sorted r = st_sorted s" and "st_num r = st_num s"
    by (simp_all add: r st_ok_def sk_list_def SIZEOF_PTR_def store_at_def)
qed

text \<open>Copying a list of pointers one by one, up to the first failure: the copies made, and whether all went well.\<close>

fun copy_elems :: "('s \<Rightarrow> ptr \<Rightarrow> ptr \<times> 's) \<Rightarrow> ptr list \<Rightarrow> 's \<Rightarrow> ptr list \<times> bool \<times> 's" where
  "copy_elems f [] st = ([], True, st)"
| "copy_elems f (p # ps) st =
    (if p = NULL then (case copy_elems f ps st of (qs, ok, st') \<Rightarrow> (NULL # qs, ok, st'))
     else case f st p of (q, st') \<Rightarrow>
       if q = NULL then ([], False, st') else (case copy_elems f ps st' of (qs, ok, st'') \<Rightarrow> (q # qs, ok, st'')))"

lemma deep_copy_loop_spec:
  assumes "i + n = st_num ret" and "st_ok ret"
  shows "deep_copy_loop f ret i n st =
    (case copy_elems f (take n (drop i (st_data ret))) st of (qs, ok, st') \<Rightarrow>
      if ok then (Some (ret\<lparr>st_data := store_at i qs (st_data ret)\<rparr>), [], st')
      else (None, map Call (filter (\<lambda>p. p \<noteq> NULL) (take i (st_data ret) @ qs)) @ [Free_data, Free_stack], st'))"
  using assms
proof (induction n arbitrary: i ret st)
  case (Suc n)
  have len: "i + n < length (st_data ret)" using Suc.prems by (simp add: st_ok_def)
  have cut: "take (Suc n) (drop i (st_data ret)) = st_data ret ! i # take n (drop (Suc i) (st_data ret))"
    using len by (simp add: Cons_nth_drop_Suc [symmetric])
  show ?case
  proof (cases "st_data ret ! i = NULL")
    case True
    then show ?thesis using Suc.IH [of "Suc i" ret st] Suc.prems len
      by (simp add: cut take_Suc_conv_app_nth store_at_Cons store_at_def [of i] store_at_def [of "Suc i"] split: prod.splits)
  next
    case False
    obtain q st' where q: "f st (st_data ret ! i) = (q, st')" by force
    let ?r = "ret\<lparr>st_data := (st_data ret)[i := q]\<rparr>"
    show ?thesis
    proof (cases "q = NULL")
      case True
      then show ?thesis using False q len by (simp add: cut sk_free_def)
    next
      case nz: False
      have "Suc i + n = st_num ?r" "st_ok ?r" using Suc.prems by (simp_all add: st_ok_def)
      note IH = Suc.IH [OF this, of st']
      show ?thesis using False nz q len IH
        by (simp add: cut take_Suc_conv_app_nth store_at_def upd_conv_take_nth_drop add.commute [of i] split: prod.splits)
    qed
  qed
qed simp

lemma sk_deep_copy_ok:
  assumes "palloc_ok palloc" and "st_ok s" and "sk_dup got palloc (Some s) = Some r" and "copy_elems f (sk_list s) st = (qs, ok, st')"
  shows "ok \<Longrightarrow> \<exists>t. sk_deep_copy got palloc (Some s) f st = (Some t, [], st') \<and> sk_list t = qs"
    and "\<not> ok \<Longrightarrow> sk_deep_copy got palloc (Some s) f st =
      (None, map Call (filter (\<lambda>p. p \<noteq> NULL) qs) @ [Free_data, Free_stack], st')"
proof -
  note r = sk_dup_ok [OF assms(1-3)]
  have "length qs = length xs" if "copy_elems f xs st = (qs, True, st')" for xs st qs
    using that by (induction xs arbitrary: st qs) (auto split: if_splits prod.splits)
  with assms(2,4) have len: "ok \<Longrightarrow> length qs = st_num r" using r(5) by simp
  have "copy_elems f (take (st_num r) (drop 0 (st_data r))) st = (qs, ok, st')"
    using assms(4) r(2) by (simp add: sk_list_def)
  with deep_copy_loop_spec [of 0 "st_num r" r f st] r(1) assms(3) len
  show "ok \<Longrightarrow> \<exists>t. sk_deep_copy got palloc (Some s) f st = (Some t, [], st') \<and> sk_list t = qs"
    and "\<not> ok \<Longrightarrow> sk_deep_copy got palloc (Some s) f st =
      (None, map Call (filter (\<lambda>p. p \<noteq> NULL) qs) @ [Free_data, Free_stack], st')"
    by (simp_all add: sk_deep_copy_def sk_list_def store_at_def)
qed

section \<open>Properties\<close>

text \<open>
  C21: \<open>sk_insert\<close> puts the pointer at the position, or at the end when that is past it, growing the array
  when it is full; it keeps the invariant and clears the sorted flag. When the memory is not to be had it returns 0 and
  changes nothing.
\<close>

theorem insert_is_list_insert:
  assumes "palloc_ok palloc" and "st_ok s" and "sk_insert palloc (Some s) p pos = (n, sk')"
  shows "if n = 0 then sk' = Some s
    else \<exists>s'. sk' = Some s' \<and> st_ok s' \<and> n = length (sk_list s') \<and> \<not> st_sorted s' \<and>
      sk_list s' = take pos (sk_list s) @ p # drop pos (sk_list s)"
  using sk_insert_ok [OF assms] length_sk_list [OF assms(2)] by auto

theorem insert_is_list_insert_witness:
  "\<exists>s'. sk_insert (some_palloc (\<lambda>_. True)) (Some \<lparr>st_num = 3, st_data = [7, 8, 9, 0], st_sorted = True, st_num_alloc = 4, st_comp = 2\<rparr>) 5 1 =
    (4, Some s') \<and> sk_list s' = [7, 5, 8, 9] \<and> \<not> st_sorted s'"
proof -
  let ?s = "\<lparr>st_num = 3, st_data = [7, 8, 9, 0], st_sorted = True, st_num_alloc = 4, st_comp = 2\<rparr> :: STACK"
  have ok: "st_ok ?s" by (simp add: st_ok_def SIZEOF_PTR_def SIZE_BOUND_def)
  obtain n sk' where r: "sk_insert (some_palloc (\<lambda>_. True)) (Some ?s) 5 1 = (n, sk')" by force
  then have "n = 4"
    by (auto simp: sk_insert_def sk_grow_def ptr_realloc_def some_palloc_def size_add_def size_mul_def SIZE_BOUND_def
        SIZEOF_PTR_def Let_def)
  with insert_is_list_insert [OF some_palloc_ok ok r] r show ?thesis by (auto simp: sk_list_def)
qed

text \<open>
  C36: what was pushed on an empty stack comes out of \<open>sk_shift\<close> in the same order and out of \<open>sk_pop\<close> in the
  reverse order, across the growth of the array.
\<close>

theorem queue_and_stack:
  assumes "palloc_ok palloc" and "sk_new got palloc cmpf = Some s" and "sk_push_all palloc (Some s) ps = Some s'"
  shows "sk_list s' = ps \<and> sk_shift_n (Some s') (length ps) = ps \<and> sk_pop_n (Some s') (length ps) = rev ps"
proof -
  from sk_new_ok [OF assms(2)] have "st_ok s" "sk_list s = []" by simp_all
  from sk_fifo_lifo [OF assms(1) this assms(3)] show ?thesis by simp
qed

theorem queue_and_stack_witness:
  "\<exists>s'. sk_push_all (some_palloc (\<lambda>_. True)) (sk_new_null True (some_palloc (\<lambda>_. True))) [3, 1, 2] = Some s' \<and>
    sk_pop_n (Some s') 3 = [2, 1, 3]"
proof -
  let ?a = "some_palloc (\<lambda>_. True)"
  have "\<exists>s s'. sk_new True ?a NULL = Some s \<and> sk_push_all ?a (Some s) [3, 1, 2] = Some s'"
    by (simp add: sk_new_def sk_push_def sk_insert_def sk_grow_def some_palloc_def ptr_realloc_def kMinSize_def SIZEOF_PTR_def
        size_add_def size_mul_def SIZE_BOUND_def Let_def)
  then obtain s s' where r: "sk_new True ?a NULL = Some s" "sk_push_all ?a (Some s) [3, 1, 2] = Some s'" by blast
  from queue_and_stack [OF some_palloc_ok r] r show ?thesis by (simp add: sk_new_null_def eval_nat_numeral)
qed

text \<open>
  C22: with a comparison function that is an order, and the sorted flag true to the contents, \<open>sk_find\<close>
  sorts the stack if need be and returns the index of the first element equal to the one sought, and fails only when
  there is none.
\<close>

theorem find_is_first_match:
  assumes "comparator (call (st_comp s))" and "st_ok s" and "st_sorted_ok call s" and "st_comp s \<noteq> NULL" and "p \<noteq> NULL"
  shows "\<exists>s'. st_ok s' \<and> st_sorted_ok call s' \<and> mset (sk_list s') = mset (sk_list s) \<and>
    snd (sk_find call (Some s) p) = Some s' \<and>
    (case fst (sk_find call (Some s) p) of
       Some i \<Rightarrow> i < st_num s \<and> call (st_comp s) p (sk_list s' ! i) = 0 \<and> (\<forall>j < i. call (st_comp s) p (sk_list s' ! j) \<noteq> 0)
     | None \<Rightarrow> \<forall>x \<in> set (sk_list s). call (st_comp s) p x \<noteq> 0)"
  using assms by (rule sk_find_sorted)

definition by_value :: caller where
  "by_value f x y = int x - int y"

lemma by_value_comparator: "comparator (by_value f)"
  by unfold_locales (auto simp: by_value_def sgn_if)

theorem find_is_first_match_witness:
  "\<exists>i. fst (sk_find by_value (Some \<lparr>st_num = 3, st_data = [9, 7, 8, 0], st_sorted = False, st_num_alloc = 4, st_comp = 2\<rparr>) 8) = Some i"
proof -
  let ?s = "\<lparr>st_num = 3, st_data = [9, 7, 8, 0], st_sorted = False, st_num_alloc = 4, st_comp = 2\<rparr> :: STACK"
  have ok: "st_ok ?s" "st_sorted_ok by_value ?s" "st_comp ?s \<noteq> NULL" "(8 :: ptr) \<noteq> NULL"
    by (simp_all add: st_ok_def st_sorted_ok_def SIZEOF_PTR_def SIZE_BOUND_def NULL_def)
  have "fst (sk_find by_value (Some ?s) 8) \<noteq> None"
    using find_is_first_match [OF by_value_comparator ok] by (auto simp: sk_list_def by_value_def split: option.splits)
  then show ?thesis by blast
qed

text \<open>
  C38: \<open>sk_set\<close> leaves the sorted flag as it was. On a stack that has been sorted it can break the
  order the flag promises, and then \<open>sk_find\<close> does not find an element that is there.
\<close>

theorem set_keeps_stale_flag:
  "\<exists>s p. comparator (by_value (st_comp s)) \<and> st_ok s \<and> st_sorted_ok by_value s \<and>
    (\<exists>s'. sk_set (Some s) 0 p = (p, Some s') \<and> sk_is_sorted (Some s') \<and> \<not> st_sorted_ok by_value s' \<and>
      p \<in> set (sk_list s') \<and> fst (sk_find by_value (Some s') p) = None)"
proof (intro exI conjI)
  let ?s = "\<lparr>st_num = 3, st_data = [1, 2, 3, 0], st_sorted = True, st_num_alloc = 4, st_comp = 2\<rparr> :: STACK"
  let ?s' = "\<lparr>st_num = 3, st_data = [9, 2, 3, 0], st_sorted = True, st_num_alloc = 4, st_comp = 2\<rparr> :: STACK"
  show "comparator (by_value (st_comp ?s))" by (rule by_value_comparator)
  show "st_ok ?s" by (simp add: st_ok_def SIZEOF_PTR_def SIZE_BOUND_def)
  show "st_sorted_ok by_value ?s" by (simp add: st_sorted_ok_def sk_list_def by_value_def)
  show "sk_set (Some ?s) 0 9 = (9, Some ?s')" by (simp add: sk_set_def)
  show "sk_is_sorted (Some ?s')" by (simp add: sk_is_sorted_def)
  show "\<not> st_sorted_ok by_value ?s'" by (simp add: st_sorted_ok_def sk_list_def by_value_def)
  show "9 \<in> set (sk_list ?s')" by (simp add: sk_list_def)
  show "fst (sk_find by_value (Some ?s') 9) = None"
    by (simp add: sk_find_def sk_sort_def bsearch_def bsearch_loop.simps by_value_def NULL_def)
qed

text \<open>
  C30: \<open>sk_deep_copy\<close> returns a stack of the copies, null pointers kept; when the copying function fails on
  an element it frees every copy made so far, once each and in order, and then the new stack.
\<close>

theorem deep_copy_frees_copies:
  assumes "palloc_ok palloc" and "st_ok s" and "sk_dup got palloc (Some s) = Some r"
    and "copy_elems copy_func (sk_list s) st = (qs, ok, st')"
  shows "if ok then \<exists>t. sk_deep_copy got palloc (Some s) copy_func st = (Some t, [], st') \<and> sk_list t = qs
    else sk_deep_copy got palloc (Some s) copy_func st = (None, map Call (filter (\<lambda>p. p \<noteq> NULL) qs) @ [Free_data, Free_stack], st')"
  using sk_deep_copy_ok [OF assms] by simp

theorem deep_copy_frees_copies_witness:
  "\<exists>st'. sk_deep_copy True (some_palloc (\<lambda>_. True))
      (Some \<lparr>st_num = 3, st_data = [4, 0, 6, 0], st_sorted = False, st_num_alloc = 4, st_comp = 0\<rparr>)
      (\<lambda>st p. if p = 6 then (NULL, st) else (p + 100, Suc st)) (0 :: nat) = (None, [Call 104, Free_data, Free_stack], st')"
proof -
  let ?s = "\<lparr>st_num = 3, st_data = [4, 0, 6, 0], st_sorted = False, st_num_alloc = 4, st_comp = 0\<rparr> :: STACK"
  let ?f = "\<lambda>(st :: nat) p. if p = 6 then (NULL, st) else (p + 100, Suc st)"
  have ok: "st_ok ?s" by (simp add: st_ok_def SIZEOF_PTR_def SIZE_BOUND_def)
  obtain r where r: "sk_dup True (some_palloc (\<lambda>_. True)) (Some ?s) = Some r"
    by (simp add: sk_dup_def sk_new_def some_palloc_def ptr_realloc_def)
  have c: "copy_elems ?f (sk_list ?s) 0 = ([104, NULL], False, Suc 0)" by (simp add: sk_list_def NULL_def)
  from deep_copy_frees_copies [OF some_palloc_ok ok r c] show ?thesis by (simp add: NULL_def)
qed

end
