(* ===== verification/LHash.thy ===== *)
theory LHash imports Stack Mem begin

text \<open>
  The chained hash table, crypto/lhash/lhash.c. A chain is a list of items, \<open>buckets\<close> a list of chains, and
  the pointer to a \<open>next\<close> field that \<open>get_next_ptr_and_hash\<close> returns is a position in a chain. \<open>can\<close> says
  which sizes \<open>OPENSSL_malloc\<close> grants. The comparison and hash functions are values of the table. The
  lemmas show that the table is a finite map from keys to elements whatever the resizing does, and that
  resizing keeps the average chain short.
\<close>

section \<open>The code\<close>

record LHASH_ITEM =
  it_data :: ptr
  it_hash :: u32

record LHASH =
  lh_count :: nat
  lh_buckets :: "LHASH_ITEM list list"
  lh_num_buckets :: nat
  lh_callback_depth :: nat
  lh_comp :: "ptr \<Rightarrow> ptr \<Rightarrow> int"
  lh_hash :: "ptr \<Rightarrow> u32"

definition kMinNumBuckets :: nat where "kMinNumBuckets = 16"
definition kMaxAverageChainLength :: nat where "kMaxAverageChainLength = 2"
definition kMinAverageChainLength :: nat where "kMinAverageChainLength = 1"
definition UINT_MAX :: nat where "UINT_MAX = 2 ^ 32 - 1"
definition SIZEOF_LHASH :: nat where "SIZEOF_LHASH = 48"
definition SIZEOF_LHASH_ITEM :: nat where "SIZEOF_LHASH_ITEM = 24"

definition lh_new :: "(nat \<Rightarrow> bool) \<Rightarrow> (ptr \<Rightarrow> u32) \<Rightarrow> (ptr \<Rightarrow> ptr \<Rightarrow> int) \<Rightarrow> LHASH option" where
  "lh_new can hash cmpf =
    (if \<not> can SIZEOF_LHASH then None
     else if \<not> can (SIZEOF_PTR * kMinNumBuckets) then None
     else Some \<lparr>lh_count = 0, lh_buckets = replicate kMinNumBuckets [], lh_num_buckets = kMinNumBuckets,
       lh_callback_depth = 0, lh_comp = cmpf, lh_hash = hash\<rparr>)"

text \<open>What \<open>lh_free\<close> hands to \<open>OPENSSL_free\<close>, in order.\<close>

datatype lh_effect = Free_item LHASH_ITEM | Free_buckets | Free_lhash

definition lh_free :: "LHASH option \<Rightarrow> lh_effect list" where
  "lh_free lh = (case lh of None \<Rightarrow> []
    | Some t \<Rightarrow> concat (map (map Free_item) (lh_buckets t)) @ [Free_buckets, Free_lhash])"

definition lh_num_items :: "LHASH \<Rightarrow> nat" where
  "lh_num_items lh = lh_count lh"

text \<open>The search along a chain: the position of the first equal element, or the length of the chain.\<close>

fun chain_pos :: "(ptr \<Rightarrow> ptr \<Rightarrow> int) \<Rightarrow> LHASH_ITEM list \<Rightarrow> ptr \<Rightarrow> nat" where
  "chain_pos cmpf [] data = 0"
| "chain_pos cmpf (cur # rest) data = (if cmpf (it_data cur) data = 0 then 0 else Suc (chain_pos cmpf rest data))"

definition get_next_ptr_and_hash :: "LHASH \<Rightarrow> ptr \<Rightarrow> u32 \<times> nat \<times> nat" where
  "get_next_ptr_and_hash lh data =
    (let hash = lh_hash lh data; b = unat hash mod lh_num_buckets lh
     in (hash, b, chain_pos (lh_comp lh) (lh_buckets lh ! b) data))"

definition lh_retrieve :: "LHASH \<Rightarrow> ptr \<Rightarrow> ptr" where
  "lh_retrieve lh data =
    (case get_next_ptr_and_hash lh data of (_, b, k) \<Rightarrow>
      if k = length (lh_buckets lh ! b) then NULL else it_data (lh_buckets lh ! b ! k))"

text \<open>An item moves to the head of its new chain.\<close>

definition rebucket_item :: "nat \<Rightarrow> LHASH_ITEM \<Rightarrow> LHASH_ITEM list list \<Rightarrow> LHASH_ITEM list list" where
  "rebucket_item n cur bs = (let b = unat (it_hash cur) mod n in bs[b := cur # bs ! b])"

definition lh_rebucket :: "(nat \<Rightarrow> bool) \<Rightarrow> LHASH \<Rightarrow> nat \<Rightarrow> LHASH" where
  "lh_rebucket can lh new_num_buckets =
    (let alloc_size = size_mul SIZEOF_PTR new_num_buckets
     in if alloc_size div SIZEOF_PTR \<noteq> new_num_buckets then lh
        else if \<not> can alloc_size then lh
        else lh\<lparr>lh_num_buckets := new_num_buckets,
                lh_buckets := fold (fold (rebucket_item new_num_buckets)) (lh_buckets lh) (replicate new_num_buckets [])\<rparr>)"

definition lh_maybe_resize :: "(nat \<Rightarrow> bool) \<Rightarrow> LHASH \<Rightarrow> LHASH" where
  "lh_maybe_resize can lh =
    (if lh_callback_depth lh > 0 then lh
     else let avg_chain_length = lh_count lh div lh_num_buckets lh
     in if avg_chain_length > kMaxAverageChainLength
        then let new_num_buckets = size_mul (lh_num_buckets lh) 2
             in if new_num_buckets > lh_num_buckets lh then lh_rebucket can lh new_num_buckets else lh
        else if avg_chain_length < kMinAverageChainLength \<and> lh_num_buckets lh > kMinNumBuckets
        then let new_num_buckets = lh_num_buckets lh div 2;
                 new_num_buckets = (if new_num_buckets < kMinNumBuckets then kMinNumBuckets else new_num_buckets)
             in lh_rebucket can lh new_num_buckets
        else lh)"

text \<open>The result, \<open>*old_data\<close> and the table.\<close>

definition lh_insert :: "(nat \<Rightarrow> bool) \<Rightarrow> LHASH \<Rightarrow> ptr \<Rightarrow> bool \<times> ptr \<times> LHASH" where
  "lh_insert can lh data =
    (case get_next_ptr_and_hash lh data of (hash, b, k) \<Rightarrow>
      (let chain = lh_buckets lh ! b
       in if k < length chain
          then (True, it_data (chain ! k), lh\<lparr>lh_buckets := (lh_buckets lh)[b := chain[k := (chain ! k)\<lparr>it_data := data\<rparr>]]\<rparr>)
          else if \<not> can SIZEOF_LHASH_ITEM then (False, NULL, lh)
          else (True, NULL, lh_maybe_resize can (lh\<lparr>lh_buckets := (lh_buckets lh)[b := chain @ [\<lparr>it_data = data, it_hash = hash\<rparr>]],
                 lh_count := size_add (lh_count lh) 1\<rparr>))))"

definition lh_delete :: "(nat \<Rightarrow> bool) \<Rightarrow> LHASH \<Rightarrow> ptr \<Rightarrow> ptr \<times> LHASH" where
  "lh_delete can lh data =
    (case get_next_ptr_and_hash lh data of (_, b, k) \<Rightarrow>
      (let chain = lh_buckets lh ! b
       in if k = length chain then (NULL, lh)
          else (it_data (chain ! k), lh_maybe_resize can (lh\<lparr>lh_buckets := (lh_buckets lh)[b := take k chain @ drop (Suc k) chain],
                 lh_count := lh_count lh - 1\<rparr>))))"

text \<open>
  The callback has a state of its own and does not touch the table; the depth counter, which is there
  for callbacks that do, saturates.
\<close>

definition lh_doall_internal :: "(nat \<Rightarrow> bool) \<Rightarrow> LHASH option \<Rightarrow> ('s \<Rightarrow> ptr \<Rightarrow> 's) \<Rightarrow> 's \<Rightarrow> 's \<times> LHASH option" where
  "lh_doall_internal can lh func st = (case lh of None \<Rightarrow> (st, None)
    | Some t \<Rightarrow>
      (let t = (if lh_callback_depth t < UINT_MAX then t\<lparr>lh_callback_depth := lh_callback_depth t + 1\<rparr> else t);
           st = foldl (foldl (\<lambda>st cur. func st (it_data cur))) st (lh_buckets t);
           t = (if lh_callback_depth t < UINT_MAX then t\<lparr>lh_callback_depth := lh_callback_depth t - 1\<rparr> else t)
       in (st, Some (lh_maybe_resize can t))))"

definition lh_doall :: "(nat \<Rightarrow> bool) \<Rightarrow> LHASH option \<Rightarrow> ('s \<Rightarrow> ptr \<Rightarrow> 's) \<Rightarrow> 's \<Rightarrow> 's \<times> LHASH option" where
  "lh_doall can lh func st = lh_doall_internal can lh func st"

definition lh_doall_arg :: "(nat \<Rightarrow> bool) \<Rightarrow> LHASH option \<Rightarrow> ('s \<Rightarrow> ptr \<Rightarrow> 'b \<Rightarrow> 's) \<Rightarrow> 'b \<Rightarrow> 's \<Rightarrow> 's \<times> LHASH option" where
  "lh_doall_arg can lh func arg st = lh_doall_internal can lh (\<lambda>st p. func st p arg) st"

text \<open>\<open>None\<close> for the string is a null pointer; \<open>None\<close> for the result is a string with no terminator.\<close>

definition lh_strhash :: "u8 list option \<Rightarrow> u32 option" where
  "lh_strhash c = (case c of None \<Rightarrow> Some 0
    | Some s \<Rightarrow> map_option (\<lambda>n. OPENSSL_hash32 (take n s)) (strlen s))"

section \<open>The table is a map\<close>

text \<open>
  The contract of the two functions: comparing is equality of some key and the hash depends on the key
  only. Every equivalence with a compatible hash has this form.
\<close>

type_synonym 'k keying = "(ptr \<Rightarrow> 'k) \<times> ('k \<Rightarrow> u32)"

definition items :: "LHASH \<Rightarrow> LHASH_ITEM list" where
  "items lh = concat (lh_buckets lh)"

definition assoc :: "(ptr \<Rightarrow> 'k) \<Rightarrow> LHASH_ITEM list \<Rightarrow> ('k \<times> ptr) list" where
  "assoc key its = map (\<lambda>it. (key (it_data it), it_data it)) its"

definition lh_map :: "(ptr \<Rightarrow> 'k) \<Rightarrow> LHASH \<Rightarrow> 'k \<rightharpoonup> ptr" where
  "lh_map key lh = map_of (assoc key (items lh))"

definition item_ok :: "(ptr \<Rightarrow> 'k) \<Rightarrow> ('k \<Rightarrow> u32) \<Rightarrow> nat \<Rightarrow> nat \<Rightarrow> LHASH_ITEM \<Rightarrow> bool" where
  "item_ok key hk n i it \<longleftrightarrow> it_hash it = hk (key (it_data it)) \<and> unat (it_hash it) mod n = i"

definition lh_ok :: "(ptr \<Rightarrow> 'k) \<Rightarrow> ('k \<Rightarrow> u32) \<Rightarrow> LHASH \<Rightarrow> bool" where
  "lh_ok key hk lh \<longleftrightarrow>
    (\<forall>x y. lh_comp lh x y = 0 \<longleftrightarrow> key x = key y) \<and> (\<forall>x. lh_hash lh x = hk (key x)) \<and>
    kMinNumBuckets \<le> lh_num_buckets lh \<and> length (lh_buckets lh) = lh_num_buckets lh \<and> lh_num_buckets lh * SIZEOF_PTR < SIZE_BOUND \<and>
    lh_count lh = length (items lh) \<and> distinct (map fst (assoc key (items lh))) \<and>
    (\<forall>i < lh_num_buckets lh. \<forall>it \<in> set (lh_buckets lh ! i). item_ok key hk (lh_num_buckets lh) i it)"

lemma assoc_simps [simp]: "assoc key [] = []" "assoc key (xs @ ys) = assoc key xs @ assoc key ys"
  "assoc key (it # its) = (key (it_data it), it_data it) # assoc key its"
  by (simp_all add: assoc_def)

lemma lh_okD:
  assumes "lh_ok key hk lh"
  shows "lh_comp lh x y = 0 \<longleftrightarrow> key x = key y" and "lh_hash lh x = hk (key x)" and "0 < lh_num_buckets lh"
    and "length (lh_buckets lh) = lh_num_buckets lh" and "lh_count lh = length (items lh)"
    and "distinct (map fst (assoc key (items lh)))"
  using assms by (auto simp: lh_ok_def kMinNumBuckets_def)

text \<open>Only the multiset of the items matters.\<close>

lemma assoc_mset:
  assumes "mset xs = mset ys"
  shows "distinct (map fst (assoc key xs)) = distinct (map fst (assoc key ys))"
    and "distinct (map fst (assoc key xs)) \<Longrightarrow> map_of (assoc key xs) = map_of (assoc key ys)"
proof -
  have m: "mset (assoc key xs) = mset (assoc key ys)" using assms by (simp add: assoc_def)
  then have "mset (map fst (assoc key xs)) = mset (map fst (assoc key ys))" by simp
  then show d: "distinct (map fst (assoc key xs)) = distinct (map fst (assoc key ys))" by (rule mset_eq_imp_distinct_iff)
  show "map_of (assoc key xs) = map_of (assoc key ys)" if "distinct (map fst (assoc key xs))"
    using that d mset_eq_setD [OF m] by (simp add: map_of_inject_set)
qed

lemma mset_concat_update:
  assumes "b < length bs" and "bs ! b = xs @ old @ ys"
  shows "\<exists>rest. mset (concat bs) = mset (old @ rest) \<and> (\<forall>new. mset (concat (bs[b := xs @ new @ ys])) = mset (new @ rest))"
proof -
  let ?rest = "concat (take b bs) @ xs @ ys @ concat (drop (Suc b) bs)"
  have "concat (bs[b := zs]) = concat (take b bs) @ zs @ concat (drop (Suc b) bs)" for zs
    using upd_conv_take_nth_drop [OF assms(1), of zs] by simp
  then have u: "mset (concat (bs[b := xs @ new @ ys])) = mset (new @ ?rest)" for new by simp
  have "bs[b := bs ! b] = bs" by simp
  with u [of old] assms(2) have "mset (concat bs) = mset (old @ ?rest)" by metis
  with u show ?thesis by blast
qed

text \<open>The elements with a key are in the chain the key's hash selects.\<close>

lemma chain_pos_le: "chain_pos cmpf chain d \<le> length chain"
  by (induction chain) simp_all

lemma chain_pos_spec:
  assumes "\<forall>x y. cmpf x y = 0 \<longleftrightarrow> key x = key y"
  shows "chain_pos cmpf chain d < length chain \<Longrightarrow> key (it_data (chain ! chain_pos cmpf chain d)) = key d"
    and "chain_pos cmpf chain d = length chain \<longleftrightarrow> key d \<notin> fst ` set (assoc key chain)"
  using assms by (induction chain) auto

lemma bucket_complete:
  assumes "lh_ok key hk lh" and "it \<in> set (items lh)"
  shows "it \<in> set (lh_buckets lh ! (unat (hk (key (it_data it))) mod lh_num_buckets lh))"
proof -
  from assms(2) obtain c where c: "c \<in> set (lh_buckets lh)" "it \<in> set c" by (auto simp: items_def)
  then obtain i where "i < lh_num_buckets lh" "it \<in> set (lh_buckets lh ! i)"
    using lh_okD(4) [OF assms(1)] by (metis in_set_conv_nth)
  moreover from this have "item_ok key hk (lh_num_buckets lh) i it" using assms(1) by (simp add: lh_ok_def)
  ultimately show ?thesis unfolding item_ok_def by metis
qed

lemma lookup_cases:
  assumes ok: "lh_ok key hk lh" and g: "get_next_ptr_and_hash lh d = (hash, b, k)"
  defines "chain \<equiv> lh_buckets lh ! b"
  shows "b < length (lh_buckets lh)" and "hash = hk (key d)" and "b = unat hash mod lh_num_buckets lh" and "k \<le> length chain"
    and "k = length chain \<Longrightarrow> lh_map key lh (key d) = None"
    and "k < length chain \<Longrightarrow> lh_map key lh (key d) = Some (it_data (chain ! k)) \<and> key (it_data (chain ! k)) = key d"
proof -
  note D = lh_okD [OF ok]
  have e: "hash = hk (key d)" "b = unat hash mod lh_num_buckets lh" "k = chain_pos (lh_comp lh) chain d"
    using g by (auto simp: get_next_ptr_and_hash_def Let_def D(2) chain_def)
  show "b < length (lh_buckets lh)" "hash = hk (key d)" "b = unat hash mod lh_num_buckets lh" using e D(3,4) by simp_all
  show "k \<le> length chain" by (simp add: e(3) chain_pos_le)
  have sub: "set chain \<subseteq> set (items lh)" using \<open>b < length (lh_buckets lh)\<close> by (auto simp: chain_def items_def intro: nth_mem)
  have cmp: "\<forall>x y. lh_comp lh x y = 0 \<longleftrightarrow> key x = key y" using D(1) by blast
  show "lh_map key lh (key d) = None" if "k = length chain"
  proof -
    have n: "key d \<notin> fst ` set (assoc key chain)" using that chain_pos_spec(2) [OF cmp, of chain d] e(3) by simp
    have "key (it_data it) \<noteq> key d" if "it \<in> set (items lh)" for it
    proof
      assume k: "key (it_data it) = key d"
      then have "it \<in> set chain" using bucket_complete [OF ok that] by (simp add: chain_def e)
      with k n show False by (force simp: assoc_def)
    qed
    then have "key d \<notin> fst ` set (assoc key (items lh))" by (force simp: assoc_def)
    then show ?thesis by (simp add: lh_map_def map_of_eq_None_iff)
  qed
  show "lh_map key lh (key d) = Some (it_data (chain ! k)) \<and> key (it_data (chain ! k)) = key d" if "k < length chain"
  proof -
    have "key (it_data (chain ! k)) = key d" using chain_pos_spec(1) [OF cmp] that e(3) by blast
    moreover have "chain ! k \<in> set (items lh)" using that sub by auto
    ultimately show ?thesis using D(6)
      by (auto simp: lh_map_def assoc_def intro!: map_of_is_SomeI rev_image_eqI)
  qed
qed

section \<open>Resizing\<close>

text \<open>An array of \<open>n\<close> chains that holds the items of \<open>its\<close>, each in its place.\<close>

definition placed :: "nat \<Rightarrow> LHASH_ITEM list \<Rightarrow> LHASH_ITEM list list \<Rightarrow> bool" where
  "placed n its bs \<longleftrightarrow> length bs = n \<and> mset (concat bs) = mset its \<and> (\<forall>i < n. \<forall>it \<in> set (bs ! i). unat (it_hash it) mod n = i)"

lemma rebucket_item_placed:
  assumes "0 < n" and "placed n its bs"
  shows "placed n (its @ [it]) (rebucket_item n it bs)"
proof -
  let ?b = "unat (it_hash it) mod n"
  have b: "?b < length bs" using assms by (simp add: placed_def)
  have c: "bs ! ?b = [] @ [] @ bs ! ?b" by simp
  obtain rest where
    "mset (concat bs) = mset ([] @ rest)" "\<forall>new. mset (concat (bs[?b := [] @ new @ bs ! ?b])) = mset (new @ rest)"
    using mset_concat_update [OF b c] by blast
  from this(1) this(2) [rule_format, of "[it]"] have "mset (concat (bs[?b := it # bs ! ?b])) = add_mset it (mset (concat bs))" by simp
  then have "mset (concat (bs[?b := it # bs ! ?b])) = mset (its @ [it])" using assms(2) unfolding placed_def by (metis mset_append mset.simps add_mset_add_single)
  moreover have "unat (it_hash x) mod n = i" if "i < n" "x \<in> set (bs[?b := it # bs ! ?b] ! i)" for i x
    using that assms(2) b by (cases "i = ?b") (auto simp: placed_def)
  moreover have "length (bs[?b := it # bs ! ?b]) = n" using assms(2) unfolding placed_def by simp
  ultimately show ?thesis unfolding placed_def rebucket_item_def Let_def by blast
qed

lemma rebucket_placed:
  assumes "0 < n"
  shows "placed n (concat bss) (fold (fold (rebucket_item n)) bss (replicate n []))"
proof -
  have f: "fold (fold g) bss s = fold g (concat bss) s" for g :: "LHASH_ITEM \<Rightarrow> LHASH_ITEM list list \<Rightarrow> _" and s
    by (induction bss arbitrary: s) simp_all
  have "placed n its bs \<Longrightarrow> placed n (its @ xs) (fold (rebucket_item n) xs bs)" for its xs bs
  proof (induction xs arbitrary: its bs)
    case (Cons x xs)
    from Cons.IH [OF rebucket_item_placed [OF assms Cons.prems]] show ?case by simp
  qed simp
  from this [of "[]" "replicate n []" "concat bss"] show ?thesis
    unfolding f by (simp add: placed_def)
qed

text \<open>Two tables with the same items, functions and count.\<close>

definition same_items :: "LHASH \<Rightarrow> LHASH \<Rightarrow> bool" where
  "same_items lh lh' \<longleftrightarrow> mset (items lh') = mset (items lh) \<and> lh_count lh' = lh_count lh \<and> lh_comp lh' = lh_comp lh \<and>
    lh_hash lh' = lh_hash lh \<and> lh_callback_depth lh' = lh_callback_depth lh"

lemma same_items_map: "lh_ok key hk lh \<Longrightarrow> same_items lh lh' \<Longrightarrow> lh_map key lh' = lh_map key lh"
  using assoc_mset(2) [of "items lh" "items lh'" key] by (simp add: same_items_def lh_map_def lh_ok_def)

lemma lh_rebucket_ok:
  assumes "lh_ok key hk lh" and "kMinNumBuckets \<le> n" and "n < SIZE_BOUND"
  shows "lh_ok key hk (lh_rebucket can lh n)" and "same_items lh (lh_rebucket can lh n)"
proof -
  have n: "0 < n" using assms(2) by (simp add: kMinNumBuckets_def)
  let ?bs = "fold (fold (rebucket_item n)) (lh_buckets lh) (replicate n [])"
  let ?lh = "lh\<lparr>lh_num_buckets := n, lh_buckets := ?bs\<rparr>"
  have p: "placed n (items lh) ?bs" unfolding items_def by (rule rebucket_placed [OF n])
  then have m: "mset (items ?lh) = mset (items lh)" by (simp add: placed_def items_def)
  have h: "it_hash it = hk (key (it_data it))" if it: "it \<in> set (items lh)" for it
  proof -
    let ?i = "unat (hk (key (it_data it))) mod lh_num_buckets lh"
    have "?i < lh_num_buckets lh" using lh_okD(3) [OF assms(1)] by simp
    then have "item_ok key hk (lh_num_buckets lh) ?i it"
      using assms(1) bucket_complete [OF assms(1) it] by (simp add: lh_ok_def)
    then show ?thesis by (simp add: item_ok_def)
  qed
  have s: "lh_rebucket can lh n = lh \<or> n * SIZEOF_PTR < SIZE_BOUND \<and> lh_rebucket can lh n = ?lh"
    using ptr_overflow_iff [OF assms(3)] by (auto simp: lh_rebucket_def Let_def size_mul_def mult.commute)
  have "lh_ok key hk ?lh" if "n * SIZEOF_PTR < SIZE_BOUND"
  proof -
    have "item_ok key hk n i it" if "i < n" "it \<in> set (?bs ! i)" for i it
    proof -
      have "it \<in> set (concat ?bs)" using that p nth_mem [of i ?bs] by (auto simp: placed_def)
      then have "it \<in> set (items lh)" using p mset_eq_setD [of "concat ?bs" "items lh"] by (auto simp: placed_def)
      with h p that show ?thesis unfolding placed_def item_ok_def by blast
    qed
    then show ?thesis using assms that p m assoc_mset(1) [OF m, of key] mset_eq_length [OF m]
      by (simp add: lh_ok_def placed_def)
  qed
  with s m assms(1) show "lh_ok key hk (lh_rebucket can lh n)" and "same_items lh (lh_rebucket can lh n)"
    by (auto simp: same_items_def)
qed

lemma lh_maybe_resize_ok:
  assumes "lh_ok key hk lh"
  shows "lh_ok key hk (lh_maybe_resize can lh)" and "same_items lh (lh_maybe_resize can lh)"
proof -
  let ?n = "lh_num_buckets lh"
  have n: "kMinNumBuckets \<le> ?n" "?n * 8 < SIZE_BOUND" using assms by (simp_all add: lh_ok_def SIZEOF_PTR_def)
  have d: "size_mul ?n 2 < SIZE_BOUND" by (simp add: size_mul_def SIZE_BOUND_def)
  have same: "same_items lh lh" by (simp add: same_items_def)
  let ?m = "if ?n div 2 < kMinNumBuckets then kMinNumBuckets else ?n div 2"
  have m: "kMinNumBuckets \<le> ?m" "?m < SIZE_BOUND" using n by auto
  have "lh_maybe_resize can lh = lh \<or> lh_maybe_resize can lh = lh_rebucket can lh ?m \<or>
      ?n < size_mul ?n 2 \<and> lh_maybe_resize can lh = lh_rebucket can lh (size_mul ?n 2)"
    unfolding lh_maybe_resize_def Let_def by argo
  then consider "lh_maybe_resize can lh = lh" | "lh_maybe_resize can lh = lh_rebucket can lh ?m"
    | "?n < size_mul ?n 2" "lh_maybe_resize can lh = lh_rebucket can lh (size_mul ?n 2)" by argo
  then have "lh_ok key hk (lh_maybe_resize can lh) \<and> same_items lh (lh_maybe_resize can lh)"
  proof cases
    case 1
    then show ?thesis using assms same by simp
  next
    case 2
    then show ?thesis using lh_rebucket_ok [OF assms m, of can] by simp
  next
    case 3
    then show ?thesis using lh_rebucket_ok [OF assms _ d, of can] n(1) by simp
  qed
  then show "lh_ok key hk (lh_maybe_resize can lh)" and "same_items lh (lh_maybe_resize can lh)" by auto
qed

section \<open>The operations\<close>

lemma lh_new_ok:
  assumes "lh_new can hash cmpf = Some lh" and "\<forall>x y. cmpf x y = 0 \<longleftrightarrow> key x = key y" and "\<forall>x. hash x = hk (key x)"
  shows "lh_ok key hk lh" and "lh_map key lh = Map.empty"
proof -
  have lh: "lh = \<lparr>lh_count = 0, lh_buckets = replicate 16 [], lh_num_buckets = 16, lh_callback_depth = 0, lh_comp = cmpf, lh_hash = hash\<rparr>"
    using assms(1) by (auto simp: lh_new_def kMinNumBuckets_def split: if_splits)
  have "items lh = []" by (simp add: items_def lh)
  then show "lh_ok key hk lh" and "lh_map key lh = Map.empty"
    using assms(2,3) by (simp_all add: lh_ok_def lh_map_def lh kMinNumBuckets_def SIZEOF_PTR_def SIZE_BOUND_def)
qed

lemma lh_retrieve_ok:
  assumes "lh_ok key hk lh"
  shows "lh_retrieve lh d = (case lh_map key lh (key d) of None \<Rightarrow> NULL | Some p \<Rightarrow> p)"
proof -
  obtain hash b k where g: "get_next_ptr_and_hash lh d = (hash, b, k)" by (cases "get_next_ptr_and_hash lh d") auto
  note c = lookup_cases [OF assms g]
  show ?thesis
  proof (cases "k = length (lh_buckets lh ! b)")
    case True
    then show ?thesis using c(5) by (simp add: lh_retrieve_def g)
  next
    case False
    then have "k < length (lh_buckets lh ! b)" using c(4) by simp
    with c(6) False show ?thesis by (simp add: lh_retrieve_def g)
  qed
qed

text \<open>
  The common part of the updates: the chain at \<open>b\<close> is \<open>xs @ old @ ys\<close> and becomes \<open>xs @ new @ ys\<close>, where \<open>new\<close>
  brings no key that the rest of the table has.
\<close>

lemma chain_update_ok:
  assumes ok: "lh_ok key hk lh" and b: "b < length (lh_buckets lh)" and c: "lh_buckets lh ! b = xs @ old @ ys"
    and new: "\<forall>it \<in> set new. item_ok key hk (lh_num_buckets lh) b it"
    and dis: "distinct (map fst (assoc key new))"
    and fresh: "\<And>it. it \<in> set new \<Longrightarrow> key (it_data it) \<in> fst ` set (assoc key old) \<or> lh_map key lh (key (it_data it)) = None"
    and cnt: "n + length old = lh_count lh + length new"
  defines "lh' \<equiv> lh\<lparr>lh_buckets := (lh_buckets lh)[b := xs @ new @ ys], lh_count := n\<rparr>"
  shows "lh_ok key hk lh'"
    and "lh_map key lh' k = (case map_of (assoc key new) k of Some v \<Rightarrow> Some v
      | None \<Rightarrow> if k \<in> fst ` set (assoc key old) then None else lh_map key lh k)"
proof -
  note D = lh_okD [OF ok]
  from mset_concat_update [OF b c] obtain rest where m: "mset (items lh) = mset (old @ rest)"
    and m': "mset (items lh') = mset (new @ rest)" by (auto simp: items_def lh'_def)
  have d0: "distinct (map fst (assoc key (old @ rest)))" using assoc_mset(1) [OF m, of key] D(6) by simp
  have map0: "lh_map key lh = map_of (assoc key (old @ rest))" unfolding lh_map_def by (rule assoc_mset(2) [OF m D(6)])
  have "fst ` set (assoc key new) \<inter> fst ` set (assoc key rest) = {}"
  proof (rule ccontr)
    assume "fst ` set (assoc key new) \<inter> fst ` set (assoc key rest) \<noteq> {}"
    then obtain k where k: "k \<in> fst ` set (assoc key new)" "k \<in> fst ` set (assoc key rest)" by blast
    from k(1) obtain it where "it \<in> set new" "key (it_data it) = k" by (auto simp: assoc_def)
    with k(2) have it: "it \<in> set new" "key (it_data it) \<in> fst ` set (assoc key rest)" by simp_all
    then have "key (it_data it) \<notin> fst ` set (assoc key old)" using d0 by auto
    with fresh [OF it(1)] have "lh_map key lh (key (it_data it)) = None" by blast
    with it(2) show False by (auto simp: map0 map_of_eq_None_iff)
  qed
  then have d1: "distinct (map fst (assoc key (new @ rest)))" using d0 dis by simp
  with assoc_mset(1) [OF m', of key] have d2: "distinct (map fst (assoc key (items lh')))" by simp
  have "n = length (items lh')" using mset_eq_length [OF m] mset_eq_length [OF m'] cnt D(5) by simp
  moreover have "item_ok key hk (lh_num_buckets lh) i it"
    if i: "i < lh_num_buckets lh" "it \<in> set ((lh_buckets lh)[b := xs @ new @ ys] ! i)" for i it
  proof (cases "i = b")
    case True
    then have "it \<in> set new \<or> it \<in> set (lh_buckets lh ! b)" using i b c by auto
    then show ?thesis using new ok True i(1) by (auto simp: lh_ok_def)
  qed (use i ok in \<open>simp add: lh_ok_def\<close>)
  ultimately show "lh_ok key hk lh'" using ok d2 by (simp add: lh_ok_def lh'_def items_def)
  have "lh_map key lh' = map_of (assoc key (new @ rest))" unfolding lh_map_def by (rule assoc_mset(2) [OF m' d2])
  moreover have "map_of (assoc key rest) k = None" if "k \<in> fst ` set (assoc key old)"
    using that d0 by (auto simp: map_of_eq_None_iff)
  moreover have "map_of (assoc key old) k = None" if "k \<notin> fst ` set (assoc key old)"
    using that by (simp add: map_of_eq_None_iff)
  ultimately show "lh_map key lh' k = (case map_of (assoc key new) k of Some v \<Rightarrow> Some v
      | None \<Rightarrow> if k \<in> fst ` set (assoc key old) then None else lh_map key lh k)"
    by (auto simp: map0 map_add_def split: option.splits)
qed

lemma lh_insert_ok:
  assumes "lh_ok key hk lh" and "lh_count lh + 1 < SIZE_BOUND" and "lh_insert can lh d = (r, old, lh')"
  shows "lh_ok key hk lh'" and "old = (case lh_map key lh (key d) of None \<Rightarrow> NULL | Some p \<Rightarrow> p)"
    and "r \<longleftrightarrow> lh_map key lh (key d) \<noteq> None \<or> can SIZEOF_LHASH_ITEM"
    and "lh_map key lh' = (if r then (lh_map key lh)(key d \<mapsto> d) else lh_map key lh)"
proof -
  obtain hash b k where g: "get_next_ptr_and_hash lh d = (hash, b, k)" by (cases "get_next_ptr_and_hash lh d") auto
  note c = lookup_cases [OF assms(1) g]
  let ?chain = "lh_buckets lh ! b"
  have "lh_ok key hk lh' \<and> old = (case lh_map key lh (key d) of None \<Rightarrow> NULL | Some p \<Rightarrow> p) \<and>
    (r \<longleftrightarrow> lh_map key lh (key d) \<noteq> None \<or> can SIZEOF_LHASH_ITEM) \<and>
    lh_map key lh' = (if r then (lh_map key lh)(key d \<mapsto> d) else lh_map key lh)"
  proof (cases "k < length ?chain")
    case True
    note found = c(6) [OF True]
    let ?it = "?chain ! k" and ?new = "(?chain ! k)\<lparr>it_data := d\<rparr>"
    have ch: "?chain = take k ?chain @ [?it] @ drop (Suc k) ?chain" using True by (simp add: id_take_nth_drop [symmetric])
    have up: "?chain[k := ?new] = take k ?chain @ [?new] @ drop (Suc k) ?chain" using True by (simp add: upd_conv_take_nth_drop)
    have "item_ok key hk (lh_num_buckets lh) b ?it"
      using assms(1) c(1) lh_okD(4) [OF assms(1)] nth_mem [OF True] by (simp add: lh_ok_def)
    then have "\<forall>it \<in> set [?new]. item_ok key hk (lh_num_buckets lh) b it" using found by (auto simp: item_ok_def)
    note u = chain_update_ok [OF assms(1) c(1) ch this, of "lh_count lh"]
    have e: "lh' = lh\<lparr>lh_buckets := (lh_buckets lh)[b := ?chain[k := ?new]]\<rparr>" "r" "old = it_data ?it"
      using assms(3) True by (auto simp: lh_insert_def g Let_def)
    moreover have "lh\<lparr>lh_buckets := B, lh_count := lh_count lh\<rparr> = lh\<lparr>lh_buckets := B\<rparr>" for B by (cases lh) simp
    ultimately have "lh' = lh\<lparr>lh_buckets := (lh_buckets lh)[b := take k ?chain @ [?new] @ drop (Suc k) ?chain], lh_count := lh_count lh\<rparr>"
      unfolding up by simp
    then show ?thesis using u found e(2,3) by (auto simp: fun_eq_iff)
  next
    case False
    then have k: "k = length ?chain" using c(4) by simp
    note none = c(5) [OF k]
    let ?new = "\<lparr>it_data = d, it_hash = hash\<rparr>"
    let ?lh = "lh\<lparr>lh_buckets := (lh_buckets lh)[b := ?chain @ [?new] @ []], lh_count := lh_count lh + 1\<rparr>"
    have n: "size_add (lh_count lh) 1 = lh_count lh + 1" using assms(2) by (simp add: size_add_id)
    have ch: "?chain = ?chain @ [] @ []" by simp
    have "\<forall>it \<in> set [?new]. item_ok key hk (lh_num_buckets lh) b it" using c(2,3) by (simp add: item_ok_def)
    note u = chain_update_ok [OF assms(1) c(1) ch this, of "lh_count lh + 1"]
    have ok: "lh_ok key hk ?lh" and mp: "lh_map key ?lh = (lh_map key lh)(key d \<mapsto> d)"
      using u none by (auto simp: fun_eq_iff)
    note rs = lh_maybe_resize_ok [OF ok, of can]
    show ?thesis
    proof (cases "can SIZEOF_LHASH_ITEM")
      case True
      have "lh' = lh_maybe_resize can ?lh" "r" "old = NULL"
        using assms(3) False True n by (auto simp: lh_insert_def g Let_def)
      then show ?thesis using rs(1) same_items_map [OF ok rs(2)] mp none True by simp
    qed (use assms(1,3) False none in \<open>auto simp: lh_insert_def g Let_def\<close>)
  qed
  then show "lh_ok key hk lh'" and "old = (case lh_map key lh (key d) of None \<Rightarrow> NULL | Some p \<Rightarrow> p)"
    and "r \<longleftrightarrow> lh_map key lh (key d) \<noteq> None \<or> can SIZEOF_LHASH_ITEM"
    and "lh_map key lh' = (if r then (lh_map key lh)(key d \<mapsto> d) else lh_map key lh)" by auto
qed

lemma lh_delete_ok:
  assumes "lh_ok key hk lh" and "lh_delete can lh d = (old, lh')"
  shows "lh_ok key hk lh'" and "old = (case lh_map key lh (key d) of None \<Rightarrow> NULL | Some p \<Rightarrow> p)"
    and "lh_map key lh' = (lh_map key lh)(key d := None)"
proof -
  obtain hash b k where g: "get_next_ptr_and_hash lh d = (hash, b, k)" by (cases "get_next_ptr_and_hash lh d") auto
  note c = lookup_cases [OF assms(1) g]
  let ?chain = "lh_buckets lh ! b"
  have "lh_ok key hk lh' \<and> old = (case lh_map key lh (key d) of None \<Rightarrow> NULL | Some p \<Rightarrow> p) \<and>
    lh_map key lh' = (lh_map key lh)(key d := None)"
  proof (cases "k < length ?chain")
    case True
    note found = c(6) [OF True]
    let ?it = "?chain ! k"
    let ?lh = "lh\<lparr>lh_buckets := (lh_buckets lh)[b := take k ?chain @ [] @ drop (Suc k) ?chain], lh_count := lh_count lh - 1\<rparr>"
    have ch: "?chain = take k ?chain @ [?it] @ drop (Suc k) ?chain" using True by (simp add: id_take_nth_drop [symmetric])
    have "items lh \<noteq> []" using found by (auto simp: lh_map_def)
    then have "0 < lh_count lh" using lh_okD(5) [OF assms(1)] by simp
    then have cnt: "lh_count lh - 1 + length [?it] = lh_count lh + length ([] :: LHASH_ITEM list)" by simp
    note u = chain_update_ok [OF assms(1) c(1) ch _ _ _ cnt]
    have ok: "lh_ok key hk ?lh" and mp: "lh_map key ?lh = (lh_map key lh)(key d := None)"
      using u found by (auto simp: fun_eq_iff)
    note rs = lh_maybe_resize_ok [OF ok, of can]
    have "lh' = lh_maybe_resize can ?lh" "old = it_data ?it" using assms(2) True by (auto simp: lh_delete_def g Let_def)
    then show ?thesis using rs(1) same_items_map [OF ok rs(2)] mp found by simp
  next
    case False
    then have k: "k = length ?chain" using c(4) by simp
    then show ?thesis using c(5) assms by (auto simp: lh_delete_def g Let_def)
  qed
  then show "lh_ok key hk lh'" and "old = (case lh_map key lh (key d) of None \<Rightarrow> NULL | Some p \<Rightarrow> p)"
    and "lh_map key lh' = (lh_map key lh)(key d := None)" by auto
qed

text \<open>Iterating calls the function once for every element, and leaves the map alone.\<close>

lemma lh_doall_ok:
  fixes st :: 'b
  assumes "lh_ok key hk lh" and "lh_doall can (Some lh) func st = (st', Some lh')"
  shows "st' = foldl func st (map it_data (items lh))" and "lh_ok key hk lh'" and "lh_map key lh' = lh_map key lh"
proof -
  let ?u = "if lh_callback_depth lh < UINT_MAX then lh\<lparr>lh_callback_depth := lh_callback_depth lh + 1\<rparr> else lh"
  let ?v = "if lh_callback_depth ?u < UINT_MAX then ?u\<lparr>lh_callback_depth := lh_callback_depth ?u - 1\<rparr> else ?u"
  have r: "st' = foldl (foldl (\<lambda>st cur. func st (it_data cur))) st (lh_buckets ?u)" "lh' = lh_maybe_resize can ?v"
    using assms(2) by (auto simp: lh_doall_def lh_doall_internal_def Let_def)
  have "foldl (foldl f) s bss = foldl f s (concat bss)" for f :: "'b \<Rightarrow> LHASH_ITEM \<Rightarrow> 'b" and bss s
    by (induction bss arbitrary: s) simp_all
  moreover have "lh_buckets ?u = lh_buckets lh" by simp
  ultimately show "st' = foldl func st (map it_data (items lh))" using r(1) by (simp add: items_def foldl_map)
  have v: "lh_ok key hk ?v" "lh_map key ?v = lh_map key lh" using assms(1) by (simp_all add: lh_ok_def lh_map_def items_def)
  show "lh_ok key hk lh'" and "lh_map key lh' = lh_map key lh"
    using lh_maybe_resize_ok [OF v(1), of can] same_items_map [OF v(1), of "lh_maybe_resize can ?v"] v(2) r(2) by simp_all
qed

section \<open>Load\<close>

text \<open>With memory to be had, and outside callbacks, no average chain is longer than \<open>kMaxAverageChainLength\<close>.\<close>

lemma lh_maybe_resize_load:
  assumes "lh_callback_depth lh = 0" and "kMinNumBuckets \<le> lh_num_buckets lh" and "lh_num_buckets lh * 16 < SIZE_BOUND"
    and "\<And>sz. can sz" and "lh_count lh \<le> 3 * lh_num_buckets lh"
  shows "lh_count (lh_maybe_resize can lh) div lh_num_buckets (lh_maybe_resize can lh) \<le> kMaxAverageChainLength"
proof -
  let ?n = "lh_num_buckets lh" and ?c = "lh_count lh"
  have n: "16 \<le> ?n" using assms(2) by (simp add: kMinNumBuckets_def)
  have rb: "lh_count (lh_rebucket can lh m) = ?c \<and> lh_num_buckets (lh_rebucket can lh m) = m" if "8 * m < SIZE_BOUND" for m
    using that assms(4) by (simp add: lh_rebucket_def Let_def SIZEOF_PTR_def size_mul_id)
  consider "?c div ?n > 2" | "?c div ?n < 1" "16 < ?n" | "?c div ?n \<le> 2" "\<not> (?c div ?n < 1 \<and> 16 < ?n)" by linarith
  then show ?thesis
  proof cases
    case 1
    have "size_mul ?n 2 = 2 * ?n" using assms(3) by (simp add: size_mul_id)
    then have "lh_maybe_resize can lh = lh_rebucket can lh (2 * ?n)"
      using 1 assms(1) n by (simp add: lh_maybe_resize_def Let_def kMaxAverageChainLength_def)
    moreover have "?c < 3 * (2 * ?n)" using assms(5) n by linarith
    then have "?c div (2 * ?n) < 3" by (rule less_mult_imp_div_less)
    ultimately show ?thesis using rb [of "2 * ?n"] assms(3) by (simp add: kMaxAverageChainLength_def)
  next
    case 2
    let ?m = "if ?n div 2 < 16 then 16 else ?n div 2"
    have "lh_maybe_resize can lh = lh_rebucket can lh ?m"
      using 2 assms(1) by (simp add: lh_maybe_resize_def Let_def kMaxAverageChainLength_def kMinAverageChainLength_def kMinNumBuckets_def)
    moreover have "?c < ?n" using 2 n by (auto simp: div_eq_0_iff)
    then have "?c < 3 * ?m" by (simp split: if_splits) linarith
    then have "?c div ?m < 3" using n by (intro less_mult_imp_div_less) simp
    moreover have "?m \<le> ?n" using n by simp
    then have "8 * ?m < SIZE_BOUND" using assms(3) by linarith
    ultimately show ?thesis using rb [of ?m] by (simp add: kMaxAverageChainLength_def)
  next
    case 3
    then have "lh_maybe_resize can lh = lh"
      using assms(1) by (auto simp: lh_maybe_resize_def Let_def kMaxAverageChainLength_def kMinAverageChainLength_def kMinNumBuckets_def)
    with 3 show ?thesis by (simp add: kMaxAverageChainLength_def)
  qed
qed

section \<open>The interface its clients use\<close>

text \<open>A table with in-place update: what is found after an insertion or a removal.\<close>

locale table =
  fixes inv :: "'t \<Rightarrow> bool"
    and look :: "'t \<Rightarrow> 'k \<Rightarrow> 'v option"
    and put :: "'t \<Rightarrow> 'v \<Rightarrow> 't option"
    and remove :: "'t \<Rightarrow> 'v \<Rightarrow> 't"
    and key_of :: "'v \<Rightarrow> 'k"
  assumes put_inv: "inv t \<Longrightarrow> put t v = Some t' \<Longrightarrow> inv t'"
    and put_look: "inv t \<Longrightarrow> put t v = Some t' \<Longrightarrow> look t' = (look t)(key_of v \<mapsto> v)"
    and remove_inv: "inv t \<Longrightarrow> inv (remove t v)"
    and remove_look: "inv t \<Longrightarrow> look (remove t v) = (look t)(key_of v := None)"
begin

fun put_all :: "'t \<Rightarrow> 'v list \<Rightarrow> 't option" where
  "put_all t [] = Some t"
| "put_all t (v # vs) = (case put t v of None \<Rightarrow> None | Some t' \<Rightarrow> put_all t' vs)"

text \<open>The last of several elements with one key stays.\<close>

lemma put_all_look:
  "inv t \<Longrightarrow> put_all t vs = Some t' \<Longrightarrow> inv t' \<and> look t' = look t ++ map_of (rev (map (\<lambda>v. (key_of v, v)) vs))"
proof (induction vs arbitrary: t)
  case (Cons v vs)
  from Cons.prems(2) obtain u where u: "put t v = Some u" "put_all u vs = Some t'" by (auto split: option.splits)
  from Cons.IH [OF put_inv [OF Cons.prems(1) u(1)] u(2)] put_look [OF Cons.prems(1) u(1)] show ?case
    by (simp add: map_add_upd_left map_add_upd fun_eq_iff map_add_def split: option.splits)
qed simp

lemma put_remove_others: "inv t \<Longrightarrow> put t v = Some t' \<Longrightarrow> k \<noteq> key_of v \<Longrightarrow> look (remove t' v) k = look t k"
  using put_look put_inv remove_look by simp

end

definition lh_put :: "(nat \<Rightarrow> bool) \<Rightarrow> LHASH \<Rightarrow> ptr \<Rightarrow> LHASH option" where
  "lh_put can lh d = (if lh_count lh + 1 < SIZE_BOUND then (case lh_insert can lh d of (r, old, lh') \<Rightarrow> if r then Some lh' else None) else None)"

interpretation lh: table "lh_ok key hk" "lh_map key" "lh_put can" "\<lambda>lh d. snd (lh_delete can lh d)" key for key hk can
proof
  fix t :: LHASH and v t'
  assume ok: "lh_ok key hk t"
  show "lh_ok key hk (snd (lh_delete can t v))" and "lh_map key (snd (lh_delete can t v)) = (lh_map key t)(key v := None)"
    using lh_delete_ok [OF ok, of can v] by (cases "lh_delete can t v"; simp)+
  assume "lh_put can t v = Some t'"
  then obtain old where "lh_count t + 1 < SIZE_BOUND" "lh_insert can t v = (True, old, t')"
    by (auto simp: lh_put_def split: if_splits prod.splits)
  from lh_insert_ok [OF ok this] show "lh_ok key hk t'" and "lh_map key t' = (lh_map key t)(key v \<mapsto> v)" by simp_all
qed

section \<open>Properties\<close>

text \<open>
  C5: \<open>lh_insert\<close> returns the element it replaces, if any, and afterwards the table maps the key of the new
  element to it and every other key as before, whether or not the buckets were reallocated; when the item cannot be
  allocated it reports failure and changes nothing. The invariant is kept.
\<close>

theorem insert_is_map_update:
  assumes "lh_ok key hk lh" and "lh_count lh + 1 < SIZE_BOUND" and "lh_insert can lh d = (r, old, lh')"
  shows "lh_ok key hk lh' \<and> old = (case lh_map key lh (key d) of None \<Rightarrow> NULL | Some p \<Rightarrow> p) \<and>
    (r \<longleftrightarrow> lh_map key lh (key d) \<noteq> None \<or> can SIZEOF_LHASH_ITEM) \<and>
    lh_map key lh' = (if r then (lh_map key lh)(key d \<mapsto> d) else lh_map key lh) \<and>
    (\<forall>x. lh_retrieve lh' x = (if r \<and> key x = key d then d else lh_retrieve lh x))"
  using lh_insert_ok [OF assms] lh_retrieve_ok [OF assms(1)] lh_retrieve_ok [OF lh_insert_ok(1) [OF assms]]
  by (auto split: if_splits)

definition tens_lhash :: "LHASH_ITEM list list \<Rightarrow> nat \<Rightarrow> LHASH" where
  "tens_lhash bs n = \<lparr>lh_count = n, lh_buckets = bs, lh_num_buckets = kMinNumBuckets, lh_callback_depth = 0,
     lh_comp = (\<lambda>x y. if x div 10 = y div 10 then 0 else 1), lh_hash = (\<lambda>x. word_of_nat (x div 10))\<rparr>"

lemma tens_lhash_new: "lh_new (\<lambda>_. True) (\<lambda>x. word_of_nat (x div 10)) (\<lambda>x y. if x div 10 = y div 10 then 0 else 1) =
    Some (tens_lhash (replicate kMinNumBuckets []) 0)"
  by (simp add: lh_new_def tens_lhash_def)

lemma tens_lhash_ok:
  "lh_ok (\<lambda>x. x div 10) word_of_nat (tens_lhash (replicate kMinNumBuckets []) 0)"
  "lh_map (\<lambda>x. x div 10) (tens_lhash (replicate kMinNumBuckets []) 0) = Map.empty"
  using lh_new_ok [OF tens_lhash_new, of "\<lambda>x. x div 10" word_of_nat] by simp_all

theorem insert_is_map_update_witness:
  "case lh_insert (\<lambda>_. True) (tens_lhash (replicate kMinNumBuckets []) 0) 25 of (r, old, lh') \<Rightarrow> r \<and> old = NULL \<and> lh_retrieve lh' 21 = 25"
proof (cases "lh_insert (\<lambda>_. True) (tens_lhash (replicate kMinNumBuckets []) 0) 25")
  case (fields r old lh')
  have "lh_count (tens_lhash (replicate kMinNumBuckets []) 0) + 1 < SIZE_BOUND" by (simp add: tens_lhash_def SIZE_BOUND_def)
  from insert_is_map_update [OF tens_lhash_ok(1) this fields] show ?thesis unfolding fields by (simp add: tens_lhash_ok(2))
qed

text \<open>
  C23: \<open>lh_delete\<close> returns the element with the key, or null, and removes exactly that key; the invariant
  is kept whether or not the table shrinks.
\<close>

theorem delete_is_map_delete:
  assumes "lh_ok key hk lh" and "lh_delete can lh d = (old, lh')"
  shows "lh_ok key hk lh' \<and> old = (case lh_map key lh (key d) of None \<Rightarrow> NULL | Some p \<Rightarrow> p) \<and>
    lh_map key lh' = (lh_map key lh)(key d := None)"
  using lh_delete_ok [OF assms] by simp

theorem delete_is_map_delete_witness:
  "case lh_delete (\<lambda>_. True) (snd (snd (lh_insert (\<lambda>_. True) (tens_lhash (replicate kMinNumBuckets []) 0) 25))) 29 of
     (old, lh') \<Rightarrow> old = 25 \<and> lh_map (\<lambda>x. x div 10) lh' = Map.empty"
proof -
  let ?t = "tens_lhash (replicate kMinNumBuckets []) 0"
  obtain r old lh1 where i: "lh_insert (\<lambda>_. True) ?t 25 = (r, old, lh1)" by (cases "lh_insert (\<lambda>_. True) ?t 25") auto
  have c: "lh_count ?t + 1 < SIZE_BOUND" by (simp add: tens_lhash_def SIZE_BOUND_def)
  note a = lh_insert_ok [OF tens_lhash_ok(1) c i]
  obtain old2 lh2 where d: "lh_delete (\<lambda>_. True) lh1 29 = (old2, lh2)" by force
  from delete_is_map_delete [OF a(1) d] a(3,4) show ?thesis unfolding i snd_conv d by (simp add: tens_lhash_ok(2))
qed



text \<open>
  C28: outside a callback, and with memory to be had, an insertion into a table whose chains are at most
  \<open>kMaxAverageChainLength\<close> long on average leaves one whose chains are, because the buckets are doubled in time.
\<close>

theorem load_stays_bounded:
  assumes "lh_ok key hk lh" and "lh_callback_depth lh = 0" and "lh_num_buckets lh * 16 < SIZE_BOUND" and "\<And>sz. can sz"
    and "lh_count lh div lh_num_buckets lh \<le> kMaxAverageChainLength" and "lh_insert can lh d = (r, old, lh')"
  shows "lh_count lh' div lh_num_buckets lh' \<le> kMaxAverageChainLength"
proof -
  obtain hash b k where g: "get_next_ptr_and_hash lh d = (hash, b, k)" by (cases "get_next_ptr_and_hash lh d") auto
  have n: "16 \<le> lh_num_buckets lh" using assms(1) by (simp add: lh_ok_def kMinNumBuckets_def)
  have "lh_count lh < 3 * lh_num_buckets lh"
    using assms(5) n div_less_iff_less_mult [of "lh_num_buckets lh" "lh_count lh" 3] by (simp add: kMaxAverageChainLength_def)
  then have c: "lh_count lh + 1 \<le> 3 * lh_num_buckets lh" by simp
  let ?t = "lh\<lparr>lh_buckets := (lh_buckets lh)[b := lh_buckets lh ! b @ [\<lparr>it_data = d, it_hash = hash\<rparr>]], lh_count := size_add (lh_count lh) 1\<rparr>"
  show ?thesis
  proof (cases "k < length (lh_buckets lh ! b)")
    case True
    then have "lh_count lh' = lh_count lh" "lh_num_buckets lh' = lh_num_buckets lh"
      using assms(6) g by (auto simp: lh_insert_def Let_def)
    with assms(5) show ?thesis by simp
  next
    case False
    then have "lh' = lh_maybe_resize can ?t" using assms(4,6) g by (auto simp: lh_insert_def Let_def)
    moreover have "size_add (lh_count lh) 1 = lh_count lh + 1" using c assms(3) by (simp add: size_add_id)
    ultimately show ?thesis using lh_maybe_resize_load [of ?t can] assms(2,3,4) c n by (simp add: kMinNumBuckets_def)
  qed
qed

theorem load_stays_bounded_witness:
  "case lh_insert (\<lambda>_. True) (tens_lhash (replicate kMinNumBuckets []) 0) 25 of (r, old, lh') \<Rightarrow>
    lh_count lh' div lh_num_buckets lh' \<le> kMaxAverageChainLength"
proof (cases "lh_insert (\<lambda>_. True) (tens_lhash (replicate kMinNumBuckets []) 0) 25")
  case (fields r old lh')
  from load_stays_bounded [OF tens_lhash_ok(1) _ _ _ _ fields] show ?thesis unfolding fields
    by (simp add: tens_lhash_def kMinNumBuckets_def SIZE_BOUND_def)
qed

end
