(* ===== verification/Heap_Blocks.thy ===== *)
theory Heap_Blocks imports Mem "HOL-Library.Multiset" begin

text \<open>
  A store of allocated blocks, for the components whose correctness is about who frees what. A block is its bytes
  under its address; freeing an address that holds no block, or reading one, is recorded as a fault and never
  forgotten. \<open>OPENSSL_malloc\<close> is a parameter that chooses an address and the contents, or refuses. The operations are those
  of crypto/mem.c on this store, and \<open>heap_owns h M\<close> says that the blocks are exactly those in \<open>M\<close>, each owned once.
\<close>

section \<open>The store\<close>

record heap =
  cells :: "ptr \<rightharpoonup> u8 list"
  fault :: bool

type_synonym fresh = "heap \<Rightarrow> nat \<Rightarrow> (ptr \<times> u8 list) option"

text \<open>What is relied on of \<open>malloc\<close>: a block it returns is new, not null and has the size asked for.\<close>

definition fresh_ok :: "fresh \<Rightarrow> bool" where
  "fresh_ok f \<longleftrightarrow> (\<forall>h sz p b. f h sz = Some (p, b) \<longrightarrow> p \<noteq> NULL \<and> cells h p = None \<and> length b = sz)"

definition hfree :: "ptr \<Rightarrow> heap \<Rightarrow> heap" where
  "hfree p h = (if p = NULL then h
    else if cells h p = None then h\<lparr>fault := True\<rparr> else h\<lparr>cells := (cells h)(p := None)\<rparr>)"

definition halloc :: "fresh \<Rightarrow> nat \<Rightarrow> heap \<Rightarrow> ptr \<times> heap" where
  "halloc f sz h = (case f h sz of None \<Rightarrow> (NULL, h) | Some (p, b) \<Rightarrow> (p, h\<lparr>cells := (cells h)(p \<mapsto> b)\<rparr>))"

definition hwrite :: "ptr \<Rightarrow> nat \<Rightarrow> u8 list \<Rightarrow> heap \<Rightarrow> heap" where
  "hwrite p off xs h = (case cells h p of None \<Rightarrow> h\<lparr>fault := True\<rparr>
    | Some b \<Rightarrow> if off + length xs \<le> length b then h\<lparr>cells := (cells h)(p \<mapsto> store_at off xs b)\<rparr> else h\<lparr>fault := True\<rparr>)"

text \<open>\<open>OPENSSL_realloc\<close> of mem.c: a new block, the part of the old contents that fits, and the old block freed.\<close>

definition hrealloc :: "fresh \<Rightarrow> ptr \<Rightarrow> nat \<Rightarrow> heap \<Rightarrow> ptr \<times> heap" where
  "hrealloc f p sz h =
    (if p = NULL then halloc f sz h
     else case halloc f sz h of (q, h1) \<Rightarrow>
       if q = NULL then (NULL, h1)
       else case cells h p of None \<Rightarrow> (q, h1\<lparr>fault := True\<rparr>)
         | Some old \<Rightarrow> (q, hfree p (hwrite q 0 (take sz old) h1)))"

text \<open>\<open>OPENSSL_strdup\<close> of a block that holds a string.\<close>

definition hstrdup :: "fresh \<Rightarrow> ptr \<Rightarrow> heap \<Rightarrow> ptr \<times> heap" where
  "hstrdup f p h =
    (case Option.bind (cells h p) strlen of
       None \<Rightarrow> (NULL, h\<lparr>fault := True\<rparr>)
     | Some n \<Rightarrow> (case halloc f (n + 1) h of (q, h1) \<Rightarrow>
         if q = NULL then (NULL, h1) else (q, hwrite q 0 (take (n + 1) (the (cells h p))) h1)))"

section \<open>Ownership\<close>

definition own :: "ptr \<Rightarrow> ptr multiset" where
  "own p = (if p = NULL then {#} else {#p#})"

definition heap_owns :: "heap \<Rightarrow> ptr multiset \<Rightarrow> bool" where
  "heap_owns h M \<longleftrightarrow> \<not> fault h \<and> finite (dom (cells h)) \<and> mset_set (dom (cells h)) = M"

definition str_at :: "heap \<Rightarrow> ptr \<Rightarrow> bool" where
  "str_at h p \<longleftrightarrow> p \<noteq> NULL \<longrightarrow> Option.bind (cells h p) strlen \<noteq> None"

lemma own_NULL [simp]: "own NULL = {#}"
  by (simp add: own_def)

lemma heap_owns_cell: "heap_owns h M \<Longrightarrow> p \<in># M \<longleftrightarrow> cells h p \<noteq> None"
  by (auto simp: heap_owns_def domIff)

lemma heap_owns_own: "heap_owns h (own p + M) \<Longrightarrow> p \<noteq> NULL \<Longrightarrow> cells h p \<noteq> None \<and> p \<notin># M"
proof -
  assume h: "heap_owns h (own p + M)" and p: "p \<noteq> NULL"
  then have "count (mset_set (dom (cells h))) p = Suc (count M p)" by (simp add: heap_owns_def own_def)
  moreover have "count (mset_set (dom (cells h))) p \<le> 1" by (simp only: count_mset_set') simp
  ultimately have "count M p = 0" by linarith
  then show "cells h p \<noteq> None \<and> p \<notin># M" using p heap_owns_cell [OF h, of p] by (simp add: own_def count_eq_zero_iff)
qed

lemma hfree_owns: "heap_owns h (own p + M) \<Longrightarrow> heap_owns (hfree p h) M"
proof (cases "p = NULL")
  case False
  assume h: "heap_owns h (own p + M)"
  note c = heap_owns_own [OF h False]
  have "mset_set (dom (cells h) - {p}) = M"
    using h c False by (auto simp: heap_owns_def mset_set_Diff own_def domIff)
  with h c False show ?thesis by (simp add: heap_owns_def hfree_def)
qed (simp add: hfree_def)

lemma hfree_str_at: "str_at h q \<Longrightarrow> q \<noteq> p \<Longrightarrow> str_at (hfree p h) q"
  by (auto simp: str_at_def hfree_def)

lemma halloc_owns:
  assumes "fresh_ok f" and "heap_owns h M" and "halloc f sz h = (p, h')"
  shows "heap_owns h' (own p + M)" and "p \<noteq> NULL \<Longrightarrow> cells h p = None \<and> (\<exists>b. cells h' p = Some b \<and> length b = sz)"
    and "q \<noteq> p \<or> p = NULL \<Longrightarrow> cells h' q = cells h q" and "p \<noteq> NULL \<Longrightarrow> p \<notin># M"
proof -
  have c: "p = NULL \<and> h' = h \<or> (\<exists>b. p \<noteq> NULL \<and> cells h p = None \<and> length b = sz \<and> h' = h\<lparr>cells := (cells h)(p \<mapsto> b)\<rparr>)"
  proof (cases "f h sz")
    case (Some r)
    then obtain b where r: "f h sz = Some (p, b)" "h' = h\<lparr>cells := (cells h)(p \<mapsto> b)\<rparr>"
      using assms(3) by (cases r) (simp add: halloc_def)
    with assms(1) have "p \<noteq> NULL" "cells h p = None" "length b = sz" by (auto simp: fresh_ok_def)
    with r(2) show ?thesis by blast
  qed (use assms(3) in \<open>simp add: halloc_def\<close>)
  then show "heap_owns h' (own p + M)" using assms(2) by (auto simp: heap_owns_def own_def domIff)
  show "p \<noteq> NULL \<Longrightarrow> cells h p = None \<and> (\<exists>b. cells h' p = Some b \<and> length b = sz)" using c by auto
  show "q \<noteq> p \<or> p = NULL \<Longrightarrow> cells h' q = cells h q" using c by auto
  show "p \<noteq> NULL \<Longrightarrow> p \<notin># M" using c heap_owns_cell [OF assms(2), of p] by auto
qed

lemma hwrite_owns:
  assumes "heap_owns h M" and "cells h p = Some b" and "off + length xs \<le> length b"
  shows "heap_owns (hwrite p off xs h) M" and "cells (hwrite p off xs h) = (cells h)(p \<mapsto> store_at off xs b)"
  using assms by (auto simp: heap_owns_def hwrite_def insert_absorb domIff)

lemma strlen_take: "strlen s = Some n \<Longrightarrow> n < k \<Longrightarrow> strlen (take k s) = Some n"
  by (induction s arbitrary: n k) (auto simp: take_Cons split: if_splits nat.splits)

lemma strlen_append: "strlen s = Some n \<Longrightarrow> strlen (s @ t) = Some n"
  by (induction s arbitrary: n) (auto split: if_splits)

lemma strlen_length: "strlen s = Some n \<Longrightarrow> n < length s"
  by (simp add: strlen_Some_iff)

lemma hstrdup_owns:
  assumes "fresh_ok f" and "heap_owns h M" and "str_at h p" and "p \<noteq> NULL" and "hstrdup f p h = (q, h')"
  shows "heap_owns h' (own q + M)" and "str_at h' q" and "r \<in># M \<Longrightarrow> cells h' r = cells h r"
    and "q \<noteq> NULL \<Longrightarrow> cells h' q = Some (take (Suc (the (strlen (the (cells h p))))) (the (cells h p)))"
proof -
  obtain b n where b: "cells h p = Some b" "strlen b = Some n"
    using assms(3,4) by (auto simp: str_at_def split: Option.bind_splits)
  obtain q0 h1 where a: "halloc f (n + 1) h = (q0, h1)" by force
  note o = halloc_owns [OF assms(1,2) a]
  have q: "q = q0" using assms(5) b a by (auto simp: hstrdup_def split: if_splits)
  have "heap_owns h' (own q + M) \<and> str_at h' q \<and> (r \<in># M \<longrightarrow> cells h' r = cells h r) \<and>
    (q \<noteq> NULL \<longrightarrow> cells h' q = Some (take (Suc n) b))"
  proof (cases "q = NULL")
    case True
    then show ?thesis using assms(2,5) a b q o(1,3) by (simp add: hstrdup_def str_at_def)
  next
    case False
    then obtain blk where blk: "cells h1 q = Some blk" "length blk = n + 1" using o(2) q by auto
    have h': "h' = hwrite q 0 (take (n + 1) b) h1" using assms(5) a b q False by (simp add: hstrdup_def)
    have len: "length (take (n + 1) b) = n + 1" using strlen_length [OF b(2)] by simp
    have "store_at 0 (take (n + 1) b) blk = take (n + 1) b" using len blk(2) by (simp add: store_at_def)
    with hwrite_owns [of h1 "own q + M" q blk 0 "take (n + 1) b"] o(1) q blk len h'
    have h: "heap_owns h' (own q + M)" "cells h' = (cells h1)(q \<mapsto> take (n + 1) b)" by simp_all
    moreover have "str_at h' q" using h(2) strlen_take [OF b(2), of "n + 1"] by (simp add: str_at_def)
    moreover have "r \<in># M \<longrightarrow> cells h' r = cells h r" using h(2) o(3) [of r] o(4) q False by auto
    ultimately show ?thesis by simp
  qed
  then show "heap_owns h' (own q + M)" and "str_at h' q" and "r \<in># M \<Longrightarrow> cells h' r = cells h r"
    and "q \<noteq> NULL \<Longrightarrow> cells h' q = Some (take (Suc (the (strlen (the (cells h p))))) (the (cells h p)))"
    using b by simp_all
qed

end
