(* ===== verification/Err.thy ===== *)
theory Err imports Heap_Blocks begin

text \<open>
  The error queue, crypto/err/err.c: a ring of sixteen slots of which at most fifteen hold errors, kept per thread. The
  thread-local pointer and the store of blocks form the world that every function reads and updates. \<open>got\<close> is whether
  \<open>err_get_state\<close> can allocate and install a state where there is none, \<open>f\<close> the allocator of the strings. File names are
  static strings. The lemmas show that the ring is a queue that forgets its oldest error when it is full, that
  marks cut it as \<open>ERR_pop_to_mark\<close> says, and that in every reachable world each string is owned once: none is freed twice,
  lost or read after it was freed.
\<close>

section \<open>The code\<close>

definition ERR_NUM_ERRORS :: nat where
  "ERR_NUM_ERRORS = 16"

definition ERR_LIB_SYS :: int where "ERR_LIB_SYS = 2"
definition ERR_FLAG_STRING :: nat where "ERR_FLAG_STRING = 1"

record err_error_st =
  ee_file :: "string option"
  ee_data :: ptr
  ee_packed :: u32
  ee_line :: u16
  ee_mark :: bool

record ERR_STATE =
  es_errors :: "err_error_st list"
  es_top :: nat
  es_bottom :: nat
  es_to_free :: ptr

record err_world =
  ew_tls :: "ERR_STATE option"
  ew_heap :: heap

definition err_zero :: err_error_st where
  "err_zero = \<lparr>ee_file = None, ee_data = NULL, ee_packed = 0, ee_line = 0, ee_mark = False\<rparr>"

definition ERR_PACK :: "int \<Rightarrow> int \<Rightarrow> u32" where
  "ERR_PACK lib reason = push_bit 24 (word_of_int lib AND 0xff) OR (word_of_int reason AND 0xfff)"

definition err_clear :: "err_error_st \<Rightarrow> heap \<Rightarrow> err_error_st \<times> heap" where
  "err_clear error h = (err_zero, hfree (ee_data error) h)"

definition err_copy :: "fresh \<Rightarrow> err_error_st \<Rightarrow> err_error_st \<Rightarrow> heap \<Rightarrow> err_error_st \<times> heap" where
  "err_copy f dst src h =
    (let (dst, h) = err_clear dst h;
         dst = dst\<lparr>ee_file := ee_file src\<rparr>;
         (dst, h) = (if ee_data src \<noteq> NULL then (case hstrdup f (ee_data src) h of (q, h) \<Rightarrow> (dst\<lparr>ee_data := q\<rparr>, h)) else (dst, h))
     in (dst\<lparr>ee_packed := ee_packed src, ee_line := ee_line src\<rparr>, h))"

text \<open>The loop that clears the first \<open>n\<close> slots, and the one that copies \<open>n\<close> errors, \<open>src i\<close> into slot \<open>i\<close>.\<close>

fun err_clear_loop :: "nat \<Rightarrow> err_error_st list \<Rightarrow> heap \<Rightarrow> err_error_st list \<times> heap" where
  "err_clear_loop 0 es h = (es, h)"
| "err_clear_loop (Suc n) es h =
    (case err_clear_loop n es h of (es, h) \<Rightarrow> case err_clear (es ! n) h of (e, h) \<Rightarrow> (es[n := e], h))"

fun err_copy_loop :: "fresh \<Rightarrow> (nat \<Rightarrow> err_error_st) \<Rightarrow> nat \<Rightarrow> err_error_st list \<Rightarrow> heap \<Rightarrow> err_error_st list \<times> heap" where
  "err_copy_loop f src 0 es h = (es, h)"
| "err_copy_loop f src (Suc n) es h =
    (case err_copy_loop f src n es h of (es, h) \<Rightarrow> case err_copy f (es ! n) (src n) h of (e, h) \<Rightarrow> (es[n := e], h))"

definition err_state_free :: "ERR_STATE option \<Rightarrow> heap \<Rightarrow> heap" where
  "err_state_free statep h = (case statep of None \<Rightarrow> h
    | Some state \<Rightarrow> (case err_clear_loop ERR_NUM_ERRORS (es_errors state) h of (es, h) \<Rightarrow> hfree (es_to_free state) h))"

definition err_get_state :: "bool \<Rightarrow> err_world \<Rightarrow> ERR_STATE option \<times> err_world" where
  "err_get_state got w = (case ew_tls w of
      Some state \<Rightarrow> (Some state, w)
    | None \<Rightarrow> if got
        then let state = \<lparr>es_errors = replicate ERR_NUM_ERRORS err_zero, es_top = 0, es_bottom = 0, es_to_free = NULL\<rparr>
             in (Some state, w\<lparr>ew_tls := Some state\<rparr>)
        else (None, w))"

text \<open>
  What \<open>get_error_values\<close> reports: the packed code, and file and line or data and flags where the caller asked for
  them; \<open>None\<close> for the data is the empty string.
\<close>

record err_values =
  ev_packed :: u32
  ev_file_line :: "(string \<times> nat) option"
  ev_data_flags :: "(ptr option \<times> nat) option"

definition no_values :: err_values where
  "no_values = \<lparr>ev_packed = 0, ev_file_line = None, ev_data_flags = None\<rparr>"

definition get_error_values :: "bool \<Rightarrow> bool \<Rightarrow> bool \<Rightarrow> bool \<Rightarrow> bool \<Rightarrow> err_world \<Rightarrow> err_values \<times> err_world" where
  "get_error_values got inc newest want_file want_data w =
    (case err_get_state got w of
       (None, w) \<Rightarrow> (no_values, w)
     | (Some state, w) \<Rightarrow>
        if es_bottom state = es_top state then (no_values, w)
        else let i = (if newest then es_top state else (es_bottom state + 1) mod ERR_NUM_ERRORS);
                 error = es_errors state ! i;
                 file_line = (if want_file
                   then Some (case ee_file error of None \<Rightarrow> (''NA'', 0) | Some file \<Rightarrow> (file, unat (ee_line error))) else None);
                 data_flags = (if want_data
                   then Some (if ee_data error = NULL then (None, 0) else (Some (ee_data error), ERR_FLAG_STRING)) else None);
                 (error, state, h) = (if want_data \<and> ee_data error \<noteq> NULL \<and> inc
                   then (error\<lparr>ee_data := NULL\<rparr>, state\<lparr>es_to_free := ee_data error\<rparr>, hfree (es_to_free state) (ew_heap w))
                   else (error, state, ew_heap w));
                 values = \<lparr>ev_packed = ee_packed error, ev_file_line = file_line, ev_data_flags = data_flags\<rparr>
             in if inc
                then (case err_clear error h of (error, h) \<Rightarrow>
                  (values, w\<lparr>ew_tls := Some (state\<lparr>es_errors := (es_errors state)[i := error], es_bottom := i\<rparr>), ew_heap := h\<rparr>))
                else (values, w))"

definition ERR_get_error :: "bool \<Rightarrow> err_world \<Rightarrow> u32 \<times> err_world" where
  "ERR_get_error got w = (case get_error_values got True False False False w of (v, w) \<Rightarrow> (ev_packed v, w))"

definition ERR_get_error_line :: "bool \<Rightarrow> err_world \<Rightarrow> err_values \<times> err_world" where
  "ERR_get_error_line got w = get_error_values got True False True False w"

definition ERR_get_error_line_data :: "bool \<Rightarrow> err_world \<Rightarrow> err_values \<times> err_world" where
  "ERR_get_error_line_data got w = get_error_values got True False True True w"

definition ERR_peek_error :: "bool \<Rightarrow> err_world \<Rightarrow> u32 \<times> err_world" where
  "ERR_peek_error got w = (case get_error_values got False False False False w of (v, w) \<Rightarrow> (ev_packed v, w))"

definition ERR_peek_error_line :: "bool \<Rightarrow> err_world \<Rightarrow> err_values \<times> err_world" where
  "ERR_peek_error_line got w = get_error_values got False False True False w"

definition ERR_peek_error_line_data :: "bool \<Rightarrow> err_world \<Rightarrow> err_values \<times> err_world" where
  "ERR_peek_error_line_data got w = get_error_values got False False True True w"

definition ERR_peek_last_error :: "bool \<Rightarrow> err_world \<Rightarrow> u32 \<times> err_world" where
  "ERR_peek_last_error got w = (case get_error_values got False True False False w of (v, w) \<Rightarrow> (ev_packed v, w))"

definition ERR_peek_last_error_line :: "bool \<Rightarrow> err_world \<Rightarrow> err_values \<times> err_world" where
  "ERR_peek_last_error_line got w = get_error_values got False True True False w"

definition ERR_peek_last_error_line_data :: "bool \<Rightarrow> err_world \<Rightarrow> err_values \<times> err_world" where
  "ERR_peek_last_error_line_data got w = get_error_values got False True True True w"

definition ERR_clear_error :: "bool \<Rightarrow> err_world \<Rightarrow> err_world" where
  "ERR_clear_error got w =
    (case err_get_state got w of
       (None, w) \<Rightarrow> w
     | (Some state, w) \<Rightarrow>
        (case err_clear_loop ERR_NUM_ERRORS (es_errors state) (ew_heap w) of (es, h) \<Rightarrow>
          w\<lparr>ew_tls := Some (state\<lparr>es_errors := es, es_to_free := NULL, es_top := 0, es_bottom := 0\<rparr>),
            ew_heap := hfree (es_to_free state) h\<rparr>))"

definition ERR_remove_thread_state :: "bool \<Rightarrow> bool \<Rightarrow> err_world \<Rightarrow> err_world" where
  "ERR_remove_thread_state tid_null got w = (if tid_null then ERR_clear_error got w else w)"

text \<open>The next library number, guarded by a mutex: \<open>None\<close> is the overflow of the \<open>int\<close>. And the reset of \<open>errno\<close>.\<close>

definition ERR_get_next_error_library :: "int \<Rightarrow> (int \<times> int) option" where
  "ERR_get_next_error_library global_next_library =
    (if global_next_library = 2 ^ 31 - 1 then None else Some (global_next_library, global_next_library + 1))"

definition ERR_clear_system_error :: "int \<Rightarrow> int" where
  "ERR_clear_system_error errno_value = 0"

definition ERR_remove_state :: "bool \<Rightarrow> err_world \<Rightarrow> err_world" where
  "ERR_remove_state got w = ERR_clear_error got w"

definition err_set_error_data :: "bool \<Rightarrow> ptr \<Rightarrow> err_world \<Rightarrow> err_world" where
  "err_set_error_data got data w =
    (case err_get_state got w of
       (None, w) \<Rightarrow> w\<lparr>ew_heap := hfree data (ew_heap w)\<rparr>
     | (Some state, w) \<Rightarrow>
        if es_top state = es_bottom state then w\<lparr>ew_heap := hfree data (ew_heap w)\<rparr>
        else let error = es_errors state ! es_top state; h = hfree (ee_data error) (ew_heap w)
             in w\<lparr>ew_tls := Some (state\<lparr>es_errors := (es_errors state)[es_top state := error\<lparr>ee_data := data\<rparr>]\<rparr>), ew_heap := h\<rparr>)"

text \<open>\<open>errno_value\<close> is the value of \<open>errno\<close>.\<close>

definition ERR_put_error :: "bool \<Rightarrow> int \<Rightarrow> int \<Rightarrow> int \<Rightarrow> string option \<Rightarrow> nat \<Rightarrow> err_world \<Rightarrow> err_world" where
  "ERR_put_error got errno_value library reason file line w =
    (case err_get_state got w of
       (None, w) \<Rightarrow> w
     | (Some state, w) \<Rightarrow>
        (let reason = (if library = ERR_LIB_SYS \<and> reason = 0 then errno_value else reason);
             new_top = (es_top state + 1) mod ERR_NUM_ERRORS;
             bottom = (if new_top = es_bottom state then (es_bottom state + 1) mod ERR_NUM_ERRORS else es_bottom state);
             (error, h) = err_clear (es_errors state ! new_top) (ew_heap w);
             error = error\<lparr>ee_file := file, ee_line := word_of_nat line, ee_packed := ERR_PACK library reason\<rparr>
         in w\<lparr>ew_tls := Some (state\<lparr>es_errors := (es_errors state)[new_top := error], es_top := new_top, es_bottom := bottom\<rparr>), ew_heap := h\<rparr>))"

text \<open>
  The loop of \<open>err_add_error_vdata\<close>. An argument is \<open>None\<close> for a null pointer or the characters before its terminator; the
  result is the buffer with the length used, or \<open>None\<close> when the buffer was freed.
\<close>

fun add_vdata_loop :: "fresh \<Rightarrow> ptr \<Rightarrow> nat \<Rightarrow> nat \<Rightarrow> u8 list option list \<Rightarrow> heap \<Rightarrow> (ptr \<times> nat) option \<times> heap" where
  "add_vdata_loop f buf alloced len [] h = (Some (buf, len), h)"
| "add_vdata_loop f buf alloced len (None # args) h = add_vdata_loop f buf alloced len args h"
| "add_vdata_loop f buf alloced len (Some substr # args) h =
    (let new_len = size_add len (length substr)
     in if new_len > alloced
        then if size_add (size_add alloced 20) 1 < alloced then (None, hfree buf h)
        else let alloced = size_add new_len 20
        in (case hrealloc f buf (size_add alloced 1) h of (new_buf, h) \<Rightarrow>
             if new_buf = NULL then (None, hfree buf h)
             else add_vdata_loop f new_buf alloced new_len args (hwrite new_buf len substr h))
        else add_vdata_loop f buf alloced new_len args (hwrite buf len substr h))"

definition err_add_error_vdata :: "bool \<Rightarrow> fresh \<Rightarrow> u8 list option list \<Rightarrow> err_world \<Rightarrow> err_world" where
  "err_add_error_vdata got f args w =
    (case halloc f (80 + 1) (ew_heap w) of (buf, h) \<Rightarrow>
      if buf = NULL then w\<lparr>ew_heap := h\<rparr>
      else case add_vdata_loop f buf 80 0 args h of
        (None, h) \<Rightarrow> w\<lparr>ew_heap := h\<rparr>
      | (Some (buf, len), h) \<Rightarrow> err_set_error_data got buf (w\<lparr>ew_heap := hwrite buf len [0] h\<rparr>))"

definition ERR_add_error_data :: "bool \<Rightarrow> fresh \<Rightarrow> u8 list option list \<Rightarrow> err_world \<Rightarrow> err_world" where
  "ERR_add_error_data got f args w = err_add_error_vdata got f args w"

text \<open>\<open>text\<close> is the formatted string; at most 255 characters of it and a terminator are written, and a terminator at the end.\<close>

definition ERR_add_error_dataf :: "bool \<Rightarrow> fresh \<Rightarrow> u8 list \<Rightarrow> err_world \<Rightarrow> err_world" where
  "ERR_add_error_dataf got f formatted w =
    (case halloc f (256 + 1) (ew_heap w) of (buf, h) \<Rightarrow>
      if buf = NULL then w\<lparr>ew_heap := h\<rparr>
      else err_set_error_data got buf (w\<lparr>ew_heap := hwrite buf 256 [0] (hwrite buf 0 (take 255 formatted @ [0]) h)\<rparr>))"

definition ERR_set_mark :: "bool \<Rightarrow> err_world \<Rightarrow> bool \<times> err_world" where
  "ERR_set_mark got w =
    (case err_get_state got w of
       (None, w) \<Rightarrow> (False, w)
     | (Some state, w) \<Rightarrow>
        if es_bottom state = es_top state then (False, w)
        else (True, w\<lparr>ew_tls := Some (state\<lparr>es_errors :=
               (es_errors state)[es_top state := (es_errors state ! es_top state)\<lparr>ee_mark := True\<rparr>]\<rparr>)\<rparr>))"

lemma ring_distance:
  assumes "b < 16" and "t < 16"
  shows "(t + 16 - b) mod 16 = (if b \<le> t then t - b else t + 16 - b :: nat)"
proof (cases "b \<le> t")
  case True
  then have "t + 16 - b = (t - b) + 16" by simp
  then have "(t + 16 - b) mod 16 = (t - b) mod 16" by (simp only: mod_add_self2)
  with True assms show ?thesis by simp
qed (use assms in simp)

text \<open>The loop of \<open>ERR_pop_to_mark\<close>. While both indices are inside the ring, as they always are, the distance from
  \<open>bottom\<close> to \<open>top\<close> falls in each iteration.\<close>

function pop_loop :: "ERR_STATE \<Rightarrow> heap \<Rightarrow> bool \<times> ERR_STATE \<times> heap" where
  "pop_loop state h =
    (if es_bottom state < ERR_NUM_ERRORS \<and> es_top state < ERR_NUM_ERRORS \<and> es_bottom state \<noteq> es_top state
     then let error = es_errors state ! es_top state
          in if ee_mark error
             then (True, state\<lparr>es_errors := (es_errors state)[es_top state := error\<lparr>ee_mark := False\<rparr>]\<rparr>, h)
             else (case err_clear error h of (error, h) \<Rightarrow>
               pop_loop (state\<lparr>es_errors := (es_errors state)[es_top state := error],
                 es_top := if es_top state = 0 then ERR_NUM_ERRORS - 1 else es_top state - 1\<rparr>) h)
     else (False, state, h))"
  by pat_completeness auto
termination
proof (relation "measure (\<lambda>(state, h). (es_top state + ERR_NUM_ERRORS - es_bottom state) mod ERR_NUM_ERRORS)", goal_cases)
  case (2 state h error x y)
  let ?b = "es_bottom state" and ?t = "es_top state"
  define t' where "t' = (if ?t = 0 then ERR_NUM_ERRORS - 1 else ?t - 1)"
  from 2 have r: "?b < 16" "?t < 16" "?b \<noteq> ?t" "t' < 16" by (auto simp: ERR_NUM_ERRORS_def t'_def)
  have "(if ?b \<le> t' then t' - ?b else t' + 16 - ?b) < (if ?b \<le> ?t then ?t - ?b else ?t + 16 - ?b)"
    using r by (cases "?t = 0") (auto simp: t'_def ERR_NUM_ERRORS_def)
  then have "(t' + 16 - ?b) mod 16 < (?t + 16 - ?b) mod 16" unfolding ring_distance [OF r(1,2)] ring_distance [OF r(1,4)] .
  then show ?case unfolding t'_def by (cases "?t = 0") (simp_all add: ERR_NUM_ERRORS_def)
qed simp

declare pop_loop.simps [simp del]

definition ERR_pop_to_mark :: "bool \<Rightarrow> err_world \<Rightarrow> bool \<times> err_world" where
  "ERR_pop_to_mark got w =
    (case err_get_state got w of
       (None, w) \<Rightarrow> (False, w)
     | (Some state, w) \<Rightarrow>
        (case pop_loop state (ew_heap w) of (r, state, h) \<Rightarrow> (r, w\<lparr>ew_tls := Some state, ew_heap := h\<rparr>)))"

record ERR_SAVE_STATE =
  ss_errors :: "err_error_st list"

definition ERR_SAVE_STATE_free :: "ERR_SAVE_STATE option \<Rightarrow> heap \<Rightarrow> heap" where
  "ERR_SAVE_STATE_free state h = (case state of None \<Rightarrow> h
    | Some s \<Rightarrow> snd (err_clear_loop (length (ss_errors s)) (ss_errors s) h))"

text \<open>\<open>got1\<close> and \<open>got2\<close> are whether the two structures can be allocated.\<close>

definition ERR_save_state :: "bool \<Rightarrow> bool \<Rightarrow> bool \<Rightarrow> fresh \<Rightarrow> err_world \<Rightarrow> ERR_SAVE_STATE option \<times> err_world" where
  "ERR_save_state got got1 got2 f w =
    (case err_get_state got w of
       (None, w) \<Rightarrow> (None, w)
     | (Some state, w) \<Rightarrow>
        if es_top state = es_bottom state then (None, w)
        else if \<not> got1 then (None, w)
        else let num_errors = (if es_top state \<ge> es_bottom state then es_top state - es_bottom state
                               else ERR_NUM_ERRORS + es_top state - es_bottom state)
        in if \<not> got2 then (None, w)
           else (case err_copy_loop f (\<lambda>i. es_errors state ! ((es_bottom state + i + 1) mod ERR_NUM_ERRORS)) num_errors
                        (replicate num_errors err_zero) (ew_heap w) of
                   (es, h) \<Rightarrow> (Some \<lparr>ss_errors = es\<rparr>, w\<lparr>ew_heap := h\<rparr>)))"

definition ERR_restore_state :: "bool \<Rightarrow> fresh \<Rightarrow> ERR_SAVE_STATE option \<Rightarrow> err_world \<Rightarrow> err_world" where
  "ERR_restore_state got f saved w =
    (case saved of
       None \<Rightarrow> ERR_clear_error got w
     | Some s \<Rightarrow>
        if length (ss_errors s) = 0 then ERR_clear_error got w
        else (case err_get_state got w of
                (None, w) \<Rightarrow> w
              | (Some dst, w) \<Rightarrow>
                 (case err_copy_loop f (\<lambda>i. ss_errors s ! i) (length (ss_errors s)) (es_errors dst) (ew_heap w) of
                    (es, h) \<Rightarrow> w\<lparr>ew_tls := Some (dst\<lparr>es_errors := es, es_top := length (ss_errors s) - 1,
                      es_bottom := ERR_NUM_ERRORS - 1\<rparr>), ew_heap := h\<rparr>)))"

section \<open>The ring is a queue\<close>

definition err_ok :: "ERR_STATE \<Rightarrow> bool" where
  "err_ok s \<longleftrightarrow> length (es_errors s) = ERR_NUM_ERRORS \<and> es_top s < ERR_NUM_ERRORS \<and> es_bottom s < ERR_NUM_ERRORS"

definition err_count :: "ERR_STATE \<Rightarrow> nat" where
  "err_count s = (es_top s + ERR_NUM_ERRORS - es_bottom s) mod ERR_NUM_ERRORS"

definition err_queue :: "ERR_STATE \<Rightarrow> err_error_st list" where
  "err_queue s = map (\<lambda>i. es_errors s ! ((es_bottom s + Suc i) mod ERR_NUM_ERRORS)) [0..<err_count s]"

lemma err_okD: "err_ok s \<Longrightarrow> length (es_errors s) = 16" "err_ok s \<Longrightarrow> es_top s < 16" "err_ok s \<Longrightarrow> es_bottom s < 16"
  by (simp_all add: err_ok_def ERR_NUM_ERRORS_def)

lemma ring_inj:
  assumes "i < 16" and "j < 16"
  shows "(b + i) mod 16 = (b + j) mod (16 :: nat) \<longleftrightarrow> i = j"
proof
  have "i = j" if "(b + i) mod 16 = (b + j) mod 16" "i \<le> j" "j < 16" for i j :: nat
  proof -
    have "16 dvd (b + j) - (b + i)" using that mod_eq_dvd_iff_nat [of "b + i" "b + j" 16] by simp
    then have "16 dvd j - i" by simp
    with that show ?thesis using dvd_imp_le [of 16 "j - i"] by linarith
  qed
  then show "(b + i) mod 16 = (b + j) mod 16 \<Longrightarrow> i = j" using assms by (metis nat_le_linear)
qed simp

lemma ring_top:
  assumes "b < 16" and "t < 16"
  shows "(b + (t + 16 - b) mod 16) mod 16 = (t :: nat)"
  using assms unfolding ring_distance [OF assms] by simp

lemma ring_count:
  assumes "b < 16" and "t < 16" and "c < 16" and "(b + c) mod 16 = (t :: nat)"
  shows "(t + 16 - b) mod 16 = c"
  using ring_inj [of "(t + 16 - b) mod 16" c b] ring_top [OF assms(1,2)] assms(3,4) by simp

lemma err_count_top: "err_ok s \<Longrightarrow> (es_bottom s + err_count s) mod 16 = es_top s"
  using ring_top [of "es_bottom s" "es_top s"] by (simp add: err_count_def ERR_NUM_ERRORS_def err_okD)

lemma err_countI:
  assumes "err_ok s" and "c < 16" and "(es_bottom s + c) mod 16 = es_top s"
  shows "err_count s = c"
  using ring_count [OF _ _ assms(2,3)] err_okD [OF assms(1)] by (simp add: err_count_def ERR_NUM_ERRORS_def)

lemma err_count_less: "err_count s < 16"
  by (simp add: err_count_def ERR_NUM_ERRORS_def)

lemma err_count_0_iff: "err_ok s \<Longrightarrow> err_count s = 0 \<longleftrightarrow> es_bottom s = es_top s"
  using err_count_top [of s] err_countI [of s 0] err_okD [of s] by fastforce

lemma length_err_queue [simp]: "length (err_queue s) = err_count s"
  by (simp add: err_queue_def)

lemma err_queue_nth: "i < err_count s \<Longrightarrow> err_queue s ! i = es_errors s ! ((es_bottom s + Suc i) mod 16)"
  by (simp add: err_queue_def ERR_NUM_ERRORS_def)

text \<open>A slot that no index of the queue names does not matter; the slot at \<open>top\<close> is the last element.\<close>

lemma err_queue_update_last:
  fixes e :: err_error_st
  assumes "err_ok s" and "es_bottom s \<noteq> es_top s"
  defines "s' \<equiv> s\<lparr>es_errors := (es_errors s)[es_top s := e]\<rparr>"
  shows "err_ok s'" and "err_queue s' = butlast (err_queue s) @ [e]" and "last (err_queue s) = es_errors s ! es_top s"
proof -
  note k = err_okD [OF assms(1)]
  show ok: "err_ok s'" using assms(1) by (simp add: err_ok_def s'_def)
  obtain n where n: "err_count s = Suc n" using err_count_0_iff [OF assms(1)] assms(2) not0_implies_Suc by blast
  have t: "(es_bottom s + Suc n) mod 16 = es_top s" using err_count_top [OF assms(1)] n by simp
  have n': "err_count s' = Suc n" using n by (simp add: err_count_def s'_def)
  have less: "Suc n < 16" using err_count_less [of s] n by simp
  have other: "(es_bottom s + Suc i) mod 16 \<noteq> es_top s" if "i < n" for i
    using ring_inj [of "Suc i" "Suc n" "es_bottom s"] that less t by simp
  show "err_queue s' = butlast (err_queue s) @ [e]"
  proof (rule nth_equalityI)
    fix i
    assume "i < length (err_queue s')"
    then have "i < Suc n" using n' by simp
    then show "err_queue s' ! i = (butlast (err_queue s) @ [e]) ! i"
      using n n' other [of i] t k
      by (cases "i = n") (simp_all add: err_queue_nth nth_append nth_butlast, simp_all add: s'_def)
  qed (simp add: n n')
  have ne: "err_queue s \<noteq> []" using n length_err_queue [of s] by force
  show "last (err_queue s) = es_errors s ! es_top s"
    using ne n t by (simp add: last_conv_nth err_queue_nth)
qed

lemma err_queue_drop_last:
  fixes e :: err_error_st
  assumes "err_ok s" and "es_bottom s \<noteq> es_top s"
  defines "s' \<equiv> s\<lparr>es_errors := (es_errors s)[es_top s := e], es_top := if es_top s = 0 then ERR_NUM_ERRORS - 1 else es_top s - 1\<rparr>"
  shows "err_ok s'" and "err_queue s' = butlast (err_queue s)"
proof -
  note k = err_okD [OF assms(1)]
  show ok: "err_ok s'" using assms(1) by (auto simp: err_ok_def s'_def ERR_NUM_ERRORS_def)
  obtain n where n: "err_count s = Suc n" using err_count_0_iff [OF assms(1)] assms(2) not0_implies_Suc by blast
  have t: "(es_bottom s + Suc n) mod 16 = es_top s" using err_count_top [OF assms(1)] n by simp
  have less: "Suc n < 16" using err_count_less [of s] n by simp
  have "(es_bottom s + n) mod 16 = (if es_top s = 0 then 15 else es_top s - 1)"
    using t by (simp add: mod_Suc split: if_splits)
  then have n': "err_count s' = n" using err_countI [OF ok, of n] less by (simp add: s'_def ERR_NUM_ERRORS_def)
  have other: "(es_bottom s + Suc i) mod 16 \<noteq> es_top s" if "i < n" for i
    using ring_inj [of "Suc i" "Suc n" "es_bottom s"] that less t by simp
  show "err_queue s' = butlast (err_queue s)"
  proof (rule nth_equalityI)
    fix i
    assume "i < length (err_queue s')"
    then have "i < n" using n' by simp
    then show "err_queue s' ! i = butlast (err_queue s) ! i"
      using n n' other [of i] k by (simp add: err_queue_nth nth_butlast) (simp add: s'_def)
  qed (simp add: n n')
qed

lemma err_queue_drop_first:
  fixes e :: err_error_st
  assumes "err_ok s" and "es_bottom s \<noteq> es_top s"
  defines "i \<equiv> (es_bottom s + 1) mod ERR_NUM_ERRORS"
  defines "s' \<equiv> s\<lparr>es_errors := (es_errors s)[i := e], es_bottom := i\<rparr>"
  shows "err_ok s'" and "err_queue s' = tl (err_queue s)" and "hd (err_queue s) = es_errors s ! i"
proof -
  note k = err_okD [OF assms(1)]
  show ok: "err_ok s'" using assms(1) by (auto simp: err_ok_def s'_def i_def ERR_NUM_ERRORS_def)
  obtain n where n: "err_count s = Suc n" using err_count_0_iff [OF assms(1)] assms(2) not0_implies_Suc by blast
  have i: "i = (es_bottom s + 1) mod 16" by (simp add: i_def ERR_NUM_ERRORS_def)
  have t: "(es_bottom s + Suc n) mod 16 = es_top s" using err_count_top [OF assms(1)] n by simp
  have less: "Suc n < 16" using err_count_less [of s] n by simp
  have shift: "(i + m) mod 16 = (es_bottom s + Suc m) mod 16" for m unfolding i by (simp add: mod_simps)
  have n': "err_count s' = n" using err_countI [OF ok, of n] less t shift [of n] by (simp add: s'_def)
  have other: "(es_bottom s + Suc (Suc j)) mod 16 \<noteq> i" if "j < n" for j
    using ring_inj [of "Suc (Suc j)" 1 "es_bottom s"] that less by (simp add: i)
  show "err_queue s' = tl (err_queue s)"
  proof (rule nth_equalityI)
    fix j
    assume "j < length (err_queue s')"
    then have "j < n" using n' by simp
    moreover have "(i + Suc j) mod 16 = (es_bottom s + Suc (Suc j)) mod 16" by (rule shift)
    ultimately show "err_queue s' ! j = tl (err_queue s) ! j"
      using n n' other [of j] by (simp add: err_queue_nth nth_tl) (simp add: s'_def)
  qed (simp add: n n')
  have ne: "err_queue s \<noteq> []" using n length_err_queue [of s] by force
  show "hd (err_queue s) = es_errors s ! i" using ne n by (simp add: hd_conv_nth err_queue_nth i)
qed

lemma err_queue_put:
  fixes e :: err_error_st
  assumes "err_ok s"
  defines "t \<equiv> (es_top s + 1) mod ERR_NUM_ERRORS"
  defines "s' \<equiv> s\<lparr>es_errors := (es_errors s)[t := e], es_top := t,
    es_bottom := if t = es_bottom s then (es_bottom s + 1) mod ERR_NUM_ERRORS else es_bottom s\<rparr>"
  shows "err_ok s'" and "err_queue s' = (if err_count s = 15 then tl (err_queue s) else err_queue s) @ [e]"
proof -
  let ?n = "err_count s" and ?b = "es_bottom s"
  note k = err_okD [OF assms(1)]
  show ok: "err_ok s'" using assms(1) by (auto simp: err_ok_def s'_def t_def ERR_NUM_ERRORS_def)
  have t: "t = (?b + Suc ?n) mod 16"
    using err_count_top [OF assms(1)] by (simp add: t_def ERR_NUM_ERRORS_def mod_simps) (metis mod_Suc_eq)
  have n: "?n < 16" by (rule err_count_less)
  show "err_queue s' = (if err_count s = 15 then tl (err_queue s) else err_queue s) @ [e]"
  proof (cases "?n = 15")
    case True
    then have tb: "t = ?b" using t k by simp
    have b': "es_bottom s' = (?b + 1) mod 16" using tb by (simp add: s'_def ERR_NUM_ERRORS_def)
    have shift: "((?b + 1) mod 16 + m) mod 16 = (?b + Suc m) mod 16" for m by (simp add: mod_simps)
    have n': "err_count s' = 15" using err_countI [OF ok, of 15] b' shift [of 15] k tb by (simp add: s'_def)
    have other: "(?b + Suc (Suc j)) mod 16 \<noteq> ?b" if "j < 14" for j
      using ring_inj [of "Suc (Suc j)" 0 ?b] that k by simp
    have "err_queue s' = tl (err_queue s) @ [e]"
    proof (rule nth_equalityI)
      fix j
      assume "j < length (err_queue s')"
      then have j: "j < 15" using n' by simp
      have at: "err_queue s' ! j = (es_errors s)[?b := e] ! ((?b + Suc (Suc j)) mod 16)"
        using j n' shift [of "Suc j"] b' tb by (simp add: err_queue_nth) (simp add: s'_def)
      show "err_queue s' ! j = (tl (err_queue s) @ [e]) ! j"
      proof (cases "j = 14")
        case True
        then have "(?b + Suc (Suc j)) mod 16 = ?b" using k by simp
        with at True \<open>?n = 15\<close> k show ?thesis by (simp add: nth_append)
      next
        case False
        with j have "j < 14" by simp
        with at other [of j] True show ?thesis by (simp add: nth_append nth_tl err_queue_nth)
      qed
    qed (simp add: n' True)
    with True show ?thesis by simp
  next
    case False
    with n have less: "Suc ?n < 16" by simp
    have tb: "t \<noteq> ?b" using t ring_inj [of "Suc ?n" 0 ?b] less k by simp
    have n': "err_count s' = Suc ?n" using err_countI [OF ok, of "Suc ?n"] t tb less by (simp add: s'_def)
    have other: "(?b + Suc j) mod 16 \<noteq> t" if "j < ?n" for j
      using ring_inj [of "Suc j" "Suc ?n" ?b] that less t by simp
    have "err_queue s' = err_queue s @ [e]"
    proof (rule nth_equalityI)
      fix j
      assume "j < length (err_queue s')"
      then have j: "j < Suc ?n" using n' by simp
      have "err_queue s' ! j = (es_errors s)[t := e] ! ((?b + Suc j) mod 16)"
        using j n' tb by (simp add: err_queue_nth) (simp add: s'_def)
      then show "err_queue s' ! j = (err_queue s @ [e]) ! j"
        using j other [of j] t k by (cases "j = ?n") (simp_all add: nth_append err_queue_nth)
    qed (simp add: n')
    with False show ?thesis by simp
  qed
qed

section \<open>The operations on the queue\<close>

definition world_ok :: "err_world \<Rightarrow> bool" where
  "world_ok w \<longleftrightarrow> (case ew_tls w of None \<Rightarrow> True | Some s \<Rightarrow> err_ok s)"

definition world_queue :: "err_world \<Rightarrow> err_error_st list" where
  "world_queue w = (case ew_tls w of None \<Rightarrow> [] | Some s \<Rightarrow> err_queue s)"

text \<open>A state there is, or one can be made.\<close>

lemma world_queue_bound: "length (world_queue w) < 16"
  using err_count_less by (simp add: world_queue_def split: option.splits)

definition has_state :: "bool \<Rightarrow> err_world \<Rightarrow> bool" where
  "has_state got w \<longleftrightarrow> got \<or> ew_tls w \<noteq> None"

lemma get_state_Some:
  assumes "world_ok w" and "err_get_state got w = (Some s, w1)"
  shows "err_ok s" and "err_queue s = world_queue w" and "ew_tls w1 = Some s" and "ew_heap w1 = ew_heap w" and "has_state got w"
proof -
  let ?s0 = "\<lparr>es_errors = replicate ERR_NUM_ERRORS err_zero, es_top = 0, es_bottom = 0, es_to_free = NULL\<rparr>"
  have s0: "err_ok ?s0" "err_queue ?s0 = []" by (simp_all add: err_ok_def err_queue_def err_count_def ERR_NUM_ERRORS_def)
  have "(ew_tls w = Some s \<and> w1 = w) \<or> (ew_tls w = None \<and> got \<and> s = ?s0 \<and> w1 = w\<lparr>ew_tls := Some s\<rparr>)"
    using assms(2) by (auto simp: err_get_state_def Let_def split: option.splits if_splits)
  with s0 assms(1) show "err_ok s" and "err_queue s = world_queue w" and "ew_tls w1 = Some s" and "ew_heap w1 = ew_heap w" and "has_state got w"
    by (auto simp: world_ok_def world_queue_def has_state_def)
qed

lemma get_state_None: "err_get_state got w = (None, w1) \<Longrightarrow> w1 = w \<and> ew_tls w = None \<and> \<not> has_state got w"
  by (auto simp: err_get_state_def has_state_def Let_def split: option.splits if_splits)

lemma world_None: "ew_tls w = None \<Longrightarrow> world_ok w \<and> world_queue w = []"
  by (simp add: world_ok_def world_queue_def)

lemma world_Some: "ew_tls w = Some s \<Longrightarrow> world_ok w = err_ok s \<and> world_queue w = err_queue s"
  by (simp add: world_ok_def world_queue_def)

lemma err_queue_empty: "err_ok s \<Longrightarrow> err_queue s = [] \<longleftrightarrow> es_bottom s = es_top s"
  using err_count_0_iff [of s] length_err_queue [of s] by (metis length_0_conv)

text \<open>The queue and the invariant look at three fields only.\<close>

definition same_ring :: "ERR_STATE \<Rightarrow> ERR_STATE \<Rightarrow> bool" where
  "same_ring s s' \<longleftrightarrow> es_errors s' = es_errors s \<and> es_top s' = es_top s \<and> es_bottom s' = es_bottom s"

lemma same_ring: "same_ring s s' \<Longrightarrow> err_ok s' = err_ok s \<and> err_queue s' = err_queue s"
  by (simp add: same_ring_def err_ok_def err_queue_def err_count_def)

definition new_error :: "int \<Rightarrow> int \<Rightarrow> int \<Rightarrow> string option \<Rightarrow> nat \<Rightarrow> err_error_st" where
  "new_error errno_value library reason file line =
    \<lparr>ee_file = file, ee_data = NULL, ee_packed = ERR_PACK library (if library = ERR_LIB_SYS \<and> reason = 0 then errno_value else reason),
     ee_line = word_of_nat line, ee_mark = False\<rparr>"

lemma put_queue:
  fixes got :: bool and errno_value library reason :: int and fname :: "string option" and line :: nat
  assumes "world_ok w"
  defines "w' \<equiv> ERR_put_error got errno_value library reason fname line w"
    and "q \<equiv> world_queue w @ [new_error errno_value library reason fname line]"
  shows "world_ok w'" and "world_queue w' = (if has_state got w then drop (length q - 15) q else world_queue w)"
proof -
  have "world_ok w' \<and> world_queue w' = (if has_state got w then drop (length q - 15) q else world_queue w)"
  proof (cases "err_get_state got w")
    case (Pair st w1)
    show ?thesis
    proof (cases st)
      case None
      with Pair get_state_None [of got w w1] show ?thesis by (simp add: w'_def ERR_put_error_def world_None)
    next
      case (Some s)
      note g = get_state_Some [OF assms(1) Pair [unfolded Some]]
      let ?t = "(es_top s + 1) mod ERR_NUM_ERRORS"
      let ?s = "s\<lparr>es_errors := (es_errors s)[?t := new_error errno_value library reason fname line], es_top := ?t,
        es_bottom := if ?t = es_bottom s then (es_bottom s + 1) mod ERR_NUM_ERRORS else es_bottom s\<rparr>"
      have "ew_tls w' = Some ?s"
        by (simp add: w'_def ERR_put_error_def Pair Some Let_def err_clear_def err_zero_def new_error_def)
      note w = world_Some [OF this] err_queue_put [OF g(1), of "new_error errno_value library reason fname line"]
      have "length q = Suc (err_count s)" by (simp add: q_def g(2) [symmetric])
      moreover have "drop (length q - 15) q = (if err_count s = 15 then tl (err_queue s) else err_queue s) @ [new_error errno_value library reason fname line]"
        using err_count_less [of s] by (auto simp: q_def g(2) [symmetric] drop_Suc)
      ultimately show ?thesis using w g(5) by simp
    qed
  qed
  then show "world_ok w'" and "world_queue w' = (if has_state got w then drop (length q - 15) q else world_queue w)" by simp_all
qed

lemma get_queue:
  assumes "world_ok w" and "get_error_values got True False wfile wdata w = (v, w')"
  shows "world_ok w' \<and> (case world_queue w of [] \<Rightarrow> v = no_values \<and> world_queue w' = []
    | e # q \<Rightarrow> ev_packed v = ee_packed e \<and> world_queue w' = q)"
proof (cases "err_get_state got w")
  case (Pair st w1)
  show ?thesis
  proof (cases st)
    case None
    with Pair get_state_None [of got w w1] assms(2) show ?thesis by (auto simp: get_error_values_def world_None)
  next
    case (Some s)
    note g = get_state_Some [OF assms(1) Pair [unfolded Some]]
    show ?thesis
    proof (cases "es_bottom s = es_top s")
      case True
      with assms(2) Pair Some have "v = no_values" "w' = w1" by (simp_all add: get_error_values_def)
      with g True err_queue_empty [OF g(1)] world_Some [OF g(3)] show ?thesis by auto
    next
      case False
      let ?i = "(es_bottom s + 1) mod ERR_NUM_ERRORS"
      have "ev_packed v = ee_packed (es_errors s ! ?i) \<and>
          (\<exists>s'. ew_tls w' = Some s' \<and> same_ring (s\<lparr>es_errors := (es_errors s)[?i := err_zero], es_bottom := ?i\<rparr>) s')"
        using assms(2) Pair Some False
        by (auto simp: get_error_values_def Let_def err_clear_def same_ring_def split: if_splits)
      then obtain s' where p: "ev_packed v = ee_packed (es_errors s ! ?i)" "ew_tls w' = Some s'"
        "same_ring (s\<lparr>es_errors := (es_errors s)[?i := err_zero], es_bottom := ?i\<rparr>) s'" by blast
      note d = err_queue_drop_first(1,2) [OF g(1) False, of err_zero] err_queue_drop_first(3) [OF g(1) False]
      have "world_ok w'" "world_queue w' = tl (err_queue s)"
        using world_Some [OF p(2)] same_ring [OF p(3)] d(1,2) by simp_all
      with p(1) d(3) g(2) err_queue_empty [OF g(1)] False show ?thesis by (cases "world_queue w") auto
    qed
  qed
qed

lemma peek_queue:
  assumes "world_ok w" and "get_error_values got False newest wfile wdata w = (v, w')"
  shows "world_ok w' \<and> world_queue w' = world_queue w \<and> ew_heap w' = ew_heap w \<and>
    (if world_queue w = [] then v = no_values
     else ev_packed v = ee_packed (if newest then last (world_queue w) else hd (world_queue w)))"
proof (cases "err_get_state got w")
  case (Pair st w1)
  show ?thesis
  proof (cases st)
    case None
    with Pair get_state_None [of got w w1] assms show ?thesis by (auto simp: get_error_values_def world_None)
  next
    case (Some s)
    note g = get_state_Some [OF assms(1) Pair [unfolded Some]]
    have w': "w' = w1" using assms(2) Pair Some by (auto simp: get_error_values_def Let_def split: if_splits)
    have q: "world_ok w1" "world_queue w1 = world_queue w" using world_Some [OF g(3)] g(1,2) by simp_all
    show ?thesis
    proof (cases "es_bottom s = es_top s")
      case True
      then have "v = no_values" using assms(2) Pair Some by (simp add: get_error_values_def)
      with True w' q g err_queue_empty [OF g(1)] show ?thesis by simp
    next
      case False
      then have "ev_packed v = ee_packed (es_errors s ! (if newest then es_top s else (es_bottom s + 1) mod ERR_NUM_ERRORS))"
        using assms(2) Pair Some by (auto simp: get_error_values_def Let_def split: if_splits)
      then show ?thesis using False w' q g err_queue_empty [OF g(1)] err_queue_drop_first(3) [OF g(1) False]
          err_queue_update_last(3) [OF g(1) False] by (simp split: if_splits)
    qed
  qed
qed

lemma clear_loop_es: "n \<le> length es \<Longrightarrow> fst (err_clear_loop n es h) = replicate n err_zero @ drop n es"
proof (induction n arbitrary: h)
  case (Suc n)
  obtain es' h' where r: "err_clear_loop n es h = (es', h')" by force
  have e: "es' = replicate n err_zero @ drop n es" using Suc r by (metis Suc_leD fst_conv)
  have "drop n es = es ! n # drop (Suc n) es" using Suc.prems by (simp add: Cons_nth_drop_Suc)
  then show ?case using r e by (simp add: err_clear_def list_update_append replicate_append_same [symmetric])
qed simp

lemma clear_queue:
  assumes "world_ok w"
  shows "world_ok (ERR_clear_error got w)" and "world_queue (ERR_clear_error got w) = []"
proof -
  have "world_ok (ERR_clear_error got w) \<and> world_queue (ERR_clear_error got w) = []"
  proof (cases "err_get_state got w")
    case (Pair st w1)
    show ?thesis
    proof (cases st)
      case None
      with Pair get_state_None [of got w w1] show ?thesis by (simp add: ERR_clear_error_def world_None)
    next
      case (Some s)
      note g = get_state_Some [OF assms(1) Pair [unfolded Some]]
      obtain es h where l: "err_clear_loop ERR_NUM_ERRORS (es_errors s) (ew_heap w1) = (es, h)" by force
      have "length es = ERR_NUM_ERRORS" using clear_loop_es [of ERR_NUM_ERRORS "es_errors s" "ew_heap w1"] g(1) l by (simp add: err_ok_def)
      moreover have "ew_tls (ERR_clear_error got w) = Some (s\<lparr>es_errors := es, es_to_free := NULL, es_top := 0, es_bottom := 0\<rparr>)"
        by (simp add: ERR_clear_error_def Pair Some l)
      ultimately show ?thesis using world_Some [of "ERR_clear_error got w"]
        by (simp add: err_ok_def err_queue_def err_count_def ERR_NUM_ERRORS_def)
    qed
  qed
  then show "world_ok (ERR_clear_error got w)" and "world_queue (ERR_clear_error got w) = []" by simp_all
qed

lemma set_data_queue:
  assumes "world_ok w"
  shows "world_ok (err_set_error_data got p w)"
    and "world_queue (err_set_error_data got p w) =
      (if world_queue w = [] then [] else butlast (world_queue w) @ [(last (world_queue w))\<lparr>ee_data := p\<rparr>])"
proof -
  let ?w = "err_set_error_data got p w"
  have "world_ok ?w \<and> world_queue ?w = (if world_queue w = [] then [] else butlast (world_queue w) @ [(last (world_queue w))\<lparr>ee_data := p\<rparr>])"
  proof (cases "err_get_state got w")
    case (Pair st w1)
    show ?thesis
    proof (cases st)
      case None
      with Pair get_state_None [of got w w1] show ?thesis by (simp add: err_set_error_data_def world_ok_def world_queue_def)
    next
      case (Some s)
      note g = get_state_Some [OF assms(1) Pair [unfolded Some]]
      show ?thesis
      proof (cases "es_bottom s = es_top s")
        case True
        then show ?thesis using Pair Some g err_queue_empty [OF g(1)] by (simp add: err_set_error_data_def world_ok_def world_queue_def)
      next
        case False
        note u = err_queue_update_last(1,2) [OF g(1) False, of "(es_errors s ! es_top s)\<lparr>ee_data := p\<rparr>"] err_queue_update_last(3) [OF g(1) False]
        have "ew_tls ?w = Some (s\<lparr>es_errors := (es_errors s)[es_top s := (es_errors s ! es_top s)\<lparr>ee_data := p\<rparr>]\<rparr>)"
          using Pair Some False by (simp add: err_set_error_data_def Let_def)
        from world_Some [OF this] u g(2) err_queue_empty [OF g(1)] False show ?thesis by simp
      qed
    qed
  qed
  then show "world_ok ?w" and "world_queue ?w = (if world_queue w = [] then [] else butlast (world_queue w) @ [(last (world_queue w))\<lparr>ee_data := p\<rparr>])" by simp_all
qed

lemma mark_queue:
  assumes "world_ok w" and "ERR_set_mark got w = (r, w')"
  shows "world_ok w'" and "r \<longleftrightarrow> world_queue w \<noteq> []"
    and "world_queue w' = (if r then butlast (world_queue w) @ [(last (world_queue w))\<lparr>ee_mark := True\<rparr>] else [])"
proof -
  have "world_ok w' \<and> (r \<longleftrightarrow> world_queue w \<noteq> []) \<and>
    world_queue w' = (if r then butlast (world_queue w) @ [(last (world_queue w))\<lparr>ee_mark := True\<rparr>] else [])"
  proof (cases "err_get_state got w")
    case (Pair st w1)
    show ?thesis
    proof (cases st)
      case None
      with Pair get_state_None [of got w w1] assms show ?thesis by (simp add: ERR_set_mark_def world_None)
    next
      case (Some s)
      note g = get_state_Some [OF assms(1) Pair [unfolded Some]]
      show ?thesis
      proof (cases "es_bottom s = es_top s")
        case True
        then show ?thesis using Pair Some g err_queue_empty [OF g(1)] assms(2) world_Some [OF g(3)] by (simp add: ERR_set_mark_def)
      next
        case False
        note u = err_queue_update_last(1,2) [OF g(1) False, of "(es_errors s ! es_top s)\<lparr>ee_mark := True\<rparr>"] err_queue_update_last(3) [OF g(1) False]
        have w': "r" "w' = w1\<lparr>ew_tls := Some (s\<lparr>es_errors := (es_errors s)[es_top s := (es_errors s ! es_top s)\<lparr>ee_mark := True\<rparr>]\<rparr>)\<rparr>"
          using assms(2) Pair Some False by (auto simp: ERR_set_mark_def)
        then have "ew_tls w' = Some (s\<lparr>es_errors := (es_errors s)[es_top s := (es_errors s ! es_top s)\<lparr>ee_mark := True\<rparr>]\<rparr>)" by simp
        from world_Some [OF this] w'(1) u g(2) err_queue_empty [OF g(1)] False show ?thesis by simp
      qed
    qed
  qed
  then show "world_ok w'" and "r \<longleftrightarrow> world_queue w \<noteq> []"
    and "world_queue w' = (if r then butlast (world_queue w) @ [(last (world_queue w))\<lparr>ee_mark := True\<rparr>] else [])" by simp_all
qed

text \<open>What is left of a queue that is cut at its last mark.\<close>

definition cut :: "err_error_st list \<Rightarrow> err_error_st list" where
  "cut q = rev (dropWhile (\<lambda>e. \<not> ee_mark e) (rev q))"

lemma pop_loop_queue:
  assumes "err_ok s" and "pop_loop s h = (r, s', h')"
  shows "err_ok s' \<and> (r \<longleftrightarrow> cut (err_queue s) \<noteq> []) \<and>
    err_queue s' = (if r then butlast (cut (err_queue s)) @ [(last (cut (err_queue s)))\<lparr>ee_mark := False\<rparr>] else [])"
  using assms
proof (induction s h rule: pop_loop.induct)
  case (1 s h)
  note k = err_okD [OF "1.prems"(1)]
  show ?case
  proof (cases "es_bottom s = es_top s")
    case True
    then show ?thesis using "1.prems" err_queue_empty [OF "1.prems"(1)] by (simp add: pop_loop.simps [of s] cut_def)
  next
    case False
    let ?e = "es_errors s ! es_top s"
    have bounds: "es_bottom s < ERR_NUM_ERRORS" "es_top s < ERR_NUM_ERRORS" using "1.prems"(1) by (simp_all add: err_ok_def)
    have ne: "err_queue s \<noteq> []" using err_queue_empty [OF "1.prems"(1)] False by simp
    have q: "err_queue s = butlast (err_queue s) @ [?e]"
      using ne err_queue_update_last(3) [OF "1.prems"(1) False] by (metis append_butlast_last_id)
    show ?thesis
    proof (cases "ee_mark ?e")
      case True
      then have c: "cut (err_queue s) = err_queue s" by (subst q, subst (2) q) (simp add: cut_def)
      have r: "r" "s' = s\<lparr>es_errors := (es_errors s)[es_top s := ?e\<lparr>ee_mark := False\<rparr>]\<rparr>"
        using "1.prems"(2) True False bounds by (simp_all add: pop_loop.simps [of s] Let_def)
      then show ?thesis using c ne err_queue_update_last(1,2) [OF "1.prems"(1) False, of "?e\<lparr>ee_mark := False\<rparr>"]
          err_queue_update_last(3) [OF "1.prems"(1) False] by simp
    next
      case nm: False
      let ?s = "s\<lparr>es_errors := (es_errors s)[es_top s := err_zero], es_top := if es_top s = 0 then ERR_NUM_ERRORS - 1 else es_top s - 1\<rparr>"
      note d = err_queue_drop_last [OF "1.prems"(1) False, of err_zero]
      have c: "cut (err_queue s) = cut (butlast (err_queue s))" using nm by (subst q) (simp add: cut_def)
      have cl: "err_clear ?e h = (err_zero, hfree (ee_data ?e) h)" by (simp add: err_clear_def)
      have "pop_loop ?s (hfree (ee_data ?e) h) = (r, s', h')"
        using "1.prems"(2) nm False bounds by (simp add: pop_loop.simps [of s] Let_def cl)
      from "1.IH" [OF _ refl nm cl [symmetric] d(1) this] False bounds d(2) c show ?thesis by simp
    qed
  qed
qed

lemma pop_queue:
  assumes "world_ok w" and "ERR_pop_to_mark got w = (r, w')"
  shows "world_ok w'" and "r \<longleftrightarrow> cut (world_queue w) \<noteq> []"
    and "world_queue w' = (if r then butlast (cut (world_queue w)) @ [(last (cut (world_queue w)))\<lparr>ee_mark := False\<rparr>] else [])"
proof -
  have "world_ok w' \<and> (r \<longleftrightarrow> cut (world_queue w) \<noteq> []) \<and>
    world_queue w' = (if r then butlast (cut (world_queue w)) @ [(last (cut (world_queue w)))\<lparr>ee_mark := False\<rparr>] else [])"
  proof (cases "err_get_state got w")
    case (Pair st w1)
    show ?thesis
    proof (cases st)
      case None
      with Pair get_state_None [of got w w1] assms show ?thesis by (simp add: ERR_pop_to_mark_def world_None cut_def)
    next
      case (Some s)
      note g = get_state_Some [OF assms(1) Pair [unfolded Some]]
      obtain r' s' h' where p: "pop_loop s (ew_heap w1) = (r', s', h')" by (cases "pop_loop s (ew_heap w1)") auto
      from assms(2) have "r = r'" "ew_tls w' = Some s'" by (auto simp: ERR_pop_to_mark_def Pair Some p)
      then show ?thesis using world_Some [of w' s'] pop_loop_queue [OF g(1) p] g(2) by simp
    qed
  qed
  then show "world_ok w'" and "r \<longleftrightarrow> cut (world_queue w) \<noteq> []"
    and "world_queue w' = (if r then butlast (cut (world_queue w)) @ [(last (cut (world_queue w)))\<lparr>ee_mark := False\<rparr>] else [])"
    by simp_all
qed

section \<open>A queue of bounded length\<close>

text \<open>
  The contract: putting appends and forgets the oldest beyond the capacity, taking removes the oldest. Its clients
  only see the contents.
\<close>

locale bounded_queue =
  fixes cap :: nat
    and inv :: "'s \<Rightarrow> bool"
    and contents :: "'s \<Rightarrow> 'e list"
    and entry :: "'a \<Rightarrow> 'e"
    and put :: "'s \<Rightarrow> 'a \<Rightarrow> 's"
    and fetch :: "'s \<Rightarrow> 's"
  assumes put_inv: "inv s \<Longrightarrow> inv (put s a)"
    and put_contents: "inv s \<Longrightarrow> contents (put s a) = drop (Suc (length (contents s)) - cap) (contents s @ [entry a])"
    and fetch_inv: "inv s \<Longrightarrow> inv (fetch s)"
    and fetch_contents: "inv s \<Longrightarrow> contents (fetch s) = tl (contents s)"
begin

lemma drop_oldest:
  "drop (Suc (length (drop (length q - cap) q)) - cap) (drop (length q - cap) q @ [x]) = drop (Suc (length q) - cap) (q @ [x])"
proof (cases "length q \<le> cap")
  case False
  then have "length (drop (length q - cap) q) = cap" by simp
  then have "drop (Suc (length (drop (length q - cap) q)) - cap) (drop (length q - cap) q @ [x]) = drop 1 (drop (length q - cap) (q @ [x]))"
    by (simp only: drop_append) simp
  also have "\<dots> = drop (Suc (length q) - cap) (q @ [x])" using False by (simp only: drop_drop) (simp add: Suc_diff_le)
  finally show ?thesis .
qed simp

text \<open>After any number of puts the queue holds the most recent ones.\<close>

lemma put_all:
  assumes "inv s" and "length (contents s) \<le> cap"
  shows "inv (foldl put s as)"
    and "contents (foldl put s as) = drop (length (contents s @ map entry as) - cap) (contents s @ map entry as)"
proof -
  have "inv (foldl put s as) \<and> contents (foldl put s as) = drop (length (contents s @ map entry as) - cap) (contents s @ map entry as)"
    using assms
  proof (induction as rule: rev_induct)
    case (snoc a as)
    then have ih: "inv (foldl put s as)" "contents (foldl put s as) = drop (length (contents s @ map entry as) - cap) (contents s @ map entry as)"
      by simp_all
    with put_inv [OF ih(1), of a] put_contents [OF ih(1), of a] drop_oldest [of "contents s @ map entry as" "entry a"] show ?case by simp
  qed simp
  then show "inv (foldl put s as)"
    and "contents (foldl put s as) = drop (length (contents s @ map entry as) - cap) (contents s @ map entry as)" by simp_all
qed

lemma fetch_all: "inv s \<Longrightarrow> inv ((fetch ^^ n) s) \<and> contents ((fetch ^^ n) s) = drop n (contents s)"
  by (induction n) (simp_all add: fetch_inv fetch_contents drop_Suc tl_drop)

end

definition err_put :: "err_world \<Rightarrow> int \<times> int \<times> int \<times> string option \<times> nat \<Rightarrow> err_world" where
  "err_put w a = (case a of (errno_value, library, reason, fname, line) \<Rightarrow> ERR_put_error True errno_value library reason fname line w)"

definition err_entry :: "int \<times> int \<times> int \<times> string option \<times> nat \<Rightarrow> err_error_st" where
  "err_entry a = (case a of (errno_value, library, reason, fname, line) \<Rightarrow> new_error errno_value library reason fname line)"

definition err_fetch :: "err_world \<Rightarrow> err_world" where
  "err_fetch w = snd (ERR_get_error True w)"

interpretation errq: bounded_queue 15 world_ok world_queue err_entry err_put err_fetch
proof
  fix w :: err_world and a :: "int \<times> int \<times> int \<times> string option \<times> nat"
  assume w: "world_ok w"
  obtain x y z u v where a: "a = (x, y, z, u, v)" by (cases a) auto
  show "world_ok (err_put w a)" and "world_queue (err_put w a) = drop (Suc (length (world_queue w)) - 15) (world_queue w @ [err_entry a])"
    using put_queue [OF w, of True x y z u v] by (simp_all add: err_put_def err_entry_def a has_state_def)
  obtain r w' where g: "get_error_values True True False False False w = (r, w')" by force
  from get_queue [OF w g] show "world_ok (err_fetch w)" and "world_queue (err_fetch w) = tl (world_queue w)"
    by (simp_all add: err_fetch_def ERR_get_error_def g split: list.splits)
qed

section \<open>Properties\<close>

text \<open>
  C10: the ring of sixteen slots is a queue of capacity fifteen. After any number of \<open>ERR_put_error\<close> the queue
  holds the most recent fifteen errors in order, with the oldest forgotten first, and each \<open>ERR_get_error\<close> takes the
  oldest one that is left.
\<close>

theorem queue_keeps_newest:
  assumes "world_ok w"
  shows "let all = world_queue w @ map err_entry es; kept = drop (length all - 15) all in
    world_queue (foldl err_put w es) = kept \<and> world_queue ((err_fetch ^^ n) (foldl err_put w es)) = drop n kept \<and>
    fst (ERR_get_error True ((err_fetch ^^ n) (foldl err_put w es))) = (if n < length kept then ee_packed (kept ! n) else 0)"
proof -
  let ?all = "world_queue w @ map err_entry es"
  let ?w = "(err_fetch ^^ n) (foldl err_put w es)"
  have short: "length (world_queue w) \<le> 15" using world_queue_bound [of w] by simp
  note p = errq.put_all [OF assms short, of es]
  note q = errq.fetch_all [OF p(1), of n]
  obtain v w' where g: "get_error_values True True False False False ?w = (v, w')" by force
  define kept where "kept = drop (length ?all - 15) ?all"
  have k: "world_queue (foldl err_put w es) = kept" "world_queue ?w = drop n kept" using p(2) q by (simp_all add: kept_def)
  have "ev_packed v = (if n < length kept then ee_packed (kept ! n) else 0)"
  proof (cases "n < length kept")
    case True
    with get_queue [OF conjunct1 [OF q] g] k(2) show ?thesis by (simp add: Cons_nth_drop_Suc [symmetric])
  next
    case False
    with get_queue [OF conjunct1 [OF q] g] k(2) show ?thesis by (simp add: no_values_def)
  qed
  then show ?thesis using k g unfolding Let_def kept_def [symmetric] by (simp add: ERR_get_error_def)
qed

theorem queue_keeps_newest_witness:
  "let w = foldl err_put \<lparr>ew_tls = None, ew_heap = \<lparr>cells = Map.empty, fault = False\<rparr>\<rparr> (map (\<lambda>i. (0, 3, int i, None, i)) [0..<20])
   in map (unat \<circ> ee_line) (world_queue w) = [5..<20] \<and> fst (ERR_get_error True (err_fetch w)) = ERR_PACK 3 6"
proof -
  let ?w = "\<lparr>ew_tls = None, ew_heap = \<lparr>cells = Map.empty, fault = False\<rparr>\<rparr>"
  let ?es = "map (\<lambda>i. (0, 3, int i, None, i)) [0..<20]"
  have w: "world_ok ?w" "world_queue ?w = []" by (simp_all add: world_ok_def world_queue_def)
  note q = queue_keeps_newest [OF w(1), of ?es 0] queue_keeps_newest [OF w(1), of ?es 1]
  have k: "drop 5 (map err_entry ?es) = map (\<lambda>i. new_error 0 3 (int i) None i) [5..<20]"
    by (simp add: err_entry_def drop_map comp_def)
  have "map (unat \<circ> ee_line) (map (\<lambda>i. new_error 0 3 (int i) None i) [5..<20]) = [5..<20]"
    by (simp add: new_error_def upt_rec)
  moreover have "ee_packed (err_entry (0, 3, 6, None, 6)) = ERR_PACK 3 6" by (simp add: new_error_def err_entry_def ERR_LIB_SYS_def)
  ultimately show ?thesis using q k by (simp add: w(2) Let_def)
qed

text \<open>
  C12: \<open>ERR_pop_to_mark\<close> removes the newest errors down to the newest marked one, takes that mark away and returns
  1; with no mark it empties the queue and returns 0. In particular it undoes every error that was put after
  \<open>ERR_set_mark\<close>, as long as the ring did not overflow.
\<close>

theorem pop_cuts_to_mark:
  assumes "world_ok w" and "ERR_pop_to_mark got w = (r, w')"
  shows "world_ok w' \<and>
    (r \<longleftrightarrow> (\<exists>e \<in> set (world_queue w). ee_mark e)) \<and>
    (if r then \<exists>older e newer. world_queue w = older @ e # newer \<and> ee_mark e \<and> (\<forall>x \<in> set newer. \<not> ee_mark x) \<and>
        world_queue w' = older @ [e\<lparr>ee_mark := False\<rparr>]
     else world_queue w' = [])"
proof -
  note p = pop_queue [OF assms]
  let ?q = "world_queue w"
  have split: "?q = cut ?q @ rev (takeWhile (\<lambda>e. \<not> ee_mark e) (rev ?q))"
    by (metis cut_def rev_append rev_rev_ident takeWhile_dropWhile_id)
  have none: "\<forall>x \<in> set (rev (takeWhile (\<lambda>e. \<not> ee_mark e) (rev ?q))). \<not> ee_mark x" by (auto dest: set_takeWhileD)
  have marked: "ee_mark (last (cut ?q))" if "cut ?q \<noteq> []"
    using that hd_dropWhile [of "\<lambda>e. \<not> ee_mark e" "rev ?q"] by (simp add: cut_def last_rev)
  have r: "r \<longleftrightarrow> (\<exists>e \<in> set ?q. ee_mark e)"
    using p(2) by (auto simp: cut_def)
  show ?thesis
  proof (cases r)
    case True
    then have ne: "cut ?q \<noteq> []" using p(2) by simp
    have "?q = butlast (cut ?q) @ last (cut ?q) # rev (takeWhile (\<lambda>e. \<not> ee_mark e) (rev ?q))"
      using split append_butlast_last_id [OF ne] by (metis append.assoc append_Cons append_Nil)
    with none marked [OF ne] p(3) True have "\<exists>older e newer. ?q = older @ e # newer \<and> ee_mark e \<and> (\<forall>x \<in> set newer. \<not> ee_mark x) \<and>
        world_queue w' = older @ [e\<lparr>ee_mark := False\<rparr>]" by metis
    with True p(1) r show ?thesis by simp
  next
    case False
    with p r show ?thesis by simp
  qed
qed

theorem pop_cuts_to_mark_witness:
  "let w0 = foldl err_put \<lparr>ew_tls = None, ew_heap = \<lparr>cells = Map.empty, fault = False\<rparr>\<rparr> [(0, 3, 1, None, 10), (0, 3, 2, None, 20)];
       w1 = snd (ERR_set_mark True w0); w2 = foldl err_put w1 [(0, 3, 3, None, 30), (0, 3, 4, None, 40)]
   in fst (ERR_pop_to_mark True w2) \<and> world_queue (snd (ERR_pop_to_mark True w2)) = world_queue w0"
proof -
  define e where "e = (\<lambda>n. new_error 0 3 n None (nat (n * 10)))"
  define w0 where "w0 = foldl err_put \<lparr>ew_tls = None, ew_heap = \<lparr>cells = Map.empty, fault = False\<rparr>\<rparr> [(0, 3, 1, None, 10), (0, 3, 2, None, 20)]"
  define w1 where "w1 = snd (ERR_set_mark True w0)"
  define w2 where "w2 = foldl err_put w1 [(0, 3, 3, None, 30), (0, 3, 4, None, 40)]"
  have start: "world_ok \<lparr>ew_tls = None, ew_heap = \<lparr>cells = Map.empty, fault = False\<rparr>\<rparr>"
    "world_queue \<lparr>ew_tls = None, ew_heap = \<lparr>cells = Map.empty, fault = False\<rparr>\<rparr> = []" by (simp_all add: world_ok_def world_queue_def)
  have q0: "world_ok w0" "world_queue w0 = [e 1, e 2]"
    using errq.put_all [OF start(1), of "[(0, 3, 1, None, 10), (0, 3, 2, None, 20)]"] by (simp_all add: start(2) w0_def e_def err_entry_def)
  obtain r where m: "ERR_set_mark True w0 = (r, w1)" by (metis prod.collapse w1_def)
  have q1: "world_ok w1" "world_queue w1 = [e 1, (e 2)\<lparr>ee_mark := True\<rparr>]" using mark_queue [OF q0(1) m] q0(2) by auto
  have q2: "world_ok w2" "world_queue w2 = [e 1, (e 2)\<lparr>ee_mark := True\<rparr>, e 3, e 4]"
    using errq.put_all [OF q1(1), of "[(0, 3, 3, None, 30), (0, 3, 4, None, 40)]"] by (simp_all add: q1(2) w2_def e_def err_entry_def)
  obtain r' w3 where p: "ERR_pop_to_mark True w2 = (r', w3)" by force
  have u: "\<not> ee_mark (e n)" for n by (simp add: e_def new_error_def)
  have e2: "(e 2)\<lparr>ee_mark := True, ee_mark := False\<rparr> = e 2" by (simp add: e_def new_error_def)
  note t = pop_cuts_to_mark [OF q2(1) p]
  from t have "r'" by (simp add: q2(2) u)
  with t obtain older x newer where s: "[e 1, (e 2)\<lparr>ee_mark := True\<rparr>, e 3, e 4] = older @ x # newer" "ee_mark x"
    "\<forall>y \<in> set newer. \<not> ee_mark y" "world_queue w3 = older @ [x\<lparr>ee_mark := False\<rparr>]" by (auto simp: q2(2))
  then have "world_queue w3 = [e 1, e 2]" using u e2 by (auto simp: Cons_eq_append_conv)
  with \<open>r'\<close> p q0(2) show ?thesis unfolding Let_def w0_def [symmetric] w1_def [symmetric] w2_def [symmetric] by simp
qed

text \<open>What a saved state keeps of an error beside the copy of its string: the file, the line and the code, and no mark.\<close>

definition err_core :: "err_error_st \<Rightarrow> string option \<times> u16 \<times> u32" where
  "err_core e = (ee_file e, ee_line e, ee_packed e)"

lemma copy_loop_core:
  "n \<le> length es \<Longrightarrow> err_copy_loop f src n es h = (es', h') \<Longrightarrow> length es' = length es \<and>
    (\<forall>i < n. err_core (es' ! i) = err_core (src i) \<and> \<not> ee_mark (es' ! i))"
proof (induction n arbitrary: es' h')
  case (Suc n)
  obtain es1 h1 where r: "err_copy_loop f src n es h = (es1, h1)" by force
  obtain e h2 where c: "err_copy f (es1 ! n) (src n) h1 = (e, h2)" by force
  have e: "err_core e = err_core (src n)" "\<not> ee_mark e"
    using c by (auto simp: err_copy_def err_clear_def err_core_def err_zero_def Let_def split: if_splits prod.splits)
  have "es' = es1[n := e]" using Suc.prems(2) by (simp add: r c)
  with Suc.IH [OF _ r] Suc.prems(1) e show ?case by (auto simp: less_Suc_eq)
qed simp

lemma save_Some:
  assumes "world_ok w" and "world_queue w \<noteq> []"
  shows "\<exists>sv w1. ERR_save_state got True True f w = (Some sv, w1)"
proof -
  from assms(2) obtain s where s: "ew_tls w = Some s" by (auto simp: world_queue_def split: option.splits)
  with assms err_queue_empty [of s] have "es_top s \<noteq> es_bottom s" by (auto simp: world_queue_def world_ok_def)
  with s show ?thesis by (simp add: ERR_save_state_def err_get_state_def Let_def split: prod.split)
qed

text \<open>
  C11: the errors that \<open>ERR_save_state\<close> saved are the queue again after \<open>ERR_restore_state\<close>, in order, with
  their files, lines and codes, whatever happened to the queue in between; marks are not saved.
\<close>

theorem save_restore_roundtrip:
  assumes "world_ok w" and "ERR_save_state got got1 got2 f w = (Some sv, w1)" and "world_ok w2" and "has_state got' w2"
  shows "map err_core (world_queue (ERR_restore_state got' g (Some sv) w2)) = map err_core (world_queue w) \<and>
    (\<forall>e \<in> set (world_queue (ERR_restore_state got' g (Some sv) w2)). \<not> ee_mark e)"
proof -
  from assms(2) obtain s w0 where st: "err_get_state got w = (Some s, w0)" "es_top s \<noteq> es_bottom s"
    by (auto simp: ERR_save_state_def split: prod.splits option.splits if_splits)
  note s = get_state_Some [OF assms(1) st(1)]
  let ?src = "\<lambda>i. es_errors s ! ((es_bottom s + i + 1) mod ERR_NUM_ERRORS)"
  have n: "(if es_top s \<ge> es_bottom s then es_top s - es_bottom s else ERR_NUM_ERRORS + es_top s - es_bottom s) = err_count s"
    using ring_distance [of "es_bottom s" "es_top s"] err_okD [OF s(1)] by (simp add: err_count_def ERR_NUM_ERRORS_def add.commute)
  obtain h where c: "err_copy_loop f ?src (err_count s) (replicate (err_count s) err_zero) (ew_heap w0) = (ss_errors sv, h)"
    using assms(2) st by (auto simp: ERR_save_state_def n Let_def split: if_splits prod.splits)
  note v = copy_loop_core [OF _ c, simplified]
  have q: "err_core (ss_errors sv ! i) = err_core (world_queue w ! i)" if "i < err_count s" for i
    using v that by (simp add: s(2) [symmetric] err_queue_nth ERR_NUM_ERRORS_def)
  have count: "length (ss_errors sv) = err_count s" "err_count s < 16" "err_count s \<noteq> 0"
    using v err_count_less [of s] err_count_0_iff [OF s(1)] st(2) by simp_all
  obtain d w3 where d: "err_get_state got' w2 = (Some d, w3)"
    using assms(4) by (cases "ew_tls w2") (auto simp: has_state_def err_get_state_def Let_def)
  note dk = get_state_Some [OF assms(3) d]
  obtain es h' where c2: "err_copy_loop g (\<lambda>i. ss_errors sv ! i) (err_count s) (es_errors d) (ew_heap w3) = (es, h')" by force
  note u = copy_loop_core [OF _ c2, simplified err_okD [OF dk(1)]]
  define s' where "s' = d\<lparr>es_errors := es, es_top := err_count s - 1, es_bottom := ERR_NUM_ERRORS - 1\<rparr>"
  let ?w = "ERR_restore_state got' g (Some sv) w2"
  have w: "ew_tls ?w = Some s'" using count(1,3) by (simp add: ERR_restore_state_def d c2 s'_def)
  have ok: "err_ok s'" using u count err_okD [OF dk(1)] by (simp add: err_ok_def ERR_NUM_ERRORS_def s'_def)
  have top: "(15 + err_count s) mod 16 = err_count s - 1" using count(2,3) by (cases "err_count s") simp_all
  have k: "err_count s' = err_count s" by (rule err_countI [OF ok count(2)]) (simp add: ERR_NUM_ERRORS_def s'_def top)
  have nth: "err_queue s' ! i = es ! i" if "i < err_count s" for i
    using that count(2) k by (simp add: err_queue_nth) (simp add: ERR_NUM_ERRORS_def s'_def)
  have wq: "world_queue ?w = err_queue s'" using world_Some [OF w] by simp
  have eq: "map err_core (world_queue ?w) = map err_core (world_queue w)"
  proof (rule nth_equalityI)
    show len: "length (map err_core (world_queue ?w)) = length (map err_core (world_queue w))" by (simp add: wq k s(2) [symmetric])
    fix i
    assume "i < length (map err_core (world_queue ?w))"
    then have i: "i < err_count s" "i < length (world_queue w)" using len by (simp_all add: wq k)
    then show "map err_core (world_queue ?w) ! i = map err_core (world_queue w) ! i"
      using u count(2) q [OF i(1)] nth [OF i(1)] by (simp add: wq k)
  qed
  have "\<not> ee_mark e" if "e \<in> set (world_queue ?w)" for e
  proof -
    from that obtain i where "i < err_count s" "e = err_queue s' ! i" unfolding wq in_set_conv_nth using k by auto
    with u nth count show ?thesis by simp
  qed
  with eq show ?thesis by blast
qed

theorem save_restore_roundtrip_witness:
  "let w = foldl err_put \<lparr>ew_tls = None, ew_heap = \<lparr>cells = Map.empty, fault = False\<rparr>\<rparr> [(0, 3, 1, None, 10), (0, 3, 2, None, 20)];
       sv = fst (ERR_save_state True True True (\<lambda>h sz. None) w);
       w' = ERR_clear_error True w
   in world_queue w' = [] \<and> map err_core (world_queue (ERR_restore_state True (\<lambda>h sz. None) sv w')) = map err_core (world_queue w)"
proof -
  define w where "w = foldl err_put \<lparr>ew_tls = None, ew_heap = \<lparr>cells = Map.empty, fault = False\<rparr>\<rparr> [(0, 3, 1, None, 10), (0, 3, 2, None, 20)]"
  have s: "world_ok \<lparr>ew_tls = None, ew_heap = \<lparr>cells = Map.empty, fault = False\<rparr>\<rparr>"
    "world_queue \<lparr>ew_tls = None, ew_heap = \<lparr>cells = Map.empty, fault = False\<rparr>\<rparr> = []" by (simp_all add: world_ok_def world_queue_def)
  have ok: "world_ok w" unfolding w_def by (rule errq.put_all(1) [OF s(1)]) (simp add: s(2))
  have ne: "world_queue w \<noteq> []" using errq.put_all(2) [OF s(1), of "[(0, 3, 1, None, 10), (0, 3, 2, None, 20)]"] by (simp add: s(2) w_def)
  obtain sv w1 where r: "ERR_save_state True True True (\<lambda>h sz. None) w = (Some sv, w1)"
    using save_Some [OF ok ne, of True "\<lambda>h sz. None"] by blast
  have "world_ok (ERR_clear_error True w)" "world_queue (ERR_clear_error True w) = []" using clear_queue [OF ok] by simp_all
  with save_restore_roundtrip [OF ok r, of "ERR_clear_error True w" True "\<lambda>h sz. None"] r show ?thesis
    unfolding Let_def w_def [symmetric] by (simp add: has_state_def)
qed

end
