(* ===== verification/Err_Ownership.thy ===== *)
theory Err_Ownership imports Err begin

text \<open>
  Who owns the strings of the error queue. Every string hangs at one slot of the ring, at \<open>to_free\<close>, or at a saved state;
  the step relation \<open>err_step\<close> lets a thread call any function of err.c with any arguments, and \<open>err_reach\<close> are the worlds it
  can reach. The invariant, by rule induction: the blocks in the store are exactly the owned ones, each owned once, each
  holds a terminated string, and no block was freed twice or read after it was freed.
\<close>

section \<open>Owned strings\<close>

fun own_errs :: "err_error_st list \<Rightarrow> ptr multiset" where
  "own_errs [] = {#}"
| "own_errs (e # es) = own (ee_data e) + own_errs es"

definition own_state :: "ERR_STATE \<Rightarrow> ptr multiset" where
  "own_state s = own_errs (es_errors s) + own (es_to_free s)"

definition own_tls :: "ERR_STATE option \<Rightarrow> ptr multiset" where
  "own_tls t = (case t of None \<Rightarrow> {#} | Some s \<Rightarrow> own_state s)"

definition heap_strs :: "heap \<Rightarrow> ptr multiset \<Rightarrow> bool" where
  "heap_strs h M \<longleftrightarrow> heap_owns h M \<and> (\<forall>p \<in># M. str_at h p)"

lemma own_errs_replicate [simp]: "own_errs (replicate n err_zero) = {#}"
  by (induction n) (simp_all add: err_zero_def)

lemma own_errs_update: "i < length es \<Longrightarrow> own_errs (es[i := e]) + own (ee_data (es ! i)) = own_errs es + own (ee_data e)"
  by (induction es arbitrary: i) (auto simp: ac_simps split: nat.splits)

lemma own_errs_take_out: "i < length es \<Longrightarrow> ee_data e = NULL \<Longrightarrow> own_errs es = own (ee_data (es ! i)) + own_errs (es[i := e])"
  using own_errs_update [of i es e] by (simp add: ac_simps)

lemma own_errs_put_in: "i < length es \<Longrightarrow> own_errs (es[i := e]) = own (ee_data e) + own_errs (es[i := err_zero])"
  using own_errs_update [of i "es[i := err_zero]" e] by (simp add: ac_simps err_zero_def)

lemma own_errs_member: "i < length es \<Longrightarrow> own (ee_data (es ! i)) \<subseteq># own_errs es"
  using own_errs_take_out [of i es err_zero] by (simp add: err_zero_def)

lemma hfree_strs:
  assumes "heap_strs h (own p + M)"
  shows "heap_strs (hfree p h) M"
proof -
  have o: "heap_owns h (own p + M)" using assms by (simp add: heap_strs_def)
  have "str_at (hfree p h) q" if "q \<in># M" for q
  proof (cases "p = NULL")
    case False
    then have "q \<noteq> p" using heap_owns_own [OF o] that by blast
    then show ?thesis using assms that by (auto simp: heap_strs_def intro: hfree_str_at)
  qed (use assms that in \<open>simp add: heap_strs_def hfree_def\<close>)
  with hfree_owns [OF o] show ?thesis by (simp add: heap_strs_def)
qed

lemma strdup_strs:
  assumes "fresh_ok f" and "heap_strs h M" and "p \<in># M" and "p \<noteq> NULL" and "hstrdup f p h = (q, h')"
  shows "heap_strs h' (own q + M)" and "r \<in># M \<Longrightarrow> cells h' r = cells h r"
proof -
  have o: "heap_owns h M" "str_at h p" using assms(2,3) by (simp_all add: heap_strs_def)
  note d = hstrdup_owns [OF assms(1) o assms(4,5)]
  show c: "r \<in># M \<Longrightarrow> cells h' r = cells h r" for r using d(3) .
  have "str_at h' r" if "r \<in># own q + M" for r
    using that d(2) c [of r] assms(2) by (auto simp: own_def heap_strs_def str_at_def split: if_splits)
  with d(1) show "heap_strs h' (own q + M)" by (simp add: heap_strs_def)
qed

lemma clear_strs:
  "heap_strs h (own (ee_data e) + M) \<Longrightarrow> err_clear e h = (e', h') \<Longrightarrow> heap_strs h' M \<and> e' = err_zero"
  using hfree_strs by (auto simp: err_clear_def)

lemma clear_loop_strs:
  assumes "n \<le> length es" and "heap_strs h (own_errs es + M)" and "err_clear_loop n es h = (es', h')"
  shows "heap_strs h' (own_errs es' + M) \<and> es' = replicate n err_zero @ drop n es"
  using assms
proof (induction n arbitrary: es' h')
  case (Suc n)
  obtain es1 h1 where r: "err_clear_loop n es h = (es1, h1)" by force
  have ih: "heap_strs h1 (own_errs es1 + M)" "es1 = replicate n err_zero @ drop n es" using Suc.IH [OF _ Suc.prems(2) r] Suc.prems(1) by auto
  have n: "n < length es1" using ih(2) Suc.prems(1) by simp
  have e': "es' = es1[n := err_zero]" "h' = hfree (ee_data (es1 ! n)) h1" using Suc.prems(3) r by (auto simp: err_clear_def)
  have "heap_strs h' (own_errs es' + M)"
    unfolding e' using ih(1) own_errs_take_out [OF n, of err_zero] by (intro hfree_strs) (simp add: err_zero_def ac_simps)
  moreover have "es' = fst (err_clear_loop (Suc n) es h)" using Suc.prems(3) by simp
  ultimately show ?case using clear_loop_es [OF Suc.prems(1)] by simp
qed simp

lemma copy_strs:
  assumes "fresh_ok f" and "heap_strs h (own (ee_data dst) + M)" and "ee_data src \<noteq> NULL \<Longrightarrow> ee_data src \<in># M"
    and "err_copy f dst src h = (e, h')"
  shows "heap_strs h' (own (ee_data e) + M)" and "ee_file e = ee_file src" and "ee_packed e = ee_packed src" and "ee_line e = ee_line src"
    and "\<not> ee_mark e"
proof -
  have h: "heap_strs (hfree (ee_data dst) h) M" using assms(2) by (rule hfree_strs)
  have "heap_strs h' (own (ee_data e) + M) \<and> ee_file e = ee_file src \<and> ee_packed e = ee_packed src \<and> ee_line e = ee_line src \<and> \<not> ee_mark e"
  proof (cases "ee_data src = NULL")
    case True
    then show ?thesis using assms(4) h by (auto simp: err_copy_def err_clear_def err_zero_def)
  next
    case False
    obtain q h1 where d: "hstrdup f (ee_data src) (hfree (ee_data dst) h) = (q, h1)" by force
    from strdup_strs(1) [OF assms(1) h assms(3) [OF False] False d] assms(4) d False show ?thesis
      by (auto simp: err_copy_def err_clear_def err_zero_def)
  qed
  then show "heap_strs h' (own (ee_data e) + M)" and "ee_file e = ee_file src" and "ee_packed e = ee_packed src" and "ee_line e = ee_line src"
    and "\<not> ee_mark e" by simp_all
qed

lemma copy_loop_strs:
  assumes "fresh_ok f" and "n \<le> length es" and "heap_strs h (own_errs es + M)"
    and "\<And>i. i < n \<Longrightarrow> ee_data (src i) \<noteq> NULL \<Longrightarrow> ee_data (src i) \<in># M" and "err_copy_loop f src n es h = (es', h')"
  shows "heap_strs h' (own_errs es' + M) \<and> length es' = length es \<and>
    (\<forall>i < n. ee_file (es' ! i) = ee_file (src i) \<and> ee_packed (es' ! i) = ee_packed (src i) \<and> ee_line (es' ! i) = ee_line (src i) \<and> \<not> ee_mark (es' ! i)) \<and>
    (\<forall>i \<ge> n. es' ! i = es ! i)"
  using assms(2-)
proof (induction n arbitrary: es' h')
  case (Suc n)
  obtain es1 h1 where r: "err_copy_loop f src n es h = (es1, h1)" by force
  have "heap_strs h1 (own_errs es1 + M) \<and> length es1 = length es \<and>
      (\<forall>i < n. ee_file (es1 ! i) = ee_file (src i) \<and> ee_packed (es1 ! i) = ee_packed (src i) \<and> ee_line (es1 ! i) = ee_line (src i) \<and> \<not> ee_mark (es1 ! i)) \<and>
      (\<forall>i \<ge> n. es1 ! i = es ! i)"
    using Suc.IH [OF _ Suc.prems(2) _ r] Suc.prems(1,3) by simp
  note ih = this
  then have n: "n < length es1" using Suc.prems(1) by simp
  obtain e where e: "err_copy f (es1 ! n) (src n) h1 = (e, h')" "es' = es1[n := e]"
    using Suc.prems(4) r by (cases "err_copy f (es1 ! n) (src n) h1") auto
  let ?M = "own_errs (es1[n := err_zero]) + M"
  have "heap_strs h1 (own_errs es1 + M)" using ih by blast
  then have h: "heap_strs h1 (own (ee_data (es1 ! n)) + ?M)" using own_errs_take_out [OF n, of err_zero] by (simp add: err_zero_def ac_simps)
  have m: "ee_data (src n) \<noteq> NULL \<Longrightarrow> ee_data (src n) \<in># ?M" using Suc.prems(3) [of n] by simp
  note c = copy_strs [OF assms(1) h m e(1)]
  have "heap_strs h' (own_errs es' + M)" using c(1) own_errs_put_in [OF n, of e] e(2) by (simp add: ac_simps)
  with c(2-) e(2) ih n show ?case by (auto simp: nth_list_update less_Suc_eq)
qed simp

section \<open>The machine\<close>

text \<open>The world of a thread and the saved states it holds.\<close>

type_synonym machine = "err_world \<times> ERR_SAVE_STATE list"

definition own_saves :: "ERR_SAVE_STATE list \<Rightarrow> ptr multiset" where
  "own_saves ss = own_errs (concat (map ss_errors ss))"

definition err_inv :: "err_world \<Rightarrow> ptr multiset \<Rightarrow> bool" where
  "err_inv w F \<longleftrightarrow> world_ok w \<and> heap_strs (ew_heap w) (own_tls (ew_tls w) + F)"

lemma own_errs_append [simp]: "own_errs (xs @ ys) = own_errs xs + own_errs ys"
  by (induction xs) (simp_all add: ac_simps)

lemma get_state_inv:
  assumes "err_inv w F" and "err_get_state got w = (Some s, w1)"
  shows "err_ok s" and "heap_strs (ew_heap w1) (own_state s + F)" and "ew_tls w1 = Some s"
proof -
  have ok: "world_ok w" using assms(1) by (simp add: err_inv_def)
  note g = get_state_Some [OF ok assms(2)]
  have "own_tls (ew_tls w) = own_state s"
    using assms(2) by (auto simp: err_get_state_def own_tls_def own_state_def Let_def split: option.splits if_splits)
  with assms(1) g show "err_ok s" and "heap_strs (ew_heap w1) (own_state s + F)" and "ew_tls w1 = Some s" by (simp_all add: err_inv_def)
qed

lemma err_invI: "ew_tls w = Some s \<Longrightarrow> err_ok s \<Longrightarrow> heap_strs (ew_heap w) (own_state s + F) \<Longrightarrow> err_inv w F"
  by (simp add: err_inv_def world_Some own_tls_def)

lemma get_state_inv_same: "err_inv w F \<Longrightarrow> err_get_state got w = (st, w1) \<Longrightarrow> err_inv w1 F"
  using get_state_inv [of w F got _ w1] get_state_None [of got w w1] err_invI [of w1] by (cases st) auto

lemma put_inv:
  assumes "err_inv w F"
  shows "err_inv (ERR_put_error got errno_value library reason fname line w) F" (is "err_inv ?w F")
proof (cases "err_get_state got w")
  case (Pair st w1)
  show ?thesis
  proof (cases st)
    case None
    with Pair get_state_None [of got w w1] assms show ?thesis by (simp add: ERR_put_error_def)
  next
    case (Some s)
    note g = get_state_inv [OF assms Pair [unfolded Some]]
    let ?t = "(es_top s + 1) mod ERR_NUM_ERRORS" and ?e = "new_error errno_value library reason fname line"
    let ?s = "s\<lparr>es_errors := (es_errors s)[?t := ?e], es_top := ?t,
        es_bottom := if ?t = es_bottom s then (es_bottom s + 1) mod ERR_NUM_ERRORS else es_bottom s\<rparr>"
    have t: "?t < length (es_errors s)" using g(1) by (simp add: err_ok_def ERR_NUM_ERRORS_def)
    have w: "ew_tls ?w = Some ?s" "ew_heap ?w = hfree (ee_data (es_errors s ! ?t)) (ew_heap w1)"
      by (simp_all add: ERR_put_error_def Pair Some Let_def err_clear_def err_zero_def new_error_def)
    have "own_errs (es_errors s) = own (ee_data (es_errors s ! ?t)) + own_errs ((es_errors s)[?t := ?e])"
      by (rule own_errs_take_out [OF t]) (simp add: new_error_def)
    then have "heap_strs (ew_heap ?w) (own_state ?s + F)" unfolding w(2)
      using g(2) by (intro hfree_strs) (simp add: own_state_def ac_simps)
    with w(1) err_queue_put(1) [OF g(1), of ?e] show ?thesis by (intro err_invI) simp_all
  qed
qed

lemma get_inv:
  assumes "err_inv w F" and "get_error_values got inc newest wfile wdata w = (v, w')" and "\<not> (inc \<and> newest)"
  shows "err_inv w' F"
proof (cases "err_get_state got w")
  case (Pair st w1)
  note w1 = get_state_inv_same [OF assms(1) Pair]
  show ?thesis
  proof (cases st)
    case None
    with Pair w1 assms(2) show ?thesis by (simp add: get_error_values_def)
  next
    case (Some s)
    note g = get_state_inv [OF assms(1) Pair [unfolded Some]]
    show ?thesis
    proof (cases "es_bottom s = es_top s \<or> \<not> inc")
      case True
      then have "w' = w1" using assms(2) Pair Some by (auto simp: get_error_values_def Let_def split: if_splits)
      with w1 show ?thesis by simp
    next
      case False
      let ?i = "(es_bottom s + 1) mod ERR_NUM_ERRORS"
      let ?e = "es_errors s ! ?i" and ?es = "(es_errors s)[?i := err_zero]"
      have i: "?i < length (es_errors s)" using g(1) by (simp add: err_ok_def ERR_NUM_ERRORS_def)
      have o: "own_errs (es_errors s) = own (ee_data ?e) + own_errs ?es" by (rule own_errs_take_out [OF i]) (simp add: err_zero_def)
      show ?thesis
      proof (cases "wdata \<and> ee_data ?e \<noteq> NULL")
        case True
        let ?s = "s\<lparr>es_errors := ?es, es_bottom := ?i, es_to_free := ee_data ?e\<rparr>"
        have w': "ew_heap w' = hfree (es_to_free s) (ew_heap w1)" "\<exists>s'. ew_tls w' = Some s' \<and> same_ring ?s s' \<and> own_state s' = own_state ?s"
          using assms(2,3) Pair Some True False
          by (auto simp: get_error_values_def Let_def err_clear_def hfree_def same_ring_def own_state_def split: if_splits)
        then obtain s' where s': "ew_tls w' = Some s'" "same_ring ?s s'" "own_state s' = own_state ?s" by blast
        have "heap_strs (ew_heap w') (own_state ?s + F)" unfolding w'(1)
          using g(2) o by (intro hfree_strs) (simp add: own_state_def ac_simps)
        moreover have "err_ok ?s" using err_queue_drop_first(1) [OF g(1), of err_zero] False by (simp add: err_ok_def)
        ultimately show ?thesis using s' same_ring [OF s'(2)] by (intro err_invI [OF s'(1)]) simp_all
      next
        case nd: False
        let ?s = "s\<lparr>es_errors := ?es, es_bottom := ?i\<rparr>"
        have w': "ew_heap w' = hfree (ee_data ?e) (ew_heap w1)" "ew_tls w' = Some ?s"
          using assms(2,3) Pair Some nd False
          by (auto simp: get_error_values_def Let_def err_clear_def split: if_splits)
        have "heap_strs (ew_heap w') (own_state ?s + F)" unfolding w'(1)
          using g(2) o by (intro hfree_strs) (simp add: own_state_def ac_simps)
        moreover have "err_ok ?s" using err_queue_drop_first(1) [OF g(1), of err_zero] False by simp
        ultimately show ?thesis by (intro err_invI [OF w'(2)])
      qed
    qed
  qed
qed

lemma clear_inv:
  assumes "err_inv w F"
  shows "err_inv (ERR_clear_error got w) F" (is "err_inv ?w F")
proof (cases "err_get_state got w")
  case (Pair st w1)
  show ?thesis
  proof (cases st)
    case None
    with Pair get_state_None [of got w w1] assms show ?thesis by (simp add: ERR_clear_error_def)
  next
    case (Some s)
    note g = get_state_inv [OF assms Pair [unfolded Some]]
    obtain es h where l: "err_clear_loop ERR_NUM_ERRORS (es_errors s) (ew_heap w1) = (es, h)" by force
    have n: "ERR_NUM_ERRORS \<le> length (es_errors s)" using g(1) by (simp add: err_ok_def)
    have "heap_strs (ew_heap w1) (own_errs (es_errors s) + (own (es_to_free s) + F))" using g(2) by (simp add: own_state_def ac_simps)
    from clear_loop_strs [OF n this l] have h: "heap_strs h (own (es_to_free s) + F)" and es: "es = replicate ERR_NUM_ERRORS err_zero"
      using g(1) by (auto simp: err_ok_def)
    let ?s = "s\<lparr>es_errors := es, es_to_free := NULL, es_top := 0, es_bottom := 0\<rparr>"
    have w: "ew_tls ?w = Some ?s" "ew_heap ?w = hfree (es_to_free s) h" by (simp_all add: ERR_clear_error_def Pair Some l)
    have "heap_strs (ew_heap ?w) (own_state ?s + F)" using hfree_strs [OF h] by (simp add: w(2) own_state_def es)
    moreover have "err_ok ?s" by (simp add: err_ok_def es ERR_NUM_ERRORS_def)
    ultimately show ?thesis by (intro err_invI [OF w(1)])
  qed
qed

lemma set_data_inv:
  assumes "err_inv w (own p + F)"
  shows "err_inv (err_set_error_data got p w) F" (is "err_inv ?w F")
proof (cases "err_get_state got w")
  case (Pair st w1)
  note w1 = get_state_inv_same [OF assms Pair]
  have drop: "err_inv (w1\<lparr>ew_heap := hfree p (ew_heap w1)\<rparr>) F"
    using w1 hfree_strs [of "ew_heap w1" p "own_tls (ew_tls w1) + F"] by (simp add: err_inv_def world_ok_def ac_simps)
  show ?thesis
  proof (cases st)
    case None
    with Pair drop show ?thesis by (simp add: err_set_error_data_def)
  next
    case (Some s)
    note g = get_state_inv [OF assms Pair [unfolded Some]]
    show ?thesis
    proof (cases "es_bottom s = es_top s")
      case True
      with Pair Some drop show ?thesis by (simp add: err_set_error_data_def)
    next
      case False
      let ?e = "es_errors s ! es_top s"
      let ?s = "s\<lparr>es_errors := (es_errors s)[es_top s := ?e\<lparr>ee_data := p\<rparr>]\<rparr>"
      have t: "es_top s < length (es_errors s)" using g(1) by (simp add: err_ok_def)
      have w: "ew_tls ?w = Some ?s" "ew_heap ?w = hfree (ee_data ?e) (ew_heap w1)"
        using Pair Some False by (simp_all add: err_set_error_data_def Let_def)
      have "own_errs (es_errors s) + own p = own (ee_data ?e) + own_errs (es_errors ?s)"
        using own_errs_update [OF t, of "?e\<lparr>ee_data := p\<rparr>"] by (simp add: ac_simps)
      then have "own_state s + (own p + F) = own (ee_data ?e) + (own_state ?s + F)" by (simp add: own_state_def ac_simps)
      with g(2) have "heap_strs (ew_heap ?w) (own_state ?s + F)" unfolding w(2) by (intro hfree_strs) simp
      with err_queue_update_last(1) [OF g(1) False, of "?e\<lparr>ee_data := p\<rparr>"] show ?thesis by (intro err_invI [OF w(1)])
    qed
  qed
qed

lemma strlen_iff: "strlen s \<noteq> None \<longleftrightarrow> 0 \<in> set s"
  by (induction s) auto

text \<open>A buffer under construction: a block of the given size that is not yet a string, and its first bytes.\<close>

definition heap_buf :: "heap \<Rightarrow> ptr \<Rightarrow> nat \<Rightarrow> u8 list \<Rightarrow> ptr multiset \<Rightarrow> bool" where
  "heap_buf h buf sz xs M \<longleftrightarrow> heap_owns h (own buf + M) \<and> (\<forall>p \<in># M. str_at h p) \<and> buf \<noteq> NULL \<and>
    (\<exists>b. cells h buf = Some b \<and> length b = sz \<and> length xs \<le> sz \<and> take (length xs) b = xs)"

lemma halloc_buf:
  assumes "fresh_ok f" and "heap_strs h M" and "halloc f sz h = (p, h')"
  shows "if p = NULL then heap_strs h' M else heap_buf h' p sz [] M"
proof -
  have o: "heap_owns h M" using assms(2) by (simp add: heap_strs_def)
  note a = halloc_owns [OF assms(1) o assms(3)]
  have s: "str_at h' q" if "q \<in># M" for q
  proof -
    have "cells h' q = cells h q" using a(3,4) that by metis
    with that assms(2) show ?thesis by (simp add: heap_strs_def str_at_def)
  qed
  show ?thesis using a(1,2) s by (auto simp: heap_buf_def heap_strs_def)
qed

lemma hfree_buf: "heap_buf h buf sz xs M \<Longrightarrow> heap_strs (hfree buf h) M"
proof -
  assume b: "heap_buf h buf sz xs M"
  then have o: "heap_owns h (own buf + M)" "buf \<noteq> NULL" by (simp_all add: heap_buf_def)
  have "str_at (hfree buf h) q" if "q \<in># M" for q
    using b heap_owns_own [OF o] that by (auto simp: heap_buf_def intro!: hfree_str_at)
  with hfree_owns [OF o(1)] show ?thesis by (simp add: heap_strs_def)
qed

lemma hwrite_buf:
  assumes "heap_buf h buf sz xs M" and "length xs + length ys \<le> sz"
  shows "heap_buf (hwrite buf (length xs) ys h) buf sz (xs @ ys) M"
proof -
  from assms(1) obtain b where b: "cells h buf = Some b" "length b = sz" "take (length xs) b = xs" and o: "heap_owns h (own buf + M)" "buf \<noteq> NULL"
    by (auto simp: heap_buf_def)
  note w = hwrite_owns [OF o(1) b(1), of "length xs" ys]
  have s: "str_at (hwrite buf (length xs) ys h) q" if "q \<in># M" for q
    using assms that heap_owns_own [OF o] w(2) b(2) by (auto simp: heap_buf_def str_at_def)
  have "take (length (xs @ ys)) (store_at (length xs) ys b) = xs @ ys" using assms(2) b(2,3) by (simp add: store_at_def)
  with assms w b(2) o(2) s show ?thesis by (auto simp: heap_buf_def)
qed

lemma hrealloc_buf:
  assumes "fresh_ok f" and "heap_buf h buf sz xs M" and "sz \<le> n" and "hrealloc f buf n h = (q, h')"
  shows "if q = NULL then heap_buf h' buf sz xs M else heap_buf h' q n xs M"
proof -
  from assms(2) obtain b where b: "cells h buf = Some b" "length b = sz" "take (length xs) b = xs" "length xs \<le> sz"
    and o: "heap_owns h (own buf + M)" "buf \<noteq> NULL" by (auto simp: heap_buf_def)
  obtain q0 h1 where a: "halloc f n h = (q0, h1)" by force
  note l = halloc_owns [OF assms(1) o(1) a]
  show ?thesis
  proof (cases "q0 = NULL")
    case True
    moreover from this have "q = NULL" "h' = h1" using assms(4) a o(2) by (auto simp: hrealloc_def)
    moreover have "h1 = h" using True assms(1) a by (auto simp: halloc_def fresh_ok_def split: option.splits)
    ultimately show ?thesis using assms(2) by simp
  next
    case False
    then have q: "q = q0" "h' = hfree buf (hwrite q 0 (take n b) h1)" using assms(4) a o(2) b(1) by (auto simp: hrealloc_def)
    obtain b1 where b1: "cells h1 q = Some b1" "length b1 = n" using l(2) False q(1) by auto
    have tk: "take n b = b" using assms(3) b(2) by simp
    have h1: "heap_owns h1 (own q + (own buf + M))" using l(1) q(1) by simp
    note w = hwrite_owns [OF h1 b1(1), of 0 b]
    have "heap_owns (hwrite q 0 b h1) (own buf + (own q + M))" using w(1) b(2) b1(2) assms(3) by (simp add: ac_simps)
    from hfree_owns [OF this] have o2: "heap_owns h' (own q + M)" using q(2) tk by simp
    have ne: "q \<noteq> buf" "q \<notin># M" using l(2,4) False q(1) b(1) by auto
    have c: "cells h' q = Some (store_at 0 b b1)" "r \<noteq> q \<Longrightarrow> r \<noteq> buf \<Longrightarrow> cells h' r = cells h r" for r
      using w(2) b(2) b1(2) assms(3) ne q tk l(3) [of r] by (auto simp: hfree_def)
    have s: "str_at h' r" if "r \<in># M" for r
    proof -
      have "cells h' r = cells h r" using c(2) that ne(2) heap_owns_own [OF o] by metis
      with that assms(2) show ?thesis by (simp add: heap_buf_def str_at_def)
    qed
    have "take (length xs) (store_at 0 b b1) = xs" "length (store_at 0 b b1) = n"
      using b b1(2) assms(3) by (simp_all add: store_at_def)
    with o2 s c(1) False q(1) b(4) assms(3) show ?thesis by (auto simp: heap_buf_def)
  qed
qed

lemma size_add_less: "a + b < SIZE_BOUND \<Longrightarrow> size_add a b = a + b"
  by (rule size_add_id)

definition arg_bytes :: "u8 list option list \<Rightarrow> u8 list" where
  "arg_bytes args = concat (map (case_option [] id) args)"

lemma add_vdata_loop_buf:
  assumes "fresh_ok f" and "heap_buf h buf (alloced + 1) xs M" and "length xs \<le> alloced"
    and "alloced + 21 < SIZE_BOUND" and "length xs + length (arg_bytes args) + 41 < SIZE_BOUND"
    and "add_vdata_loop f buf alloced (length xs) args h = (r, h')"
  shows "case r of None \<Rightarrow> heap_strs h' M
    | Some (buf', len) \<Rightarrow> len = length (xs @ arg_bytes args) \<and> (\<exists>a. len \<le> a \<and> heap_buf h' buf' (a + 1) (xs @ arg_bytes args) M)"
  using assms(2-)
proof (induction args arbitrary: buf alloced xs h)
  case Nil
  then show ?case by (auto simp: arg_bytes_def)
next
  case (Cons arg args)
  show ?case
  proof (cases arg)
    case None
    then have ab: "arg_bytes (arg # args) = arg_bytes args" by (simp add: arg_bytes_def)
    have l: "length xs + length (arg_bytes args) + 41 < SIZE_BOUND" using Cons.prems(4) unfolding ab .
    have r: "add_vdata_loop f buf alloced (length xs) args h = (r, h')" using Cons.prems(5) by (simp add: None)
    show ?thesis unfolding ab by (rule Cons.IH [OF Cons.prems(1-3) l r])
  next
    case (Some substr)
    have ab: "arg_bytes (arg # args) = substr @ arg_bytes args" by (simp add: arg_bytes_def Some)
    have nl: "size_add (length xs) (length substr) = length (xs @ substr)"
      using Cons.prems(4) by (simp add: ab size_add_id)
    have len: "length (xs @ substr) + length (arg_bytes args) + 41 < SIZE_BOUND" using Cons.prems(4) by (simp add: ab)
    show ?thesis
    proof (cases "alloced < length (xs @ substr)")
      case False
      have "heap_buf (hwrite buf (length xs) substr h) buf (alloced + 1) (xs @ substr) M"
        using Cons.prems(1) False by (intro hwrite_buf) simp_all
      from Cons.IH [OF this _ Cons.prems(3) len] Cons.prems(5) False nl show ?thesis unfolding ab append_assoc [symmetric] by (simp add: Some Let_def)
    next
      case True
      let ?a = "length (xs @ substr) + 20"
      have sz: "size_add (size_add alloced 20) 1 = alloced + 21" "size_add (length (xs @ substr)) 20 = ?a" "size_add ?a 1 = ?a + 1"
        using Cons.prems(3) len by (simp_all add: size_add_id)
      obtain q h1 where re: "hrealloc f buf (?a + 1) h = (q, h1)" by force
      note b = hrealloc_buf [OF assms(1) Cons.prems(1) _ re]
      show ?thesis
      proof (cases "q = NULL")
        case qn: True
        with b True have "heap_buf h1 buf (alloced + 1) xs M" by simp
        from hfree_buf [OF this] Cons.prems(5) True qn re nl sz show ?thesis by (simp add: Some Let_def)
      next
        case qn: False
        with b True have "heap_buf h1 q (?a + 1) xs M" by simp
        then have "heap_buf (hwrite q (length xs) substr h1) q (?a + 1) (xs @ substr) M" by (intro hwrite_buf) simp_all
        from Cons.IH [OF this _ _ len] Cons.prems(5) True qn re nl sz len show ?thesis unfolding ab append_assoc [symmetric] by (simp add: Some Let_def)
      qed
    qed
  qed
qed

lemma hwrite_zero_strs:
  assumes "heap_buf h buf sz xs M" and "length xs < sz"
  shows "heap_strs (hwrite buf (length xs) [0] h) (own buf + M)"
proof -
  have b: "heap_buf (hwrite buf (length xs) [0] h) buf sz (xs @ [0]) M" using assms by (intro hwrite_buf) simp_all
  then obtain blk where blk: "cells (hwrite buf (length xs) [0] h) buf = Some blk" "take (length (xs @ [0])) blk = xs @ [0]"
    by (auto simp: heap_buf_def)
  have "0 \<in> set blk" using blk(2) by (metis in_set_conv_decomp in_set_takeD)
  then have "str_at (hwrite buf (length xs) [0] h) buf" using blk(1) strlen_iff [of blk] by (simp add: str_at_def)
  with b show ?thesis by (auto simp: heap_strs_def heap_buf_def own_def split: if_splits)
qed

lemma add_data_inv:
  assumes "fresh_ok f" and "err_inv w F" and "length (arg_bytes args) + 101 < SIZE_BOUND"
  shows "err_inv (ERR_add_error_data got f args w) F"
proof -
  have h: "heap_strs (ew_heap w) (own_tls (ew_tls w) + F)" and ok: "world_ok w" using assms(2) by (simp_all add: err_inv_def)
  have upd: "err_inv (w\<lparr>ew_heap := h\<rparr>) G \<longleftrightarrow> heap_strs h (own_tls (ew_tls w) + G)" for h G
    using ok by (simp add: err_inv_def world_ok_def)
  obtain buf h1 where a: "halloc f (80 + 1) (ew_heap w) = (buf, h1)" by force
  note b = halloc_buf [OF assms(1) h a]
  show ?thesis
  proof (cases "buf = NULL")
    case True
    with b a upd show ?thesis by (simp add: ERR_add_error_data_def err_add_error_vdata_def)
  next
    case False
    with b have bb: "heap_buf h1 buf (80 + 1) [] (own_tls (ew_tls w) + F)" by simp
    obtain r h2 where l: "add_vdata_loop f buf 80 (length ([] :: u8 list)) args h1 = (r, h2)" by force
    have sz: "80 + 21 < SIZE_BOUND" by (simp add: SIZE_BOUND_def)
    note c = add_vdata_loop_buf [OF assms(1) bb _ sz _ l]
    show ?thesis
    proof (cases r)
      case None
      with c assms(3) a False l upd show ?thesis by (simp add: ERR_add_error_data_def err_add_error_vdata_def)
    next
      case (Some p)
      obtain buf' len where p: "p = (buf', len)" by (cases p)
      with c Some assms(3) obtain k where k: "len = length (arg_bytes args)" "len \<le> k"
        "heap_buf h2 buf' (k + 1) (arg_bytes args) (own_tls (ew_tls w) + F)" by auto
      have "heap_strs (hwrite buf' len [0] h2) (own buf' + (own_tls (ew_tls w) + F))"
        using hwrite_zero_strs [OF k(3)] k(1,2) by simp
      then have "err_inv (w\<lparr>ew_heap := hwrite buf' len [0] h2\<rparr>) (own buf' + F)" unfolding upd by (simp add: ac_simps)
      from set_data_inv [OF this, of got] a False l Some p show ?thesis by (simp add: ERR_add_error_data_def err_add_error_vdata_def)
    qed
  qed
qed

lemma add_dataf_inv:
  assumes "fresh_ok f" and "err_inv w F"
  shows "err_inv (ERR_add_error_dataf got f formatted w) F"
proof -
  have h: "heap_strs (ew_heap w) (own_tls (ew_tls w) + F)" and ok: "world_ok w" using assms(2) by (simp_all add: err_inv_def)
  have upd: "err_inv (w\<lparr>ew_heap := h\<rparr>) G \<longleftrightarrow> heap_strs h (own_tls (ew_tls w) + G)" for h G
    using ok by (simp add: err_inv_def world_ok_def)
  obtain buf h1 where a: "halloc f (256 + 1) (ew_heap w) = (buf, h1)" by force
  note b = halloc_buf [OF assms(1) h a]
  show ?thesis
  proof (cases "buf = NULL")
    case True
    with b a upd show ?thesis by (simp add: ERR_add_error_dataf_def)
  next
    case False
    let ?M = "own_tls (ew_tls w) + F" and ?t = "take 255 formatted"
    let ?h2 = "hwrite buf 0 (?t @ [0]) h1"
    from b False have "heap_buf h1 buf 257 [] ?M" by simp
    from hwrite_buf [OF this, of "?t @ [0]"] have b2: "heap_buf ?h2 buf 257 (?t @ [0]) ?M" by simp
    then obtain blk where blk: "cells ?h2 buf = Some blk" "length blk = 257" and o: "heap_owns ?h2 (own buf + ?M)"
      by (auto simp: heap_buf_def)
    have "heap_buf ?h2 buf 257 (take 256 blk) ?M" using b2 blk by (simp add: heap_buf_def)
    from hwrite_zero_strs [OF this] blk(2) have "heap_strs (hwrite buf 256 [0] ?h2) (own buf + ?M)" by simp
    then have "err_inv (w\<lparr>ew_heap := hwrite buf 256 [0] ?h2\<rparr>) (own buf + F)" unfolding upd by (simp add: ac_simps)
    from set_data_inv [OF this, of got] a False show ?thesis by (simp add: ERR_add_error_dataf_def)
  qed
qed

lemma mark_inv:
  assumes "err_inv w F" and "ERR_set_mark got w = (r, w')"
  shows "err_inv w' F"
proof (cases "err_get_state got w")
  case (Pair st w1)
  note w1 = get_state_inv_same [OF assms(1) Pair]
  show ?thesis
  proof (cases st)
    case None
    with Pair assms(2) w1 show ?thesis by (simp add: ERR_set_mark_def)
  next
    case (Some s)
    note g = get_state_inv [OF assms(1) Pair [unfolded Some]]
    show ?thesis
    proof (cases "es_bottom s = es_top s")
      case True
      with Pair Some assms(2) w1 show ?thesis by (simp add: ERR_set_mark_def)
    next
      case False
      let ?e = "(es_errors s ! es_top s)\<lparr>ee_mark := True\<rparr>"
      let ?s = "s\<lparr>es_errors := (es_errors s)[es_top s := ?e]\<rparr>"
      have w': "ew_tls w' = Some ?s" "ew_heap w' = ew_heap w1" using assms(2) Pair Some False by (auto simp: ERR_set_mark_def)
      have t: "es_top s < length (es_errors s)" using g(1) by (simp add: err_ok_def)
      have "own_errs (es_errors ?s) = own_errs (es_errors s)" using own_errs_update [OF t, of ?e] by simp
      then have "own_state ?s = own_state s" by (simp add: own_state_def)
      with g(2) w'(2) err_queue_update_last(1) [OF g(1) False, of ?e] show ?thesis by (intro err_invI [OF w'(1)]) simp_all
    qed
  qed
qed

lemma pop_loop_inv:
  assumes "err_ok s" and "heap_strs h (own_state s + F)" and "pop_loop s h = (r, s', h')"
  shows "heap_strs h' (own_state s' + F)"
  using assms
proof (induction s h rule: pop_loop.induct)
  case (1 s h)
  have bounds: "es_bottom s < ERR_NUM_ERRORS" "es_top s < ERR_NUM_ERRORS" "es_top s < length (es_errors s)"
    using "1.prems"(1) by (simp_all add: err_ok_def)
  let ?e = "es_errors s ! es_top s"
  consider "es_bottom s = es_top s" | "es_bottom s \<noteq> es_top s" "ee_mark ?e" | "es_bottom s \<noteq> es_top s" "\<not> ee_mark ?e" by blast
  then show ?case
  proof cases
    case 1
    with "1.prems" show ?thesis by (simp add: pop_loop.simps [of s])
  next
    case 2
    then have s': "s' = s\<lparr>es_errors := (es_errors s)[es_top s := ?e\<lparr>ee_mark := False\<rparr>]\<rparr>" "h' = h"
      using "1.prems"(3) bounds by (simp_all add: pop_loop.simps [of s] Let_def)
    have "own_state s' = own_state s"
      using own_errs_update [OF bounds(3), of "?e\<lparr>ee_mark := False\<rparr>"] by (simp add: s'(1) own_state_def)
    with "1.prems"(2) s'(2) show ?thesis by simp
  next
    case 3
    let ?s = "s\<lparr>es_errors := (es_errors s)[es_top s := err_zero], es_top := if es_top s = 0 then ERR_NUM_ERRORS - 1 else es_top s - 1\<rparr>"
    have cl: "err_clear ?e h = (err_zero, hfree (ee_data ?e) h)" by (simp add: err_clear_def)
    have "own_state s + F = own (ee_data ?e) + (own_state ?s + F)"
      using own_errs_take_out [OF bounds(3), of err_zero] by (simp add: own_state_def err_zero_def ac_simps)
    with "1.prems"(2) have h: "heap_strs (hfree (ee_data ?e) h) (own_state ?s + F)" by (intro hfree_strs) simp
    have "pop_loop ?s (hfree (ee_data ?e) h) = (r, s', h')"
      using "1.prems"(3) 3 bounds by (simp add: pop_loop.simps [of s] Let_def cl)
    from "1.IH" [OF _ refl 3(2) cl [symmetric] err_queue_drop_last(1) [OF "1.prems"(1) 3(1)] h this] 3(1) bounds show ?thesis by simp
  qed
qed

lemma pop_inv:
  assumes "err_inv w F" and "ERR_pop_to_mark got w = (r, w')"
  shows "err_inv w' F"
proof (cases "err_get_state got w")
  case (Pair st w1)
  show ?thesis
  proof (cases st)
    case None
    with Pair assms(2) get_state_inv_same [OF assms(1) Pair] show ?thesis by (simp add: ERR_pop_to_mark_def)
  next
    case (Some s)
    note g = get_state_inv [OF assms(1) Pair [unfolded Some]]
    obtain r' s' h' where p: "pop_loop s (ew_heap w1) = (r', s', h')" by (cases "pop_loop s (ew_heap w1)") auto
    have w': "ew_tls w' = Some s'" "ew_heap w' = h'" using assms(2) by (auto simp: ERR_pop_to_mark_def Pair Some p)
    show ?thesis using pop_loop_queue [OF g(1) p] pop_loop_inv [OF g(1,2) p] w'(2) by (intro err_invI [OF w'(1)]) simp_all
  qed
qed

lemma own_member: "own p \<subseteq># M \<Longrightarrow> p \<noteq> NULL \<Longrightarrow> p \<in># M"
  by (simp add: own_def)

lemma save_inv:
  assumes "fresh_ok f" and "err_inv w F" and "ERR_save_state got got1 got2 f w = (r, w')"
  shows "err_inv w' (own_saves (case r of None \<Rightarrow> [] | Some s \<Rightarrow> [s]) + F)"
    and "r = Some sv \<Longrightarrow> length (ss_errors sv) < ERR_NUM_ERRORS"
proof -
  have "err_inv w' (own_saves (case r of None \<Rightarrow> [] | Some s \<Rightarrow> [s]) + F) \<and> (r = Some sv \<longrightarrow> length (ss_errors sv) < ERR_NUM_ERRORS)"
  proof (cases "err_get_state got w")
    case (Pair st w1)
    note w1 = get_state_inv_same [OF assms(2) Pair]
    show ?thesis
    proof (cases "st = None \<or> (\<exists>s. st = Some s \<and> es_top s = es_bottom s) \<or> \<not> got1 \<or> \<not> got2")
      case True
      then have "r = None" "w' = w1" using Pair assms(3) by (auto simp: ERR_save_state_def Let_def split: option.splits if_splits)
      with w1 show ?thesis by (simp add: own_saves_def)
    next
      case False
      then obtain s where s: "st = Some s" "es_top s \<noteq> es_bottom s" by auto
      note g = get_state_inv [OF assms(2) Pair [unfolded s(1)]]
      let ?n = "if es_top s \<ge> es_bottom s then es_top s - es_bottom s else ERR_NUM_ERRORS + es_top s - es_bottom s"
      let ?src = "\<lambda>i. es_errors s ! ((es_bottom s + i + 1) mod ERR_NUM_ERRORS)"
      obtain es h where c: "err_copy_loop f ?src ?n (replicate ?n err_zero) (ew_heap w1) = (es, h)" by force
      have r: "r = Some \<lparr>ss_errors = es\<rparr>" "w' = w1\<lparr>ew_heap := h\<rparr>" using False Pair assms(3) s c by (auto simp: ERR_save_state_def Let_def)
      have h0: "heap_strs (ew_heap w1) (own_errs (replicate ?n err_zero) + (own_state s + F))" using g(2) by simp
      have m: "ee_data (?src i) \<in># own_state s + F" if "ee_data (?src i) \<noteq> NULL" for i
      proof -
        have "(es_bottom s + i + 1) mod ERR_NUM_ERRORS < length (es_errors s)" using g(1) by (simp add: err_ok_def ERR_NUM_ERRORS_def)
        from own_member [OF own_errs_member [OF this] that] show ?thesis by (simp add: own_state_def)
      qed
      note l = copy_loop_strs [OF assms(1) _ h0 m c]
      then have len: "length es = ?n" by simp
      have n: "?n < ERR_NUM_ERRORS" using g(1) s(2) by (auto simp: err_ok_def ERR_NUM_ERRORS_def)
      from l have "heap_strs h (own_errs es + (own_state s + F))" by simp
      then have "err_inv w' (own_errs es + F)" using g by (intro err_invI) (simp_all add: r(2) ac_simps)
      moreover have "length es < ERR_NUM_ERRORS" using n unfolding len .
      ultimately show ?thesis using r(1) by (auto simp: own_saves_def)
    qed
  qed
  then show "err_inv w' (own_saves (case r of None \<Rightarrow> [] | Some s \<Rightarrow> [s]) + F)"
    and "r = Some sv \<Longrightarrow> length (ss_errors sv) < ERR_NUM_ERRORS" by simp_all
qed

lemma restore_inv:
  assumes "fresh_ok f" and "err_inv w (own_errs (ss_errors sv) + F)" and "length (ss_errors sv) < ERR_NUM_ERRORS"
  shows "err_inv (ERR_restore_state got f (Some sv) w) (own_errs (ss_errors sv) + F)" (is "err_inv ?w ?F")
proof (cases "ss_errors sv = []")
  case True
  then show ?thesis using clear_inv [OF assms(2), of got] by (simp add: ERR_restore_state_def)
next
  case False
  show ?thesis
  proof (cases "err_get_state got w")
    case (Pair st w1)
    show ?thesis
    proof (cases st)
      case None
      with Pair get_state_inv_same [OF assms(2) Pair] False show ?thesis by (simp add: ERR_restore_state_def)
    next
      case (Some s)
      note g = get_state_inv [OF assms(2) Pair [unfolded Some]]
      let ?n = "length (ss_errors sv)"
      obtain es h where c: "err_copy_loop f (\<lambda>i. ss_errors sv ! i) ?n (es_errors s) (ew_heap w1) = (es, h)" by force
      let ?s = "s\<lparr>es_errors := es, es_top := ?n - 1, es_bottom := ERR_NUM_ERRORS - 1\<rparr>"
      have w: "ew_tls ?w = Some ?s" "ew_heap ?w = h" using Pair Some c False by (simp_all add: ERR_restore_state_def)
      have h0: "heap_strs (ew_heap w1) (own_errs (es_errors s) + (own (es_to_free s) + ?F))" using g(2) by (simp add: own_state_def ac_simps)
      have n: "?n \<le> length (es_errors s)" using g(1) assms(3) by (simp add: err_ok_def)
      have m: "ee_data (ss_errors sv ! i) \<in># own (es_to_free s) + ?F" if "i < ?n" "ee_data (ss_errors sv ! i) \<noteq> NULL" for i
        using own_member [OF own_errs_member [OF that(1)] that(2)] by simp
      note l = copy_loop_strs [OF assms(1) n h0 m c]
      then have "heap_strs h (own_errs es + (own (es_to_free s) + ?F))" "length es = length (es_errors s)" by simp_all
      moreover have "err_ok ?s" using g(1) assms(3) False \<open>length es = length (es_errors s)\<close> by (auto simp: err_ok_def ERR_NUM_ERRORS_def)
      ultimately show ?thesis using w(2) by (intro err_invI [OF w(1)]) (simp_all add: own_state_def ac_simps)
    qed
  qed
qed

lemma save_free_inv:
  assumes "err_inv w (own_errs (ss_errors sv) + F)"
  shows "err_inv (w\<lparr>ew_heap := ERR_SAVE_STATE_free (Some sv) (ew_heap w)\<rparr>) F"
proof -
  obtain es h where l: "err_clear_loop (length (ss_errors sv)) (ss_errors sv) (ew_heap w) = (es, h)" by force
  have "heap_strs (ew_heap w) (own_errs (ss_errors sv) + (own_tls (ew_tls w) + F))" using assms by (simp add: err_inv_def ac_simps)
  from clear_loop_strs [OF _ this l] have "heap_strs h (own_tls (ew_tls w) + F)" by auto
  with assms l show ?thesis by (simp add: err_inv_def world_ok_def ERR_SAVE_STATE_free_def)
qed

lemma exit_inv:
  assumes "err_inv w F"
  shows "err_inv (w\<lparr>ew_tls := None, ew_heap := err_state_free (ew_tls w) (ew_heap w)\<rparr>) F"
proof (cases "ew_tls w")
  case (Some s)
  have ok: "err_ok s" and h: "heap_strs (ew_heap w) (own_errs (es_errors s) + (own (es_to_free s) + F))"
    using assms Some by (simp_all add: err_inv_def own_tls_def own_state_def world_ok_def ac_simps)
  obtain es h' where l: "err_clear_loop ERR_NUM_ERRORS (es_errors s) (ew_heap w) = (es, h')" by force
  from clear_loop_strs [OF _ h l] ok have "heap_strs h' (own (es_to_free s) + F)" by (auto simp: err_ok_def)
  from hfree_strs [OF this] l Some show ?thesis by (simp add: err_inv_def err_state_free_def world_ok_def own_tls_def)
qed (use assms in \<open>simp add: err_inv_def err_state_free_def world_ok_def own_tls_def\<close>)

text \<open>A step is a call of one function, with any arguments, or the end of the thread.\<close>

inductive err_step :: "fresh \<Rightarrow> machine \<Rightarrow> machine \<Rightarrow> bool" for f where
  put: "err_step f (w, ss) (ERR_put_error got errno_value library reason fname line w, ss)"
| get: "get_error_values got inc newest wfile wdata w = (v, w') \<Longrightarrow> \<not> (inc \<and> newest) \<Longrightarrow> err_step f (w, ss) (w', ss)"
| clear: "err_step f (w, ss) (ERR_clear_error got w, ss)"
| add_data: "length (arg_bytes args) + 101 < SIZE_BOUND \<Longrightarrow> err_step f (w, ss) (ERR_add_error_data got f args w, ss)"
| add_dataf: "err_step f (w, ss) (ERR_add_error_dataf got f formatted w, ss)"
| mark: "ERR_set_mark got w = (r, w') \<Longrightarrow> err_step f (w, ss) (w', ss)"
| pop: "ERR_pop_to_mark got w = (r, w') \<Longrightarrow> err_step f (w, ss) (w', ss)"
| save: "ERR_save_state got got1 got2 f w = (r, w') \<Longrightarrow> err_step f (w, ss) (w', (case r of None \<Rightarrow> [] | Some s \<Rightarrow> [s]) @ ss)"
| restore: "sv \<in> set ss \<Longrightarrow> err_step f (w, ss) (ERR_restore_state got f (Some sv) w, ss)"
| restore_null: "err_step f (w, ss) (ERR_restore_state got f None w, ss)"
| save_free: "err_step f (w, ss1 @ sv # ss2) (w\<lparr>ew_heap := ERR_SAVE_STATE_free (Some sv) (ew_heap w)\<rparr>, ss1 @ ss2)"
| exit: "err_step f (w, ss) (w\<lparr>ew_tls := None, ew_heap := err_state_free (ew_tls w) (ew_heap w)\<rparr>, ss)"

inductive err_reach :: "fresh \<Rightarrow> machine \<Rightarrow> bool" for f where
  start: "err_reach f (\<lparr>ew_tls = None, ew_heap = \<lparr>cells = Map.empty, fault = False\<rparr>\<rparr>, [])"
| step: "err_reach f m \<Longrightarrow> err_step f m m' \<Longrightarrow> err_reach f m'"

definition machine_inv :: "machine \<Rightarrow> bool" where
  "machine_inv m \<longleftrightarrow> err_inv (fst m) (own_saves (snd m)) \<and> (\<forall>sv \<in> set (snd m). length (ss_errors sv) < ERR_NUM_ERRORS)"

lemma own_saves_simps [simp]: "own_saves [] = {#}" "own_saves (xs @ ys) = own_saves xs + own_saves ys"
  "own_saves (sv # xs) = own_errs (ss_errors sv) + own_saves xs"
  by (simp_all add: own_saves_def)

lemma own_saves_remove: "sv \<in> set ss \<Longrightarrow> \<exists>F. own_saves ss = own_errs (ss_errors sv) + F"
  by (induction ss) (auto simp: ac_simps)

lemma own_errs_not_NULL: "NULL \<notin># own_errs es"
  by (induction es) (auto simp: own_def)

lemma own_not_NULL: "p \<in># own_tls t + own_saves ss \<Longrightarrow> p \<noteq> NULL"
proof -
  have "NULL \<notin># own_saves ss" by (induction ss) (auto simp: own_errs_not_NULL)
  moreover have "NULL \<notin># own_tls t" using own_errs_not_NULL by (auto simp: own_tls_def own_state_def own_def split: option.splits)
  ultimately show "p \<in># own_tls t + own_saves ss \<Longrightarrow> p \<noteq> NULL" by auto
qed

lemma step_inv:
  assumes "fresh_ok f" and "err_step f m m'" and "machine_inv m"
  shows "machine_inv m'"
  using assms(2,3)
proof cases
  case (save got got1 got2 w r w' ss)
  with assms(3) have "err_inv w (own_saves ss)" by (simp add: machine_inv_def)
  note s = save_inv [OF assms(1) this save(3)]
  show ?thesis using assms(3) s save by (cases r) (auto simp: machine_inv_def)
next
  case (restore sv ss w got)
  obtain F where F: "own_saves ss = own_errs (ss_errors sv) + F" using own_saves_remove [OF restore(3)] by blast
  with assms(3) restore have i: "err_inv w (own_errs (ss_errors sv) + F)" "length (ss_errors sv) < ERR_NUM_ERRORS" by (auto simp: machine_inv_def)
  from restore_inv [OF assms(1) i] F assms(3) restore show ?thesis by (simp add: machine_inv_def)
next
  case (save_free w ss1 sv ss2)
  then have "err_inv w (own_errs (ss_errors sv) + (own_saves ss1 + own_saves ss2))" using assms(3) by (simp add: machine_inv_def ac_simps)
  from save_free_inv [OF this] assms(3) save_free show ?thesis by (simp add: machine_inv_def)
qed (use assms(1) in \<open>auto simp: machine_inv_def ERR_restore_state_def
  intro: put_inv get_inv clear_inv add_data_inv add_dataf_inv mark_inv pop_inv exit_inv\<close>)

lemma reach_inv:
  assumes "fresh_ok f" and "err_reach f m"
  shows "machine_inv m"
  using assms(2)
proof induction
  case start
  show ?case by (simp add: machine_inv_def err_inv_def world_ok_def own_tls_def heap_strs_def heap_owns_def)
next
  case (step m m')
  then show ?case using step_inv [OF assms(1)] by blast
qed

section \<open>Properties\<close>

text \<open>
  C9: let a thread call any functions of err.c in any order, with any arguments and any failures of the
  allocator, and exit. In every world it reaches, no block was freed twice, written past its end or read after it was
  freed, the blocks that are allocated are exactly the strings that hang at a slot of the ring, at \<open>to_free\<close> or at a saved state,
  each of them once, so that none is leaked, and each holds a terminated string.
\<close>

theorem strings_owned_once:
  assumes "fresh_ok f" and "err_reach f (w, ss)"
  shows "\<not> fault (ew_heap w) \<and> mset_set (dom (cells (ew_heap w))) = own_tls (ew_tls w) + own_saves ss \<and>
    (\<forall>p b. cells (ew_heap w) p = Some b \<longrightarrow> 0 \<in> set b)"
proof -
  from reach_inv [OF assms] have i: "heap_strs (ew_heap w) (own_tls (ew_tls w) + own_saves ss)" by (simp add: machine_inv_def err_inv_def)
  then have h: "heap_owns (ew_heap w) (own_tls (ew_tls w) + own_saves ss)" by (simp add: heap_strs_def)
  moreover have "0 \<in> set b" if c: "cells (ew_heap w) p = Some b" for p b
  proof -
    have m: "p \<in># own_tls (ew_tls w) + own_saves ss" using heap_owns_cell [OF h, of p] c by simp
    moreover have "p \<noteq> NULL" using m own_not_NULL by blast
    ultimately have "strlen b \<noteq> None" using i c by (auto simp: heap_strs_def str_at_def)
    then show ?thesis by (simp only: strlen_iff)
  qed
  ultimately show ?thesis by (simp add: heap_owns_def)
qed

text \<open>An allocator with a single block.\<close>

definition one_block :: fresh where
  "one_block h sz = (if cells h 1 = None then Some (1, replicate sz 7) else None)"

lemma one_block_ok: "fresh_ok one_block"
  by (auto simp: fresh_ok_def one_block_def NULL_def)

theorem strings_owned_once_witness:
  "let w1 = ERR_put_error True 0 3 100 None 5 \<lparr>ew_tls = None, ew_heap = \<lparr>cells = Map.empty, fault = False\<rparr>\<rparr>;
       w2 = ERR_add_error_data True one_block [Some [65], None, Some [66, 67]] w1;
       w3 = snd (ERR_get_error_line_data True w2)
   in dom (cells (ew_heap w3)) = {1} \<and> mset_set (dom (cells (ew_heap w3))) = own_tls (ew_tls w3)"
proof -
  define w1 where "w1 = ERR_put_error True 0 3 100 None 5 \<lparr>ew_tls = None, ew_heap = \<lparr>cells = Map.empty, fault = False\<rparr>\<rparr>"
  define w2 where "w2 = ERR_add_error_data True one_block [Some [65], None, Some [66, 67]] w1"
  define w3 where "w3 = snd (ERR_get_error_line_data True w2)"
  have "err_reach one_block (w1, [])" unfolding w1_def by (rule err_reach.step [OF err_reach.start err_step.put])
  then have "err_reach one_block (w2, [])"
    unfolding w2_def by (rule err_reach.step) (rule err_step.add_data, simp add: arg_bytes_def SIZE_BOUND_def)
  then have r: "err_reach one_block (w3, [])" unfolding w3_def ERR_get_error_line_data_def
    by (rule err_reach.step) (rule err_step.get [OF prod.collapse [symmetric]], simp)
  have "cells (ew_heap w3) = [1 \<mapsto> store_at 3 [0] (store_at 1 [66, 67] (store_at 0 [65] (replicate 81 7)))]"
    by (simp add: w3_def w2_def w1_def ERR_get_error_line_data_def get_error_values_def ERR_add_error_data_def
        err_add_error_vdata_def halloc_def one_block_def NULL_def hwrite_def size_add_def SIZE_BOUND_def err_set_error_data_def
        ERR_put_error_def err_get_state_def err_clear_def hfree_def ERR_NUM_ERRORS_def err_zero_def Let_def length_store_at)
  then have "dom (cells (ew_heap w3)) = {1}" by simp
  with strings_owned_once [OF one_block_ok r] show ?thesis
    by (simp add: Let_def w1_def [symmetric] w2_def [symmetric] w3_def [symmetric])
qed

end
