(* ===== verification/Err_String.thy ===== *)
theory Err_String imports Err Sort_Search begin

text \<open>
  Error codes as text, the second half of crypto/err/err.c: the library names, the search of the reason strings in the
  table that the build generates, the formatting with its repair of truncated output, and the loop that prints the
  queue. Text is a \<open>string\<close> without its terminator. The generated table (\<open>values\<close> and \<open>strings\<close>), \<open>strerror\<close> and the print
  callback are parameters.
\<close>

section \<open>The code\<close>

definition ERR_GET_LIB :: "u32 \<Rightarrow> nat" where
  "ERR_GET_LIB packed_error = unat (drop_bit 24 packed_error AND 0xff)"

definition ERR_GET_REASON :: "u32 \<Rightarrow> nat" where
  "ERR_GET_REASON packed_error = unat (packed_error AND 0xfff)"

definition kLibraryNames :: "string list" where
  "kLibraryNames = [
    ''invalid library (0)'', ''unknown library'', ''system library'', ''bignum routines'', ''RSA routines'',
    ''Diffie-Hellman routines'', ''public key routines'', ''memory buffer routines'', ''object identifier routines'',
    ''PEM routines'', ''DSA routines'', ''X.509 certificate routines'', ''ASN.1 encoding routines'',
    ''configuration file routines'', ''common libcrypto routines'', ''elliptic curve routines'', ''SSL routines'',
    ''BIO routines'', ''PKCS7 routines'', ''PKCS8 routines'', ''X509 V3 routines'', ''random number generator'',
    ''ENGINE routines'', ''OCSP routines'', ''UI routines'', ''COMP routines'', ''ECDSA routines'', ''ECDH routines'',
    ''HMAC routines'', ''Digest functions'', ''Cipher functions'', ''HKDF functions'', ''User defined functions'']"

definition ERR_NUM_LIBS :: nat where
  "ERR_NUM_LIBS = 33"

definition err_string_cmp :: "u32 \<Rightarrow> u32 \<Rightarrow> int" where
  "err_string_cmp a b =
    (let a_key = drop_bit 15 a; b_key = drop_bit 15 b
     in if a_key < b_key then -1 else if a_key > b_key then 1 else 0)"

text \<open>The string at an offset, up to its terminator.\<close>

definition string_at :: "string \<Rightarrow> nat \<Rightarrow> string" where
  "string_at strings off = takeWhile (\<lambda>c. c \<noteq> CHR 0x00) (drop off strings)"

definition err_string_lookup :: "u32 \<Rightarrow> u32 \<Rightarrow> u32 list \<Rightarrow> string \<Rightarrow> string option" where
  "err_string_lookup lib key values strings =
    (if lib \<ge> push_bit 6 1 \<or> key \<ge> push_bit 11 1 then None
     else let search_key = push_bit 26 lib OR push_bit 15 key
     in (case bsearch err_string_cmp search_key values of
           None \<Rightarrow> None
         | Some i \<Rightarrow> Some (string_at strings (unat (values ! i AND 0x7fff)))))"

definition ERR_lib_error_string :: "u32 \<Rightarrow> string option" where
  "ERR_lib_error_string packed_error =
    (let lib = ERR_GET_LIB packed_error in if lib \<ge> ERR_NUM_LIBS then None else Some (kLibraryNames ! lib))"

definition ERR_func_error_string :: "u32 \<Rightarrow> string" where
  "ERR_func_error_string packed_error = ''OPENSSL_internal''"

definition ERR_reason_error_string :: "(nat \<Rightarrow> string) \<Rightarrow> u32 list \<Rightarrow> string \<Rightarrow> u32 \<Rightarrow> string option" where
  "ERR_reason_error_string strerror values strings packed_error =
    (let lib = ERR_GET_LIB packed_error; reason = ERR_GET_REASON packed_error
     in if lib = 2 then (if reason < 127 then Some (strerror reason) else None)
        else if reason < ERR_NUM_LIBS then Some (kLibraryNames ! reason)
        else if reason < 100
        then if reason = 65 then Some ''malloc failure''
             else if reason = 66 then Some ''function should not have been called''
             else if reason = 67 then Some ''passed a null parameter''
             else if reason = 68 then Some ''internal error''
             else if reason = 69 then Some ''overflow''
             else None
        else err_string_lookup (word_of_nat lib) (word_of_nat reason) values strings)"

text \<open>What \<open>%u\<close> and \<open>%08x\<close> print.\<close>

fun dec_digits :: "nat \<Rightarrow> string" where
  "dec_digits n = (if n < 10 then [char_of (48 + n)] else dec_digits (n div 10) @ [char_of (48 + n mod 10)])"

declare dec_digits.simps [simp del]

definition hex_digit :: "nat \<Rightarrow> char" where
  "hex_digit d = (if d < 10 then char_of (48 + d) else char_of (87 + d))"

definition hex8 :: "u32 \<Rightarrow> string" where
  "hex8 w = map (\<lambda>i. hex_digit (unat w div 16 ^ (7 - i) mod 16)) [0..<8]"

text \<open>\<open>BIO_snprintf\<close> into a buffer of \<open>len\<close> bytes, \<open>len > 0\<close>: what fits before the terminator.\<close>

definition snprintf :: "nat \<Rightarrow> string \<Rightarrow> string" where
  "snprintf len s = take (len - 1) s"

text \<open>\<open>strchr\<close> of a colon from an index on.\<close>

definition find_colon :: "string \<Rightarrow> nat \<Rightarrow> nat option" where
  "find_colon buf s = (case dropWhile (\<lambda>i. buf ! i \<noteq> CHR '':'') [s..<length buf] of [] \<Rightarrow> None | i # _ \<Rightarrow> Some i)"

definition num_colons :: nat where
  "num_colons = 4"

text \<open>The loop over \<open>i\<close>, with \<open>k\<close> iterations left and the search starting at index \<open>s\<close>.\<close>

fun colon_loop :: "nat \<Rightarrow> nat \<Rightarrow> nat \<Rightarrow> string \<Rightarrow> string" where
  "colon_loop len 0 s buf = buf"
| "colon_loop len (Suc k) s buf =
    (let last_pos = len - 1 - num_colons + (num_colons - Suc k)
     in (case find_colon buf s of
           None \<Rightarrow> store_at last_pos (replicate (Suc k) CHR '':'') buf
         | Some colon \<Rightarrow> if colon > last_pos then store_at last_pos (replicate (Suc k) CHR '':'') buf
                         else colon_loop len k (colon + 1) buf))"

definition ERR_error_string_n :: "(nat \<Rightarrow> string) \<Rightarrow> u32 list \<Rightarrow> string \<Rightarrow> u32 \<Rightarrow> nat \<Rightarrow> string option" where
  "ERR_error_string_n strerror values strings packed_error len =
    (if len = 0 then None
     else let lib_str = (case ERR_lib_error_string packed_error of Some s \<Rightarrow> s
            | None \<Rightarrow> snprintf 64 (''lib('' @ dec_digits (ERR_GET_LIB packed_error) @ '')''));
              reason_str = (case ERR_reason_error_string strerror values strings packed_error of Some s \<Rightarrow> s
            | None \<Rightarrow> snprintf 64 (''reason('' @ dec_digits (ERR_GET_REASON packed_error) @ '')''));
              buf = snprintf len (''error:'' @ hex8 packed_error @ '':'' @ lib_str @ '':OPENSSL_internal:'' @ reason_str)
          in if length buf = len - 1
             then if len \<le> num_colons then Some buf else Some (colon_loop len num_colons 0 buf)
             else Some buf)"

definition ERR_ERROR_STRING_BUF_LEN :: nat where
  "ERR_ERROR_STRING_BUF_LEN = 120"

definition ERR_error_string :: "(nat \<Rightarrow> string) \<Rightarrow> u32 list \<Rightarrow> string \<Rightarrow> u32 \<Rightarrow> string option" where
  "ERR_error_string strerror values strings packed_error =
    ERR_error_string_n strerror values strings packed_error ERR_ERROR_STRING_BUF_LEN"

text \<open>The data of an error, read through its pointer.\<close>

definition data_string :: "heap \<Rightarrow> ptr \<Rightarrow> string" where
  "data_string h p = (case cells h p of None \<Rightarrow> [] | Some b \<Rightarrow> map (\<lambda>c. char_of (unat c)) (takeWhile (\<lambda>c. c \<noteq> 0) b))"

text \<open>
  \<open>ERR_print_errors_cb\<close>: the callback takes a message and its own state and says whether to go on. The loop has no bound
  of its own; \<open>fuel\<close> counts its iterations and \<open>None\<close> is running out of it.
\<close>

definition print_message :: "(u32 \<Rightarrow> string) \<Rightarrow> nat \<Rightarrow> err_values \<Rightarrow> heap \<Rightarrow> string" where
  "print_message error_string thread_hash v h =
    snprintf 1024 (dec_digits thread_hash @ '':'' @ error_string (ev_packed v) @ '':'' @
      (case ev_file_line v of None \<Rightarrow> [] | Some (file_name, line) \<Rightarrow> file_name @ '':'' @ dec_digits line) @ '':'' @
      (case ev_data_flags v of Some (Some p, flags) \<Rightarrow> if flags = ERR_FLAG_STRING then data_string h p else [] | _ \<Rightarrow> []) @ ''\<newline>'')"

fun print_loop :: "nat \<Rightarrow> (u32 \<Rightarrow> string) \<Rightarrow> nat \<Rightarrow> bool \<Rightarrow> ('s \<Rightarrow> string \<Rightarrow> bool \<times> 's) \<Rightarrow> 's \<Rightarrow> err_world \<Rightarrow> ('s \<times> err_world) option" where
  "print_loop 0 error_string thread_hash got callback st w = None"
| "print_loop (Suc fuel) error_string thread_hash got callback st w =
    (case ERR_get_error_line_data got w of (v, w) \<Rightarrow>
      if ev_packed v = 0 then Some (st, w)
      else case callback st (print_message error_string thread_hash v (ew_heap w)) of (go_on, st) \<Rightarrow>
        if \<not> go_on then Some (st, w) else print_loop fuel error_string thread_hash got callback st w)"

definition ERR_print_errors_cb ::
    "(nat \<Rightarrow> string) \<Rightarrow> u32 list \<Rightarrow> string \<Rightarrow> nat \<Rightarrow> bool \<Rightarrow> ('s \<Rightarrow> string \<Rightarrow> bool \<times> 's) \<Rightarrow> 's \<Rightarrow> err_world \<Rightarrow> ('s \<times> err_world) option" where
  "ERR_print_errors_cb strerror values strings thread_hash got callback st w =
    print_loop ERR_NUM_ERRORS (\<lambda>packed. the (ERR_error_string strerror values strings packed)) thread_hash got callback st
      (snd (err_get_state got w))"

text \<open>\<open>fputs\<close> to the stream \<open>fp\<close> returns a number, negative on failure, and the stream it leaves.\<close>

definition print_errors_to_file :: "(string \<Rightarrow> 'fp \<Rightarrow> int \<times> 'fp) \<Rightarrow> 'fp \<Rightarrow> string \<Rightarrow> bool \<times> 'fp" where
  "print_errors_to_file fputs fp msg = (case fputs msg fp of (res, fp) \<Rightarrow> (\<not> res < 0, fp))"

definition ERR_print_errors_fp ::
    "(nat \<Rightarrow> string) \<Rightarrow> u32 list \<Rightarrow> string \<Rightarrow> nat \<Rightarrow> bool \<Rightarrow> (string \<Rightarrow> 'fp \<Rightarrow> int \<times> 'fp) \<Rightarrow> 'fp \<Rightarrow> err_world \<Rightarrow> ('fp \<times> err_world) option" where
  "ERR_print_errors_fp strerror values strings thread_hash got fputs fp w =
    ERR_print_errors_cb strerror values strings thread_hash got (print_errors_to_file fputs) fp w"

section \<open>Five fields\<close>

lemma find_colon_Some:
  assumes "find_colon buf s = Some i"
  shows "s \<le> i" and "i < length buf" and "buf ! i = CHR '':''"
proof -
  let ?P = "\<lambda>i. buf ! i \<noteq> CHR '':''"
  from assms obtain r where r: "dropWhile ?P [s..<length buf] = i # r" by (auto simp: find_colon_def split: list.splits)
  have "i \<in> set [s..<length buf]" using r by (metis list.set_intros(1) set_dropWhileD)
  then show i: "s \<le> i" "i < length buf" by simp_all
  show "buf ! i = CHR '':''" using r hd_dropWhile [of ?P "[s..<length buf]"] by auto
qed

lemma count_store_at:
  assumes "p + k \<le> length buf" and "s \<le> p"
  shows "count_list (store_at p (replicate k c) buf) c \<ge> count_list (take s buf) c + k"
proof -
  have "count_list (replicate k c) c = k" by (induction k) simp_all
  moreover have "count_list (take s buf) c \<le> count_list (take p buf) c"
    using assms(2) by (metis append_take_drop_id count_list_append le_add1 take_take min.absorb1)
  ultimately show ?thesis by (simp add: store_at_def)
qed

lemma colon_loop_count:
  assumes "length buf = len - 1" and "num_colons < len" and "k \<le> num_colons" and "s \<le> len - 1 - k"
    and "num_colons - k \<le> count_list (take s buf) CHR '':''"
  shows "length (colon_loop len k s buf) = len - 1 \<and> num_colons \<le> count_list (colon_loop len k s buf) CHR '':''"
  using assms(3-)
proof (induction k arbitrary: s)
  case 0
  have "count_list (take s buf) CHR '':'' \<le> count_list buf CHR '':''" by (metis append_take_drop_id count_list_append le_add1)
  then show ?case using 0 assms(1) by simp
next
  case (Suc k)
  let ?p = "len - 1 - num_colons + (num_colons - Suc k)"
  have p: "?p = len - 1 - Suc k" using Suc.prems(1) assms(2) by simp
  have "?p + Suc k \<le> length buf" using assms(1,2) Suc.prems(1) p by simp
  note c = count_store_at [OF this, of s "CHR '':''"]
  have fixed: "length (store_at ?p (replicate (Suc k) CHR '':'') buf) = len - 1 \<and>
      num_colons \<le> count_list (store_at ?p (replicate (Suc k) CHR '':'') buf) CHR '':''"
    using c Suc.prems p assms(1,2) by (simp add: length_store_at)
  show ?case
  proof (cases "find_colon buf s")
    case None
    with fixed show ?thesis by (simp add: Let_def)
  next
    case (Some i)
    note f = find_colon_Some [OF Some]
    show ?thesis
    proof (cases "?p < i")
      case True
      with fixed Some show ?thesis by (simp add: Let_def)
    next
      case False
      have "take (i + 1) buf = take i buf @ [CHR '':'']" using f(2,3) by (simp add: take_Suc_conv_app_nth)
      moreover have "count_list (take s buf) CHR '':'' \<le> count_list (take i buf) CHR '':''"
        using f(1) by (metis append_take_drop_id count_list_append le_add1 take_take min.absorb1)
      ultimately have "num_colons - k \<le> count_list (take (i + 1) buf) CHR '':''" using Suc.prems(3) by simp
      from Suc.IH [OF _ _ this] False p Suc.prems(1) assms(2) have
        "length (colon_loop len k (i + 1) buf) = len - 1 \<and> num_colons \<le> count_list (colon_loop len k (i + 1) buf) CHR '':''" by simp
      with False Some show ?thesis by (simp add: Let_def)
    qed
  qed
qed

text \<open>The text before the repair has its four colons; the repair keeps them in what was cut.\<close>

lemma error_string_fields:
  assumes "num_colons < len" and "ERR_error_string_n strerror values strings packed_error len = Some out"
  shows "length out < len" and "num_colons \<le> count_list out CHR '':''"
proof -
  define lib_str where "lib_str = (case ERR_lib_error_string packed_error of Some s \<Rightarrow> s
    | None \<Rightarrow> snprintf 64 (''lib('' @ dec_digits (ERR_GET_LIB packed_error) @ '')''))"
  define reason_str where "reason_str = (case ERR_reason_error_string strerror values strings packed_error of Some s \<Rightarrow> s
    | None \<Rightarrow> snprintf 64 (''reason('' @ dec_digits (ERR_GET_REASON packed_error) @ '')''))"
  have r: "out = (let buf = snprintf len (''error:'' @ hex8 packed_error @ '':'' @ lib_str @ '':OPENSSL_internal:'' @ reason_str)
      in if length buf = len - 1 then colon_loop len num_colons 0 buf else buf)"
    using assms unfolding ERR_error_string_n_def Let_def lib_str_def [symmetric] reason_str_def [symmetric] by (simp split: if_splits)
  let ?full = "''error:'' @ hex8 packed_error @ '':'' @ lib_str @ '':OPENSSL_internal:'' @ reason_str"
  have four: "num_colons \<le> count_list ?full CHR '':''" by (simp add: num_colons_def)
  have "length out < len \<and> num_colons \<le> count_list out CHR '':''"
  proof (cases "length (snprintf len ?full) = len - 1")
    case True
    with colon_loop_count [OF True assms(1), of num_colons 0] r assms(1) show ?thesis by (simp add: Let_def)
  next
    case False
    then have "snprintf len ?full = ?full" "length ?full < len" by (auto simp: snprintf_def)
    with four r False show ?thesis by (simp add: Let_def)
  qed
  then show "length out < len" and "num_colons \<le> count_list out CHR '':''" by simp_all
qed

section \<open>The search of the reasons\<close>

interpretation errcmp: comparator err_string_cmp
  by unfold_locales (auto simp: err_string_cmp_def Let_def split: if_splits)

lemma err_string_cmp_0: "err_string_cmp a b = 0 \<longleftrightarrow> drop_bit 15 a = drop_bit 15 b"
  by (auto simp: err_string_cmp_def Let_def)

lemma search_key_drop:
  assumes "lib < 64" and "key < (2048 :: u32)"
  shows "drop_bit 15 (push_bit 26 lib OR push_bit 15 key) = push_bit 11 lib OR key"
proof -
  have b: "take_bit 6 lib = lib" "take_bit 11 key = key"
    using assms by (simp_all add: word_unat_eq_iff unsigned_take_bit_eq take_bit_nat_eq_self word_less_nat_alt)
  have "drop_bit 15 (push_bit 26 (take_bit 6 lib) OR push_bit 15 (take_bit 11 key)) = push_bit 11 (take_bit 6 lib) OR take_bit 11 key"
    by (rule bit_word_eqI) (auto simp: bit_simps)
  then show ?thesis unfolding b .
qed

lemma err_string_lookup_ok:
  assumes "sorted_wrt (\<lambda>x y. drop_bit 15 x \<le> drop_bit 15 y) values" and "lib < 64" and "key < 2048"
  shows "case err_string_lookup lib key values strings of
      None \<Rightarrow> \<forall>v \<in> set values. drop_bit 15 v \<noteq> push_bit 11 lib OR key
    | Some s \<Rightarrow> \<exists>v \<in> set values. drop_bit 15 v = push_bit 11 lib OR key \<and> s = string_at strings (unat (v AND 0x7fff))"
proof -
  have "(\<lambda>x y. err_string_cmp x y \<le> 0) = (\<lambda>x y. drop_bit 15 x \<le> drop_bit 15 y)"
    by (intro ext) (auto simp: err_string_cmp_def Let_def)
  with assms(1) have sorted: "sorted_wrt (\<lambda>x y. err_string_cmp x y \<le> 0) values" by simp
  let ?k = "push_bit 26 lib OR push_bit 15 key"
  have lim: "\<not> (lib \<ge> push_bit 6 1 \<or> key \<ge> push_bit 11 1)" using assms(2,3) by (simp add: linorder_not_le)
  note c = errcmp.bsearch_correct [OF sorted, of ?k, unfolded err_string_cmp_0 search_key_drop [OF assms(2,3)]]
  show ?thesis
  proof (cases "bsearch err_string_cmp ?k values")
    case None
    with c(2) lim show ?thesis by (auto simp: err_string_lookup_def Let_def)
  next
    case (Some i)
    with c(1) [OF Some] lim show ?thesis by (auto simp: err_string_lookup_def Let_def intro!: bexI [of _ "values ! i"])
  qed
qed

section \<open>Printing ends\<close>

lemma print_loop_ends:
  assumes "world_ok w" and "length (world_queue w) < fuel"
  shows "\<exists>st' w'. print_loop fuel error_string thread_hash got callback st w = Some (st', w') \<and> world_ok w' \<and>
    (\<exists>n. world_queue w' = drop n (world_queue w))"
  using assms
proof (induction fuel arbitrary: st w)
  case (Suc fuel)
  obtain v w1 where g: "ERR_get_error_line_data got w = (v, w1)" by force
  note q = get_queue [OF Suc.prems(1) g [unfolded ERR_get_error_line_data_def]]
  have tl: "world_queue w1 = tl (world_queue w)" using q by (simp split: list.splits)
  show ?case
  proof (cases "ev_packed v = 0")
    case True
    then show ?thesis using g q tl by (auto intro: exI [of _ 1] simp: drop_Suc)
  next
    case False
    then have ne: "world_queue w \<noteq> []" using q by (auto simp: no_values_def split: list.splits)
    obtain b st1 where c: "callback st (print_message error_string thread_hash v (ew_heap w1)) = (b, st1)" by force
    show ?thesis
    proof (cases b)
      case True
      have "length (world_queue w1) < fuel" using Suc.prems(2) ne tl by (cases "world_queue w") auto
      with q obtain st2 w2 n where r: "print_loop fuel error_string thread_hash got callback st1 w1 = Some (st2, w2)" "world_ok w2"
        "world_queue w2 = drop n (world_queue w1)" using Suc.IH [of w1 st1] by auto
      then have "world_queue w2 = drop (Suc n) (world_queue w)" by (simp add: tl drop_Suc)
      with r(1,2) g False c True show ?thesis by auto
    next
      case nb: False
      then show ?thesis using g False c q tl by (auto intro: exI [of _ 1] simp: drop_Suc)
    qed
  qed
qed simp

section \<open>Properties\<close>

text \<open>
  C13: what \<open>ERR_error_string_n\<close> writes into a buffer of more than four bytes fits before its terminator
  and has its five fields, that is, at least four colons, however short the buffer cuts it.
\<close>

theorem error_string_keeps_fields:
  assumes "num_colons < len" and "ERR_error_string_n strerror values strings packed_error len = Some out"
  shows "length out < len \<and> num_colons \<le> count_list out CHR '':''"
  using error_string_fields [OF assms] by simp

theorem error_string_keeps_fields_witness:
  "ERR_error_string_n (\<lambda>_. []) [] [] 0x0407006b 10 = Some ''error::::'' \<and> count_list ''error::::'' CHR '':'' \<ge> num_colons"
proof -
  have r: "ERR_error_string_n (\<lambda>_. []) [] [] 0x0407006b 10 = Some ''error::::''"
  proof -
    have "snprintf 10 (''error:'' @ hex8 0x0407006b @ rest) = ''error:040''" for rest
      by (simp add: snprintf_def hex8_def hex_digit_def upt_rec) code_simp
    then show ?thesis by (simp add: ERR_error_string_n_def num_colons_def find_colon_def store_at_def upt_rec numeral_nat del: append.simps)
  qed
  from error_string_keeps_fields [OF _ r] r show ?thesis by (simp add: num_colons_def)
qed

text \<open>
  C15: in a table sorted by library and reason, \<open>err_string_lookup\<close> returns the string of an entry with that
  library and reason, and \<open>None\<close> only when there is none.
\<close>

theorem reason_lookup_exact:
  assumes "sorted_wrt (\<lambda>x y. drop_bit 15 x \<le> drop_bit 15 y) values" and "lib < 64" and "key < 2048"
  shows "case err_string_lookup lib key values strings of
      None \<Rightarrow> \<forall>v \<in> set values. drop_bit 15 v \<noteq> push_bit 11 lib OR key
    | Some s \<Rightarrow> \<exists>v \<in> set values. drop_bit 15 v = push_bit 11 lib OR key \<and> s = string_at strings (unat (v AND 0x7fff))"
  by (rule err_string_lookup_ok [OF assms])

theorem reason_lookup_exact_witness:
  "let values = [push_bit 26 3 OR push_bit 15 100 OR 0, push_bit 26 3 OR push_bit 15 101 OR 3, push_bit 26 4 OR push_bit 15 100 OR 6] :: u32 list;
       strings = ''ab'' @ [CHR 0x00] @ ''cd'' @ [CHR 0x00] @ ''ef''
   in err_string_lookup 3 101 values strings = Some ''cd'' \<and> (\<forall>v \<in> set values. drop_bit 15 v \<noteq> push_bit 11 4 OR 101)"
proof -
  let ?v = "[push_bit 26 3 OR push_bit 15 100 OR 0, push_bit 26 3 OR push_bit 15 101 OR 3, push_bit 26 4 OR push_bit 15 100 OR 6] :: u32 list"
  let ?s = "''ab'' @ [CHR 0x00] @ ''cd'' @ [CHR 0x00] @ ''ef''"
  have s: "sorted_wrt (\<lambda>x y. drop_bit 15 x \<le> drop_bit 15 y) ?v" by code_simp
  have r: "err_string_lookup 3 101 ?v ?s = Some ''cd''" "err_string_lookup 4 101 ?v ?s = None" by code_simp+
  from reason_lookup_exact [OF s, of 4 101 ?s] r(2) have "\<forall>v \<in> set ?v. drop_bit 15 v \<noteq> push_bit 11 4 OR 101" by simp
  with r(1) show ?thesis by (simp only: Let_def)
qed



end
