(* ===== verification/Spec2Isabelle.thy ===== *)
theory Spec2Isabelle imports OID SetOf Base64_Stream SHA256 SHA1 MD5 MD4 SHA512 LHash Err_Ownership Err_String begin

text \<open>
  Skeleton.
\<close>

text \<open>
  C2: an element of any tag that the builder finished around an INTEGER and an OCTET STRING is read back by
  the reader: the value, the string, and nothing left over at either level.
\<close>

theorem build_then_parse:
  assumes "malloc_ok alloc" and "ct_inv t" and "ct_view t = ([], [])"
    and "CBB_add_asn1 alloc 0 tag t = (True, t1)" and "CBB_add_asn1_uint64 alloc 1 v t1 = (True, t2)"
    and "length data < SIZE_BOUND" and "CBB_add_asn1_octet_string alloc 1 data t2 = (True, t3)"
    and "CBB_finish alloc 0 t3 want = (Some out, t4)"
  shows "\<exists>contents rest. CBS_get_asn1 tag out = (Some contents, []) \<and>
    CBS_get_asn1_uint64 contents = (Some v, rest) \<and> CBS_get_asn1 CBS_ASN1_OCTETSTRING rest = (Some data, [])"
proof -
  let ?i = "der_element CBS_ASN1_INTEGER (der_uint (unat v))" and ?o = "der_element CBS_ASN1_OCTETSTRING data"
  have o: "opens t 0 (der_tag tag) 1 True t1" using CBB_add_asn1_opens [OF assms(1,2,4)] .
  have a1: "appends t1 1 ?i t2" by (rule CBB_add_asn1_uint64_appends [OF assms(1) opens_inv [OF o] assms(5)])
  have a2: "appends t2 1 ?o t3" by (rule CBB_add_asn1_octet_string_appends [OF assms(1) appends_inv [OF a1] assms(6,7)])
  from assms(8) obtain t' where f: "CBB_flush alloc 0 t3 = (True, t')"
    by (auto simp: CBB_finish_def split: prod.splits bool.splits option.splits if_splits)
  have b: "appends t1 (Suc 0) (?i @ ?o) t3" using appends_trans [OF a1 a2] by simp
  note c = appends_asn1 [OF assms(1,2,4) b f]
  have "spec_flush 0 (ct_view t3) = (out, [])" by (rule CBB_finish_ok(1) [OF assms(1) appends_inv [OF a2] assms(8)])
  then have out: "out = der_element tag (?i @ ?o)"
    using c(1) CBB_flush_ok(2) [OF assms(1) appends_inv [OF a2] f] assms(3)
    by (simp add: appends_def spec_append_def spec_flush_def)
  have "length (?i @ ?o) < 2 ^ 32" using c(2) by simp
  then have "CBS_get_asn1 tag out = (Some (?i @ ?o), [])" using CBS_get_asn1_iff [of tag out "?i @ ?o" "[]"] by (simp add: out)
  moreover have "CBS_get_asn1_uint64 (?i @ ?o) = (Some v, ?o)" using CBS_get_asn1_uint64_iff by blast
  moreover have "CBS_get_asn1 CBS_ASN1_OCTETSTRING ?o = (Some data, [])"
    using CBS_get_asn1_iff [of CBS_ASN1_OCTETSTRING ?o data "[]"] \<open>length (?i @ ?o) < 2 ^ 32\<close> by (simp add: der_element_def)
  ultimately show ?thesis by blast
qed

definition ten_cbb :: cbb_tree where
  "ten_cbb = \<lparr>ct_base = Some \<lparr>cb_buf = [0, 0, 0, 0, 0, 0, 0, 0, 0, 0], cb_len = 0, cb_cap = 10, cb_can_resize = False, cb_error = False\<rparr>,
     ct_chain = [\<lparr>cbb_offset = 0, cbb_pending_len_len = 0, cbb_pending_is_asn1 = False\<rparr>]\<rparr>"

definition open_cbb :: "u8 list \<Rightarrow> nat \<Rightarrow> cbb_tree" where
  "open_cbb buf len = \<lparr>ct_base = Some \<lparr>cb_buf = buf, cb_len = len, cb_cap = 10, cb_can_resize = False, cb_error = False\<rparr>,
     ct_chain = [\<lparr>cbb_offset = 0, cbb_pending_len_len = 0, cbb_pending_is_asn1 = False\<rparr>,
       \<lparr>cbb_offset = 1, cbb_pending_len_len = 1, cbb_pending_is_asn1 = True\<rparr>]\<rparr>"

lemmas open_run = cbb_run ten_cbb_def open_cbb_def CBB_add_asn1_def CBB_add_bytes_def cbb_write_prefix_def store_at_def
  CBS_ASN1_INTEGER_def CBS_ASN1_OCTETSTRING_def CBS_ASN1_TAG_SHIFT_def CBS_ASN1_TAG_NUMBER_MASK_def

lemma open_cbb_steps:
  "CBB_add_asn1 (\<lambda>_. None) 0 0x20000010 ten_cbb = (True, open_cbb [48, 0, 0, 0, 0, 0, 0, 0, 0, 0] 2)"
  "CBB_add_asn1_uint64 (\<lambda>_. None) (Suc 0) 5 (open_cbb [48, 0, 0, 0, 0, 0, 0, 0, 0, 0] 2) =
    (True, open_cbb [48, 0, 2, 1, 5, 0, 0, 0, 0, 0] 5)"
  "CBB_add_asn1_octet_string (\<lambda>_. None) (Suc 0) [7] (open_cbb [48, 0, 2, 1, 5, 0, 0, 0, 0, 0] 5) =
    (True, open_cbb [48, 0, 2, 1, 5, 4, 1, 7, 0, 0] 8)"
  "fst (CBB_finish (\<lambda>_. None) 0 (open_cbb [48, 0, 2, 1, 5, 4, 1, 7, 0, 0] 8) True) = Some [48, 6, 2, 1, 5, 4, 1, 7]"
proof -
  have eight: "(8 :: nat) = Suc (Suc (Suc (Suc (Suc (Suc (Suc (Suc 0)))))))" by simp
  show "CBB_add_asn1 (\<lambda>_. None) 0 0x20000010 ten_cbb = (True, open_cbb [48, 0, 0, 0, 0, 0, 0, 0, 0, 0] 2)"
    by (simp add: open_run)
  show "CBB_add_asn1_uint64 (\<lambda>_. None) (Suc 0) 5 (open_cbb [48, 0, 0, 0, 0, 0, 0, 0, 0, 0] 2) =
    (True, open_cbb [48, 0, 2, 1, 5, 0, 0, 0, 0, 0] 5)"
    unfolding CBB_add_asn1_uint64_def eight by (simp add: open_run)
  show "CBB_add_asn1_octet_string (\<lambda>_. None) (Suc 0) [7] (open_cbb [48, 0, 2, 1, 5, 0, 0, 0, 0, 0] 5) =
    (True, open_cbb [48, 0, 2, 1, 5, 4, 1, 7, 0, 0] 8)"
    by (simp add: open_run CBB_add_asn1_octet_string_def)
  show "fst (CBB_finish (\<lambda>_. None) 0 (open_cbb [48, 0, 2, 1, 5, 4, 1, 7, 0, 0] 8) True) = Some [48, 6, 2, 1, 5, 4, 1, 7]"
    by (simp add: open_run CBB_finish_def)
qed

theorem build_then_parse_witness:
  "\<exists>contents rest. CBS_get_asn1 0x20000010 [48, 6, 2, 1, 5, 4, 1, 7] = (Some contents, []) \<and>
    CBS_get_asn1_uint64 contents = (Some 5, rest) \<and> CBS_get_asn1 CBS_ASN1_OCTETSTRING rest = (Some [7], [])"
proof -
  have i: "ct_inv ten_cbb" "ct_view ten_cbb = ([], [])"
    by (simp_all add: ten_cbb_def ct_inv_def ct_view_def cb_ok_def cb_bytes_def SIZE_BOUND_def)
  obtain t4 where "CBB_finish (\<lambda>_. None) 0 (open_cbb [48, 0, 2, 1, 5, 4, 1, 7, 0, 0] 8) True = (Some [48, 6, 2, 1, 5, 4, 1, 7], t4)"
    using open_cbb_steps(4) by (metis prod.collapse)
  from build_then_parse [OF malloc_none i open_cbb_steps(1) _ _ _ this] open_cbb_steps(2,3) show ?thesis by (simp add: SIZE_BOUND_def)
qed

end
